(* ===== verification/Prelude.thy ===== *)
theory Prelude
  imports Main "HOL-Library.Word"
begin

text \<open>
  Shared vocabulary of the development: the machine types of the Rigel target (32-bit
  words), C faults as values of a sum type, bounds-checked array access, the C truth value
  operators, transition systems with their reachable states and the interface of an
  inductive invariant. The named collection \<open>c_monad\<close> carries the unfolding rules of the
  fault monad, \<open>c_word\<close> the conversions from masked words to natural numbers.
\<close>

unbundle bit_operations_syntax

type_synonym u32 = "32 word"
type_synonym u64 = "64 word"

named_theorems c_monad \<open>evaluation rules of the fault monad\<close>
named_theorems c_word \<open>conversions of C word expressions to natural numbers\<close>

section \<open>Faults\<close>

text \<open>
  What a C function can do instead of returning: undefined behaviour (an access out of
  bounds, a null dereference, a shift by the width or more, a division by zero, a
  signed overflow, a read of a variable that was never stored), a failed
  \<open>assert\<close>, and the simulator's \<open>abort\<close> instruction (\<open>RigelAbort\<close>).
\<close>

datatype c_fault =
    OutOfBounds
  | NullDeref
  | BadShift
  | DivByZero
  | IntOverflow
  | Uninitialised
  | AssertFailed
  | Aborted

type_synonym 'a c_result = "c_fault + 'a"

fun bnd :: "'e + 'a \<Rightarrow> ('a \<Rightarrow> 'e + 'b) \<Rightarrow> 'e + 'b" where
  bnd_Inl [c_monad]: "bnd (Inl e) f = Inl e"
| bnd_Inr [c_monad]: "bnd (Inr x) f = f x"

lemma bnd_eq_Inr: "bnd m f = Inr y \<longleftrightarrow> (\<exists>x. m = Inr x \<and> f x = Inr y)"
  by (cases m) auto

lemma bnd_assoc: "bnd (bnd m f) g = bnd m (\<lambda>x. bnd (f x) g)"
  by (cases m) auto

lemma bnd_Inr_right [simp]: "bnd m Inr = m"
  by (cases m) auto

definition rd :: "'a list \<Rightarrow> nat \<Rightarrow> 'a c_result" where
  "rd xs i = (if i < length xs then Inr (xs ! i) else Inl OutOfBounds)"

definition wr :: "'a list \<Rightarrow> nat \<Rightarrow> 'a \<Rightarrow> 'a list c_result" where
  "wr xs i v = (if i < length xs then Inr (xs[i := v]) else Inl OutOfBounds)"

lemma rd_in [c_monad]: "i < length xs \<Longrightarrow> rd xs i = Inr (xs ! i)"
  by (simp add: rd_def)

lemma wr_in [c_monad]: "i < length xs \<Longrightarrow> wr xs i v = Inr (xs[i := v])"
  by (simp add: wr_def)

lemma rd_out: "length xs \<le> i \<Longrightarrow> rd xs i = Inl OutOfBounds"
  by (simp add: rd_def)

lemma wr_out: "length xs \<le> i \<Longrightarrow> wr xs i v = Inl OutOfBounds"
  by (simp add: wr_def)

text \<open>The result of an operation on the type \<open>int\<close>: outside its range the operation is undefined.\<close>

definition INT_MAX :: int where "INT_MAX = 2 ^ 31 - 1"

definition c_int :: "int \<Rightarrow> int c_result" where
  "c_int n = (if - INT_MAX - 1 \<le> n \<and> n \<le> INT_MAX then Inr n else Inl IntOverflow)"

lemma c_int_in [c_monad]: "- INT_MAX - 1 \<le> n \<Longrightarrow> n \<le> INT_MAX \<Longrightarrow> c_int n = Inr n"
  by (simp add: c_int_def)

lemma c_int_nat: "int n \<le> INT_MAX \<Longrightarrow> c_int (int n) = Inr (int n)"
  by (simp add: c_int_def INT_MAX_def)

lemma c_int_over: "INT_MAX < n \<Longrightarrow> c_int n = Inl IntOverflow"
  by (simp add: c_int_def)

text \<open>A counting loop \<open>for (i = 0; i < n; i++)\<close> whose body may fail.\<close>

primrec for_n :: "nat \<Rightarrow> (nat \<Rightarrow> 's \<Rightarrow> 's c_result) \<Rightarrow> 's \<Rightarrow> 's c_result" where
  "for_n 0 f s = Inr s"
| "for_n (Suc n) f s = bnd (for_n n f s) (f n)"

lemma for_n_fill:
  "n \<le> length xs \<Longrightarrow> for_n n (\<lambda>i ys. wr ys i v) xs = Inr (replicate n v @ drop n xs)"
proof (induction n)
  case (Suc n)
  then obtain y ys where "drop n xs = y # ys" by (metis Cons_nth_drop_Suc Suc_le_lessD)
  with Suc show ?case
    by (simp add: c_monad list_update_append replicate_append_same drop_Suc flip: tl_drop)
qed simp

text \<open>The results of a function that may fail on the values of a list.\<close>

primrec c_map :: "('a \<Rightarrow> 'b c_result) \<Rightarrow> 'a list \<Rightarrow> 'b list c_result" where
  "c_map f [] = Inr []"
| "c_map f (x # xs) = bnd (f x) (\<lambda>y. bnd (c_map f xs) (\<lambda>ys. Inr (y # ys)))"

lemma c_map_Inr: "(\<And>x. x \<in> set xs \<Longrightarrow> f x = Inr (g x)) \<Longrightarrow> c_map f xs = Inr (map g xs)"
  by (induction xs) (auto simp: c_monad)

text \<open>A loop over the values of a list, in order, whose body may fail.\<close>

primrec for_list :: "'a list \<Rightarrow> ('a \<Rightarrow> 's \<Rightarrow> 's c_result) \<Rightarrow> 's \<Rightarrow> 's c_result" where
  "for_list [] f s = Inr s"
| "for_list (x # xs) f s = bnd (f x s) (for_list xs f)"

lemma for_list_append: "for_list (xs @ ys) f s = bnd (for_list xs f s) (for_list ys f)"
proof (induction xs arbitrary: s)
  case (Cons x xs)
  have eq: "for_list (xs @ ys) f = (\<lambda>s. bnd (for_list xs f s) (for_list ys f))" using Cons.IH by blast
  show ?case by (simp add: bnd_assoc eq)
qed simp

lemma for_list_fun:
  "for_list [] f = Inr"
  "for_list (x # xs) f = (\<lambda>s. bnd (f x s) (for_list xs f))"
  "for_list (xs @ ys) f = (\<lambda>s. bnd (for_list xs f s) (for_list ys f))"
  by (auto simp: for_list_append)

lemma for_list_cong: "(\<And>x s. x \<in> set xs \<Longrightarrow> f x s = g x s) \<Longrightarrow> for_list xs f s = for_list xs g s"
proof (induction xs arbitrary: s)
  case (Cons x xs)
  then have "for_list xs f = for_list xs g" by (simp add: fun_eq_iff)
  then show ?case using Cons.prems by simp
qed simp

lemma for_list_concat: "for_list (concat (map g xs)) f s = for_list xs (\<lambda>x. for_list (g x) f) s"
proof (induction xs arbitrary: s)
  case (Cons x xs)
  have eq: "for_list (concat (map g xs)) f = for_list xs (\<lambda>x. for_list (g x) f)"
    using Cons.IH by blast
  show ?case by (simp add: for_list_append eq)
qed simp

lemma for_list_map: "for_list (map g xs) f s = for_list xs (\<lambda>x. f (g x)) s"
proof (induction xs arbitrary: s)
  case (Cons x xs)
  have eq: "for_list (map g xs) f = for_list xs (\<lambda>x. f (g x))" using Cons.IH by blast
  show ?case by (simp add: eq)
qed simp

section \<open>C truth values\<close>

definition c_not :: "'a::len word \<Rightarrow> 'a word" where
  "c_not x = (if x = 0 then 1 else 0)"

lemma c_not_simps [simp]: "c_not 0 = 1" "c_not 1 = 0"
  by (simp_all add: c_not_def)

lemma c_not_cases: "c_not x = 0 \<or> c_not x = 1"
  by (simp add: c_not_def)

lemma c_not_neq: "x = 0 \<or> x = 1 \<Longrightarrow> c_not x \<noteq> x"
  by (auto simp: c_not_def)

lemma c_not_c_not: "x = 0 \<or> x = 1 \<Longrightarrow> c_not (c_not x) = x"
  by (auto simp: c_not_def)

section \<open>Masked words\<close>

text \<open>A power-of-two mask reduces modulo the power of two.\<close>

lemma unat_and_mask [c_word]:
  "unat (w AND mask n) = unat w mod 2 ^ n" for w :: "'a::len word"
  by (simp add: unsigned_take_bit_eq flip: take_bit_eq_mask take_bit_eq_mod)

lemma unat_u32_less: "unat w < 4294967296" for w :: u32
  using unsigned_less [of w] by simp

lemma unat_of_nat_u32: "n < 2 ^ 32 \<Longrightarrow> unat (of_nat n :: u32) = n"
  by (simp add: unsigned_of_nat take_bit_nat_eq_self)

lemma sint_small:
  fixes w :: u32
  assumes "unat w < 2 ^ 31"
  shows "sint w = int (unat w)"
proof -
  have u: "uint w = int (unat w)" by simp
  have lt: "int (unat w) < 2 ^ 31" using assms by (metis of_nat_less_iff of_nat_numeral of_nat_power)
  have "- (2 ^ 31) \<le> (0 :: int)" by simp
  also have "0 \<le> int (unat w)" by (rule of_nat_0_le_iff)
  finally have "signed_take_bit 31 (int (unat w)) = int (unat w)" using lt by (rule signed_take_bit_int_eq_self)
  then show ?thesis by (simp only: sint_uint u) simp
qed

lemma unat_Suc_u32: "unat w < 2 ^ 32 - 1 \<Longrightarrow> unat (w + 1) = Suc (unat w)" for w :: u32
  by (simp add: unat_word_ariths)

lemma of_nat_u32_eq: "n < 2 ^ 32 \<Longrightarrow> m < 2 ^ 32 \<Longrightarrow> of_nat n = (of_nat m :: u32) \<longleftrightarrow> n = m"
  by (simp add: word_unat_eq_iff unsigned_of_nat take_bit_nat_eq_self)

lemma of_nat_u32_0: "n < 2 ^ 32 \<Longrightarrow> of_nat n = (0 :: u32) \<longleftrightarrow> n = 0"
  using of_nat_u32_eq [of n 0] by simp

lemma of_nat_u32_1: "n < 2 ^ 32 \<Longrightarrow> of_nat n = (1 :: u32) \<longleftrightarrow> n = 1"
  using of_nat_u32_eq [of n 1] by simp

lemma of_nat_and_mask_eq_0_iff:
  assumes "a \<le> 32"
  shows "(of_nat n :: u32) AND (of_nat (2 ^ a) - 1) = 0 \<longleftrightarrow> 2 ^ a dvd n"
proof -
  have eq: "(of_nat (2 ^ a) - 1 :: u32) = mask a" by (simp add: mask_eq_exp_minus_1)
  have "n mod 2 ^ 32 mod 2 ^ a = n mod 2 ^ a"
    by (rule mod_mod_cancel) (rule le_imp_power_dvd [OF assms])
  then have "unat ((of_nat n :: u32) AND mask a) = n mod 2 ^ a"
    unfolding unat_and_mask by (simp add: unsigned_of_nat take_bit_eq_mod)
  then have "unat ((of_nat n :: u32) AND mask a) = 0 \<longleftrightarrow> 2 ^ a dvd n"
    by (simp only: mod_eq_0_iff_dvd)
  then show ?thesis by (simp only: eq unat_eq_0)
qed

text \<open>A counter that runs through rounds of \<open>k\<close>: the last count of a round is a multiple of \<open>k\<close>.\<close>

lemma round_complete_iff: "k dvd g * k + Suc n \<longleftrightarrow> Suc n = k" if "n < k" for k n :: nat
proof -
  have "k dvd g * k + Suc n \<longleftrightarrow> k dvd Suc n" by (rule dvd_add_right_iff) simp
  with that show ?thesis by (metis Suc_leI dvd_imp_le dvd_refl le_antisym zero_less_Suc)
qed

section \<open>Ring buffers\<close>

text \<open>
  The contents of a ring of \<open>N\<close> slots between the read index \<open>t\<close> and the write index
  \<open>h\<close>, oldest first. Equal indices mean an empty ring, so a ring holds at most
  \<open>N - 1\<close> elements.
\<close>

definition ring_seq :: "nat \<Rightarrow> 'a list \<Rightarrow> nat \<Rightarrow> nat \<Rightarrow> 'a list" where
  "ring_seq N xs h t = map (\<lambda>i. xs ! ((t + i) mod N)) [0..<(h + N - t) mod N]"

lemma length_ring_seq [simp]: "length (ring_seq N xs h t) = (h + N - t) mod N"
  by (simp add: ring_seq_def)

lemma ring_dist_if:
  fixes h t N :: nat
  assumes "h < N" "t < N"
  shows "(h + N - t) mod N = (if t \<le> h then h - t else h + N - t)"
proof (cases "t \<le> h")
  case True
  with assms have eq: "h + N - t = (h - t) + N" by simp
  have "(h - t + N) mod N = h - t"
    using assms by (metis mod_add_self2 mod_less less_imp_diff_less)
  with True show ?thesis by (simp only: eq if_True)
qed (use assms in simp)

lemma ring_seq_empty_iff:
  "h < N \<Longrightarrow> t < N \<Longrightarrow> ring_seq N xs h t = [] \<longleftrightarrow> h = t"
  by (auto simp: ring_seq_def ring_dist_if simp del: mod_add_self2)

lemma ring_dist_Suc_read:
  fixes h t N :: nat
  assumes "h < N" "t < N" "h \<noteq> t"
  shows "(h + N - t) mod N = Suc ((h + N - Suc t mod N) mod N)"
proof -
  have "Suc t mod N < N" using assms by simp
  then show ?thesis
    unfolding ring_dist_if [OF assms(1) \<open>Suc t mod N < N\<close>] ring_dist_if [OF assms(1,2)]
    using assms by (cases "Suc t = N") auto
qed

lemma ring_dist_Suc_write:
  fixes h t N :: nat
  assumes "h < N" "t < N" "Suc h mod N \<noteq> t"
  shows "(Suc h mod N + N - t) mod N = Suc ((h + N - t) mod N)"
proof -
  have "Suc h mod N < N" using assms by simp
  then show ?thesis
    unfolding ring_dist_if [OF \<open>Suc h mod N < N\<close> assms(2)] ring_dist_if [OF assms(1,2)]
    using assms by (cases "Suc h = N") auto
qed

lemma nth_ring_seq: "i < (h + N - t) mod N \<Longrightarrow> ring_seq N xs h t ! i = xs ! ((t + i) mod N)"
  by (simp add: ring_seq_def)

lemma ring_seq_read:
  assumes "h < N" "t < N" "h \<noteq> t"
  shows "ring_seq N xs h t = xs ! t # ring_seq N xs h (Suc t mod N)"
proof (rule nth_equalityI)
  show "length (ring_seq N xs h t) = length (xs ! t # ring_seq N xs h (Suc t mod N))"
    by (simp add: ring_dist_Suc_read [OF assms])
  fix i
  assume i: "i < length (ring_seq N xs h t)"
  show "ring_seq N xs h t ! i = (xs ! t # ring_seq N xs h (Suc t mod N)) ! i"
  proof (cases i)
    case 0
    with i assms show ?thesis by (simp add: nth_ring_seq)
  next
    case (Suc j)
    with i have "j < (h + N - Suc t mod N) mod N" by (simp add: ring_dist_Suc_read [OF assms])
    with i Suc show ?thesis by (simp add: nth_ring_seq mod_simps)
  qed
qed

lemma ring_slot_free:
  fixes h t N i :: nat
  assumes "h < N" "t < N" "i < (h + N - t) mod N"
  shows "(t + i) mod N \<noteq> h"
proof (cases "t + i < N")
  case True
  with assms show ?thesis by (auto simp: ring_dist_if split: if_splits)
next
  case False
  from assms have "i < N" using mod_less_divisor [of N "h + N - t"] by linarith
  with False assms have "(t + i) mod N = t + i - N" by (simp add: mod_if)
  with False assms show ?thesis by (auto simp: ring_dist_if split: if_splits)
qed

lemma ring_seq_write:
  assumes "h < N" "t < N" "Suc h mod N \<noteq> t" "length xs = N"
  shows "ring_seq N (xs[h := d]) (Suc h mod N) t = ring_seq N xs h t @ [d]"
proof -
  have "(t + (h + N - t) mod N) mod N = h"
    using assms by (simp add: mod_simps)
  moreover have "xs[h := d] ! ((t + i) mod N) = xs ! ((t + i) mod N)"
    if "i < (h + N - t) mod N" for i
    using ring_slot_free [OF assms(1,2) that] by simp
  ultimately show ?thesis
    using assms by (simp add: ring_seq_def ring_dist_Suc_write [OF assms(1,2,3)])
qed

section \<open>Transition systems\<close>

inductive reachable :: "('s \<Rightarrow> bool) \<Rightarrow> ('s \<Rightarrow> 's \<Rightarrow> bool) \<Rightarrow> 's \<Rightarrow> bool"
  for init :: "'s \<Rightarrow> bool" and step :: "'s \<Rightarrow> 's \<Rightarrow> bool" where
  reach_init: "init s \<Longrightarrow> reachable init step s"
| reach_step: "reachable init step s \<Longrightarrow> step s t \<Longrightarrow> reachable init step t"

lemma sum_less_at:
  fixes t N :: nat and f f' :: "nat \<Rightarrow> nat"
  assumes "t < N" "f' t < f t" "\<And>u. u \<noteq> t \<Longrightarrow> f' u = f u"
  shows "(\<Sum>u<N. f' u :: nat) < (\<Sum>u<N. f u)"
proof (rule sum_strict_mono_ex1)
  show "\<forall>u\<in>{..<N}. f' u \<le> f u" using assms(2,3) by (metis less_imp_le order_refl)
qed (use assms in auto)

text \<open>The interface of an inductive invariant of a transition system.\<close>

locale inductive_invariant =
  fixes init :: "'s \<Rightarrow> bool" and step :: "'s \<Rightarrow> 's \<Rightarrow> bool" and inv :: "'s \<Rightarrow> bool"
  assumes inv_init: "init s \<Longrightarrow> inv s"
    and inv_step: "inv s \<Longrightarrow> step s t \<Longrightarrow> inv t"
begin

lemma reachable_inv: "reachable init step s \<Longrightarrow> inv s"
  by (induction rule: reachable.induct) (auto intro: inv_init inv_step)

lemma steps_inv: "step\<^sup>*\<^sup>* s t \<Longrightarrow> inv s \<Longrightarrow> inv t"
  by (induction rule: rtranclp_induct) (auto intro: inv_step)

end

lemma reachable_steps: "step\<^sup>*\<^sup>* s t \<Longrightarrow> reachable init step s \<Longrightarrow> reachable init step t"
  by (induction rule: rtranclp_induct) (auto intro: reach_step)

end
