(* ===== verification/Descriptor_Buffer.thy ===== *)
theory Descriptor_Buffer
  imports Prelude
begin

text \<open>
  The descriptor buffers of the benchmarks (src/benchmarks/common): a ring of 1024 task
  ranges whose cache lines still have to be written back or invalidated. The file
  descriptor_buffer.c hard-wires the two macros of the benchmark, the file
  descriptor_buffer_fancy.c calls them through function pointers. The macros and the
  function pointers are supplied by the benchmark, so what they do is an event of type
  \<open>cc_event\<close> here and an argument of the buffer there. Both buffers implement the interface
  \<open>descriptor_sink\<close>: nothing added is lost, duplicated or reordered.
\<close>

section \<open>Data\<close>

record rtm_range =
  rng_v1 :: u32
  rng_v2 :: u32
  rng_v3 :: u32
  rng_v4 :: u32

datatype cc_event = Writeback rtm_range | Invalidate rtm_range

definition DESCRIPTOR_BUFFER_SIZE :: nat where
  "DESCRIPTOR_BUFFER_SIZE = 1024"

definition DESCRIPTOR_BUFFER_MASK :: u32 where
  "DESCRIPTOR_BUFFER_MASK = of_nat DESCRIPTOR_BUFFER_SIZE - 1"

definition DESCRIPTOR_BUFFER_HANDLES_WRITEBACK :: u32 where
  "DESCRIPTOR_BUFFER_HANDLES_WRITEBACK = 1"

definition DESCRIPTOR_BUFFER_HANDLES_INVALIDATE :: u32 where
  "DESCRIPTOR_BUFFER_HANDLES_INVALIDATE = 2"

record descriptor_buffer =
  db_list :: "rtm_range list"
  db_head :: u32
  db_tail :: u32
  db_flags :: u32

section \<open>descriptor_buffer.c\<close>

definition init_descriptor_buffer :: "descriptor_buffer \<Rightarrow> u32 \<Rightarrow> descriptor_buffer" where
  "init_descriptor_buffer buf inflags = buf\<lparr>db_head := 0, db_tail := 0, db_flags := inflags\<rparr>"

text \<open>The switch over the flags, written twice by hand in the source.\<close>

definition handle_flags :: "u32 \<Rightarrow> rtm_range \<Rightarrow> cc_event list" where
  "handle_flags flags r =
     (if flags = 0 then []
      else if flags = DESCRIPTOR_BUFFER_HANDLES_WRITEBACK then [Writeback r]
      else if flags = DESCRIPTOR_BUFFER_HANDLES_INVALIDATE then [Invalidate r]
      else if flags = DESCRIPTOR_BUFFER_HANDLES_WRITEBACK OR DESCRIPTOR_BUFFER_HANDLES_INVALIDATE
        then [Writeback r, Invalidate r]
      else [])"

definition advance :: "u32 \<Rightarrow> u32" where
  "advance i = (i + 1) AND DESCRIPTOR_BUFFER_MASK"

text \<open>One round of the loop: handle the oldest descriptor and step the tail over it.\<close>

definition handle_oldest :: "descriptor_buffer \<Rightarrow> (descriptor_buffer \<times> cc_event list) c_result" where
  "handle_oldest buf =
     bnd (rd (db_list buf) (unat (db_tail buf)))
       (\<lambda>r. Inr (buf\<lparr>db_tail := advance (db_tail buf)\<rparr>, handle_flags (db_flags buf) r))"

partial_function (option) empty_loop ::
  "descriptor_buffer \<Rightarrow> cc_event list \<Rightarrow> (descriptor_buffer \<times> cc_event list) c_result option" where
  "empty_loop buf tr =
     (if db_tail buf = db_head buf then Some (Inr (buf, tr))
      else case handle_oldest buf of
             Inl e \<Rightarrow> Some (Inl e)
           | Inr (buf', ev) \<Rightarrow> empty_loop buf' (tr @ ev))"

definition empty_all_descriptors ::
  "descriptor_buffer \<Rightarrow> (descriptor_buffer \<times> cc_event list) c_result option" where
  "empty_all_descriptors buf =
     (if db_head buf = db_tail buf then Some (Inr (buf, [])) else empty_loop buf [])"

definition store_head :: "descriptor_buffer \<Rightarrow> rtm_range \<Rightarrow> descriptor_buffer c_result" where
  "store_head buf desc =
     bnd (wr (db_list buf) (unat (db_head buf)) desc)
       (\<lambda>l. Inr (buf\<lparr>db_list := l, db_head := advance (db_head buf)\<rparr>))"

text \<open>
  The flag \<open>empty_all\<close> is the build option \<open>DESCRIPTOR_BUFFER_EMPTY_ALL\<close>.
\<close>

definition add_descriptor ::
  "bool \<Rightarrow> rtm_range \<Rightarrow> descriptor_buffer \<Rightarrow> (descriptor_buffer \<times> cc_event list) c_result option" where
  "add_descriptor empty_all desc buf =
     map_option (\<lambda>r. bnd r (\<lambda>(buf', ev). bnd (store_head buf' desc) (\<lambda>buf''. Inr (buf'', ev))))
       (if advance (db_head buf) = db_tail buf
        then (if empty_all then empty_all_descriptors buf else Some (handle_oldest buf))
        else Some (Inr (buf, [])))"

section \<open>descriptor_buffer_fancy.c\<close>

text \<open>
  The same ring with the two handlers as function pointers; \<open>'e\<close> is whatever the
  benchmark's functions do.
\<close>

record 'e descriptor_buffer_fancy =
  fb_list :: "rtm_range list"
  fb_head :: u32
  fb_tail :: u32
  fb_flags :: u32
  fb_wb :: "rtm_range \<Rightarrow> 'e list"
  fb_inv :: "rtm_range \<Rightarrow> 'e list"

definition init_descriptor_buffer_fancy ::
  "'e descriptor_buffer_fancy \<Rightarrow> u32 \<Rightarrow> (rtm_range \<Rightarrow> 'e list) \<Rightarrow> (rtm_range \<Rightarrow> 'e list) \<Rightarrow>
   'e descriptor_buffer_fancy" where
  "init_descriptor_buffer_fancy buf inflags initwb initinv =
     buf\<lparr>fb_head := 0, fb_tail := 0, fb_flags := inflags, fb_wb := initwb, fb_inv := initinv\<rparr>"

definition handle_descriptor :: "'e descriptor_buffer_fancy \<Rightarrow> rtm_range \<Rightarrow> 'e list" where
  "handle_descriptor buf r =
     (if fb_flags buf AND DESCRIPTOR_BUFFER_HANDLES_WRITEBACK \<noteq> 0 then fb_wb buf r else []) @
     (if fb_flags buf AND DESCRIPTOR_BUFFER_HANDLES_INVALIDATE \<noteq> 0 then fb_inv buf r else [])"

definition new_writeback_function ::
  "'e descriptor_buffer_fancy \<Rightarrow> (rtm_range \<Rightarrow> 'e list) \<Rightarrow> 'e descriptor_buffer_fancy" where
  "new_writeback_function buf newwb = buf\<lparr>fb_wb := newwb\<rparr>"

definition new_invalidate_function ::
  "'e descriptor_buffer_fancy \<Rightarrow> (rtm_range \<Rightarrow> 'e list) \<Rightarrow> 'e descriptor_buffer_fancy" where
  "new_invalidate_function buf newinv = buf\<lparr>fb_inv := newinv\<rparr>"

definition handle_oldest_fancy ::
  "'e descriptor_buffer_fancy \<Rightarrow> ('e descriptor_buffer_fancy \<times> 'e list) c_result" where
  "handle_oldest_fancy buf =
     bnd (rd (fb_list buf) (unat (fb_tail buf)))
       (\<lambda>r. Inr (buf\<lparr>fb_tail := advance (fb_tail buf)\<rparr>, handle_descriptor buf r))"

partial_function (option) empty_loop_fancy ::
  "'e descriptor_buffer_fancy \<Rightarrow> 'e list \<Rightarrow> ('e descriptor_buffer_fancy \<times> 'e list) c_result option" where
  "empty_loop_fancy buf tr =
     (if fb_tail buf = fb_head buf then Some (Inr (buf, tr))
      else case handle_oldest_fancy buf of
             Inl e \<Rightarrow> Some (Inl e)
           | Inr (buf', ev) \<Rightarrow> empty_loop_fancy buf' (tr @ ev))"

definition empty_all_descriptors_fancy ::
  "'e descriptor_buffer_fancy \<Rightarrow> ('e descriptor_buffer_fancy \<times> 'e list) c_result option" where
  "empty_all_descriptors_fancy buf =
     (if fb_head buf = fb_tail buf then Some (Inr (buf, [])) else empty_loop_fancy buf [])"

definition store_head_fancy ::
  "'e descriptor_buffer_fancy \<Rightarrow> rtm_range \<Rightarrow> 'e descriptor_buffer_fancy c_result" where
  "store_head_fancy buf desc =
     bnd (wr (fb_list buf) (unat (fb_head buf)) desc)
       (\<lambda>l. Inr (buf\<lparr>fb_list := l, fb_head := advance (fb_head buf)\<rparr>))"

definition add_descriptor_fancy ::
  "bool \<Rightarrow> rtm_range \<Rightarrow> 'e descriptor_buffer_fancy \<Rightarrow>
   ('e descriptor_buffer_fancy \<times> 'e list) c_result option" where
  "add_descriptor_fancy empty_all desc buf =
     map_option (\<lambda>r. bnd r (\<lambda>(buf', ev). bnd (store_head_fancy buf' desc) (\<lambda>buf''. Inr (buf'', ev))))
       (if advance (fb_head buf) = fb_tail buf
        then (if empty_all then empty_all_descriptors_fancy buf else Some (handle_oldest_fancy buf))
        else Some (Inr (buf, [])))"

section \<open>The interface\<close>

text \<open>A client's run: one addition after the other, collecting what was handled on the way.\<close>

fun run_adds :: "('d \<Rightarrow> 'b \<Rightarrow> ('b \<times> 'e list) c_result option) \<Rightarrow> 'd list \<Rightarrow> 'b \<Rightarrow>
   ('b \<times> 'e list) c_result option" where
  "run_adds add [] b = Some (Inr (b, []))"
| "run_adds add (d # ds) b =
     (case add d b of
        Some (Inr (b', ev)) \<Rightarrow>
          map_option (\<lambda>r. bnd r (\<lambda>(b'', ev'). Inr (b'', ev @ ev'))) (run_adds add ds b')
      | r \<Rightarrow> r)"

text \<open>
  What a descriptor buffer promises: an addition performs some handling now and keeps the
  rest, so that what has been handled, followed by the handling of what is still pending,
  is the handling of everything added, in the order of the additions. Draining handles all
  that is pending. Neither faults nor fails to return.
\<close>

locale descriptor_sink =
  fixes wf :: "'b \<Rightarrow> bool"
    and pending :: "'b \<Rightarrow> 'd list"
    and hdl :: "'b \<Rightarrow> 'd \<Rightarrow> 'e list"
    and add :: "'d \<Rightarrow> 'b \<Rightarrow> ('b \<times> 'e list) c_result option"
    and drain :: "'b \<Rightarrow> ('b \<times> 'e list) c_result option"
  assumes add_law: "wf b \<Longrightarrow> \<exists>b' ev. add d b = Some (Inr (b', ev)) \<and> wf b' \<and> hdl b' = hdl b \<and>
      (\<exists>n. ev = concat (map (hdl b) (take n (pending b))) \<and> pending b' = drop n (pending b) @ [d])"
    and drain_law: "wf b \<Longrightarrow> \<exists>b'. drain b = Some (Inr (b', concat (map (hdl b) (pending b)))) \<and>
      wf b' \<and> hdl b' = hdl b \<and> pending b' = []"
begin

lemma run_adds_law:
  "wf b \<Longrightarrow> \<exists>b' ev. run_adds add ds b = Some (Inr (b', ev)) \<and> wf b' \<and> hdl b' = hdl b \<and>
     ev @ concat (map (hdl b) (pending b')) = concat (map (hdl b) (pending b @ ds))"
proof (induction ds arbitrary: b)
  case Nil
  then show ?case by simp
next
  case (Cons d ds)
  obtain b1 ev n where a: "add d b = Some (Inr (b1, ev))" "wf b1" "hdl b1 = hdl b"
      "ev = concat (map (hdl b) (take n (pending b)))" "pending b1 = drop n (pending b) @ [d]"
    using add_law [OF Cons.prems] by blast
  obtain b2 ev2 where b: "run_adds add ds b1 = Some (Inr (b2, ev2))" "wf b2" "hdl b2 = hdl b1"
      "ev2 @ concat (map (hdl b1) (pending b2)) = concat (map (hdl b1) (pending b1 @ ds))"
    using Cons.IH [OF a(2)] by blast
  have "concat (map (hdl b) (pending b)) = ev @ concat (map (hdl b) (drop n (pending b)))"
    unfolding a(4) by (metis append_take_drop_id concat_append map_append)
  then show ?case
    using a(1,2,3,5) b by auto
qed

lemma run_law:
  assumes "wf b"
  shows "\<exists>b1 ev1 b2 ev2. run_adds add ds b = Some (Inr (b1, ev1)) \<and> drain b1 = Some (Inr (b2, ev2)) \<and>
    pending b2 = [] \<and> ev1 @ ev2 = concat (map (hdl b) (pending b @ ds))"
  using run_adds_law [OF assms, of ds] drain_law by metis

end

section \<open>Correctness\<close>

definition db_wf :: "descriptor_buffer \<Rightarrow> bool" where
  "db_wf buf \<longleftrightarrow> length (db_list buf) = DESCRIPTOR_BUFFER_SIZE \<and>
     unat (db_head buf) < DESCRIPTOR_BUFFER_SIZE \<and> unat (db_tail buf) < DESCRIPTOR_BUFFER_SIZE"

definition db_pending :: "descriptor_buffer \<Rightarrow> rtm_range list" where
  "db_pending buf =
     ring_seq DESCRIPTOR_BUFFER_SIZE (db_list buf) (unat (db_head buf)) (unat (db_tail buf))"

lemma unat_advance [simp]:
  "unat i < DESCRIPTOR_BUFFER_SIZE \<Longrightarrow> unat (advance i) = Suc (unat i) mod DESCRIPTOR_BUFFER_SIZE"
proof -
  assume i: "unat i < DESCRIPTOR_BUFFER_SIZE"
  have m: "DESCRIPTOR_BUFFER_MASK = mask 10"
    by (simp add: DESCRIPTOR_BUFFER_MASK_def DESCRIPTOR_BUFFER_SIZE_def mask_eq_exp_minus_1)
  have "unat (i + 1) = Suc (unat i)"
    using i by (simp add: DESCRIPTOR_BUFFER_SIZE_def unat_Suc_u32)
  then show ?thesis
    by (simp add: advance_def m unat_and_mask DESCRIPTOR_BUFFER_SIZE_def)
qed

lemma db_wf_D:
  "db_wf buf \<Longrightarrow> unat (db_tail buf) < length (db_list buf)"
  "db_wf buf \<Longrightarrow> unat (db_head buf) < length (db_list buf)"
  by (simp_all add: db_wf_def)

lemma size_pos [simp]: "0 < DESCRIPTOR_BUFFER_SIZE"
  by (simp add: DESCRIPTOR_BUFFER_SIZE_def)

lemma handle_oldest_ok:
  assumes "db_wf buf" "db_tail buf \<noteq> db_head buf"
  shows "\<exists>buf'. handle_oldest buf = Inr (buf', handle_flags (db_flags buf) (hd (db_pending buf))) \<and>
    db_wf buf' \<and> db_flags buf' = db_flags buf \<and> db_head buf' = db_head buf \<and>
    db_pending buf = hd (db_pending buf) # db_pending buf'"
proof -
  let ?buf = "buf\<lparr>db_tail := advance (db_tail buf)\<rparr>"
  have "db_pending buf = db_list buf ! unat (db_tail buf) # db_pending ?buf"
    unfolding db_pending_def using assms
    by (simp add: ring_seq_read db_wf_def unsigned_word_eqI [of "db_head buf" "db_tail buf"]
        word_unat_eq_iff)
  moreover have "db_wf ?buf"
    using assms by (simp add: db_wf_def)
  ultimately show ?thesis
    using db_wf_D [OF assms(1)] by (simp add: handle_oldest_def c_monad)
qed

lemma empty_loop_ok:
  "db_wf buf \<Longrightarrow> \<exists>buf'. empty_loop buf tr =
       Some (Inr (buf', tr @ concat (map (handle_flags (db_flags buf)) (db_pending buf)))) \<and>
     db_wf buf' \<and> db_flags buf' = db_flags buf \<and> db_pending buf' = []"
proof (induction "length (db_pending buf)" arbitrary: buf tr)
  case 0
  then have "db_head buf = db_tail buf"
    by (simp add: db_pending_def db_wf_def ring_dist_if word_unat_eq_iff split: if_splits)
  with 0 show ?case by (simp add: empty_loop.simps)
next
  case (Suc n)
  have "db_tail buf \<noteq> db_head buf"
    using Suc.hyps(2) by (auto simp: db_pending_def)
  then obtain buf' where b: "handle_oldest buf =
        Inr (buf', handle_flags (db_flags buf) (hd (db_pending buf)))"
      "db_wf buf'" "db_flags buf' = db_flags buf"
      "db_pending buf = hd (db_pending buf) # db_pending buf'"
    using handle_oldest_ok [OF Suc.prems] by blast
  have "n = length (db_pending buf')"
    using Suc.hyps(2) b(4) by (metis length_Cons nat.inject)
  from Suc.hyps(1) [OF this b(2), of "tr @ handle_flags (db_flags buf) (hd (db_pending buf))"]
  moreover have "concat (map f (db_pending buf)) =
      f (hd (db_pending buf)) @ concat (map f (db_pending buf'))" for f :: "rtm_range \<Rightarrow> cc_event list"
    by (metis b(4) concat.simps(2) list.simps(9))
  ultimately show ?case
    using \<open>db_tail buf \<noteq> db_head buf\<close> b(1,3) by (auto simp: empty_loop.simps [of buf])
qed

lemma empty_all_descriptors_ok:
  assumes "db_wf buf"
  shows "\<exists>buf'. empty_all_descriptors buf =
       Some (Inr (buf', concat (map (handle_flags (db_flags buf)) (db_pending buf)))) \<and>
     db_wf buf' \<and> db_flags buf' = db_flags buf \<and> db_pending buf' = []"
proof (cases "db_head buf = db_tail buf")
  case True
  with assms have "db_pending buf = []"
    by (simp add: db_pending_def ring_seq_empty_iff db_wf_def)
  with True assms show ?thesis by (simp add: empty_all_descriptors_def)
next
  case False
  with empty_loop_ok [OF assms, of "[]"] show ?thesis
    by (simp add: empty_all_descriptors_def)
qed

lemma store_head_ok:
  assumes "db_wf buf" "advance (db_head buf) \<noteq> db_tail buf"
  shows "\<exists>buf'. store_head buf d = Inr buf' \<and> db_wf buf' \<and> db_flags buf' = db_flags buf \<and>
    db_pending buf' = db_pending buf @ [d]"
proof -
  have "Suc (unat (db_head buf)) mod DESCRIPTOR_BUFFER_SIZE \<noteq> unat (db_tail buf)"
    using assms by (metis db_wf_def unat_advance word_unat_eq_iff)
  then show ?thesis
    using assms
    by (simp add: store_head_def c_monad db_wf_D db_pending_def)
      (simp add: db_wf_def ring_seq_write)
qed

lemma full_iff:
  assumes "db_wf buf"
  shows "advance (db_head buf) = db_tail buf \<longleftrightarrow>
    length (db_pending buf) = DESCRIPTOR_BUFFER_SIZE - 1"
proof -
  have "advance (db_head buf) = db_tail buf \<longleftrightarrow>
      Suc (unat (db_head buf)) mod DESCRIPTOR_BUFFER_SIZE = unat (db_tail buf)"
    using assms by (simp add: word_unat_eq_iff db_wf_def)
  then show ?thesis
    using assms by (auto simp: db_pending_def db_wf_def ring_dist_if mod_Suc)
qed

lemma advance_neq: "unat i < DESCRIPTOR_BUFFER_SIZE \<Longrightarrow> advance i \<noteq> i"
  by (auto simp: word_unat_eq_iff mod_Suc DESCRIPTOR_BUFFER_SIZE_def)

lemma add_descriptor_full:
  assumes "db_wf buf" "advance (db_head buf) = db_tail buf"
  shows "\<exists>buf' n. (if e then empty_all_descriptors buf else Some (handle_oldest buf)) =
      Some (Inr (buf', concat (map (handle_flags (db_flags buf)) (take n (db_pending buf))))) \<and>
    db_wf buf' \<and> db_flags buf' = db_flags buf \<and> db_pending buf' = drop n (db_pending buf) \<and>
    advance (db_head buf') \<noteq> db_tail buf'"
proof (cases e)
  case True
  obtain buf' where "empty_all_descriptors buf =
       Some (Inr (buf', concat (map (handle_flags (db_flags buf)) (db_pending buf))))"
     "db_wf buf'" "db_flags buf' = db_flags buf" "db_pending buf' = []"
    using empty_all_descriptors_ok [OF assms(1)] by blast
  with full_iff [of buf'] True show ?thesis
    by (intro exI [of _ buf'] exI [of _ "length (db_pending buf)"])
      (simp add: DESCRIPTOR_BUFFER_SIZE_def)
next
  case False
  have ne: "db_tail buf \<noteq> db_head buf"
    using assms advance_neq by (auto simp: db_wf_def)
  obtain buf' where b: "handle_oldest buf =
      Inr (buf', handle_flags (db_flags buf) (hd (db_pending buf)))"
     "db_wf buf'" "db_flags buf' = db_flags buf"
     "db_pending buf = hd (db_pending buf) # db_pending buf'"
    using handle_oldest_ok [OF assms(1) ne] by blast
  have "length (db_pending buf') \<noteq> DESCRIPTOR_BUFFER_SIZE - 1"
    using full_iff [OF assms(1)] assms(2) b(4)
    by (metis length_Cons n_not_Suc_n)
  moreover have "db_pending buf' = drop 1 (db_pending buf)"
      "take 1 (db_pending buf) = [hd (db_pending buf)]"
    by (subst b(4), simp)+
  ultimately show ?thesis
    using False b full_iff [OF b(2)]
    by (intro exI [of _ buf'] exI [of _ 1]) simp
qed

interpretation db: descriptor_sink
  db_wf db_pending "\<lambda>buf. handle_flags (db_flags buf)" "add_descriptor e" empty_all_descriptors for e
proof (unfold_locales, goal_cases)
  case (1 b d)
  show ?case
  proof (cases "advance (db_head b) = db_tail b")
    case True
    from add_descriptor_full [OF 1 True, of e] obtain b1 n where
      "(if e then empty_all_descriptors b else Some (handle_oldest b)) =
          Some (Inr (b1, concat (map (handle_flags (db_flags b)) (take n (db_pending b)))))"
      "db_wf b1" "db_flags b1 = db_flags b" "db_pending b1 = drop n (db_pending b)"
      "advance (db_head b1) \<noteq> db_tail b1"
      by blast
    with True store_head_ok [of b1 d] show ?thesis
      by (auto simp: add_descriptor_def c_monad)
  next
    case False
    with store_head_ok [OF 1, of d] show ?thesis
      by (auto simp: add_descriptor_def c_monad) (rule exI [of _ 0], simp)
  qed
next
  case (2 b)
  then show ?case using empty_all_descriptors_ok by metis
qed

section \<open>The fancy buffer simulates the plain one\<close>

text \<open>
  The fancy buffer, seen through \<open>fancy_core\<close>, is the plain buffer with both flags set:
  the events of the plain buffer are routed to the function pointers the fancy flags select.
\<close>

definition fancy_core :: "'e descriptor_buffer_fancy \<Rightarrow> descriptor_buffer" where
  "fancy_core fb = \<lparr>db_list = fb_list fb, db_head = fb_head fb, db_tail = fb_tail fb, db_flags = 3\<rparr>"

definition route :: "'e descriptor_buffer_fancy \<Rightarrow> cc_event \<Rightarrow> 'e list" where
  "route fb e = (case e of
       Writeback r \<Rightarrow> if fb_flags fb AND DESCRIPTOR_BUFFER_HANDLES_WRITEBACK \<noteq> 0 then fb_wb fb r else []
     | Invalidate r \<Rightarrow> if fb_flags fb AND DESCRIPTOR_BUFFER_HANDLES_INVALIDATE \<noteq> 0 then fb_inv fb r else [])"

definition fancy_lift :: "'e descriptor_buffer_fancy \<Rightarrow> descriptor_buffer \<times> cc_event list \<Rightarrow>
   'e descriptor_buffer_fancy \<times> 'e list" where
  "fancy_lift fb x = (fb\<lparr>fb_list := db_list (fst x), fb_head := db_head (fst x), fb_tail := db_tail (fst x)\<rparr>,
     concat (map (route fb) (snd x)))"

lemmas fancy_defs = fancy_core_def route_def fancy_lift_def

lemma handle_flags_both:
  "handle_flags 3 r = [Writeback r, Invalidate r]"
  by (simp add: handle_flags_def DESCRIPTOR_BUFFER_HANDLES_WRITEBACK_def
      DESCRIPTOR_BUFFER_HANDLES_INVALIDATE_def)

lemma handle_flags_both_iff: "handle_flags f = handle_flags 3 \<longleftrightarrow> f = 3"
proof
  assume "handle_flags f = handle_flags 3"
  then have "handle_flags f r = [Writeback r, Invalidate r]" for r
    by (simp add: handle_flags_both)
  from this [of undefined] show "f = 3"
    by (auto simp: handle_flags_def DESCRIPTOR_BUFFER_HANDLES_WRITEBACK_def
        DESCRIPTOR_BUFFER_HANDLES_INVALIDATE_def split: if_splits)
qed simp

lemma handle_descriptor_route: "handle_descriptor fb r = concat (map (route fb) (handle_flags 3 r))"
  by (simp add: handle_descriptor_def route_def handle_flags_both)

lemma fancy_core_simps [simp]:
  "db_list (fancy_core fb) = fb_list fb" "db_head (fancy_core fb) = fb_head fb"
  "db_tail (fancy_core fb) = fb_tail fb" "db_flags (fancy_core fb) = 3"
  by (simp_all add: fancy_core_def)

lemma fancy_core_lift:
  "db_flags b = 3 \<Longrightarrow> fancy_core (fst (fancy_lift fb (b, ev))) = b"
  by (simp add: fancy_defs)

lemma handle_oldest_fancy_sim:
  "handle_oldest_fancy fb = bnd (handle_oldest (fancy_core fb)) (\<lambda>x. Inr (fancy_lift fb x))"
  by (simp add: handle_oldest_fancy_def handle_oldest_def bnd_assoc handle_descriptor_route)
    (simp add: fancy_defs)

lemma route_cong:
  "fb_flags fb' = fb_flags fb \<Longrightarrow> fb_wb fb' = fb_wb fb \<Longrightarrow> fb_inv fb' = fb_inv fb \<Longrightarrow> route fb' = route fb"
  by (auto simp: route_def fun_eq_iff split: cc_event.splits)

lemma fancy_lift_again:
  "fancy_lift (fst (fancy_lift fb x)) y = fancy_lift fb y"
  using route_cong [of "fst (fancy_lift fb x)" fb] by (simp add: fancy_lift_def)

lemma empty_loop_fancy_sim:
  "db_wf (fancy_core fb) \<Longrightarrow> empty_loop_fancy fb (concat (map (route fb) tr)) =
     map_option (\<lambda>r. bnd r (\<lambda>x. Inr (fancy_lift fb x))) (empty_loop (fancy_core fb) tr)"
proof (induction "length (db_pending (fancy_core fb))" arbitrary: fb tr rule: less_induct)
  case less
  show ?case
  proof (cases "fb_tail fb = fb_head fb")
    case True
    then show ?thesis
      by (simp add: empty_loop_fancy.simps [of fb] empty_loop.simps [of "fancy_core fb"])
        (simp add: fancy_lift_def)
  next
    case False
    then obtain b ev where b: "handle_oldest (fancy_core fb) = Inr (b, ev)" "db_wf b" "db_flags b = 3"
        "length (db_pending (fancy_core fb)) = Suc (length (db_pending b))"
      using handle_oldest_ok [OF less.prems] by (metis fancy_core_simps(2-4) length_Cons)
    let ?fb = "fst (fancy_lift fb (b, ev))"
    have core: "fancy_core ?fb = b" by (rule fancy_core_lift [OF b(3)])
    have "empty_loop_fancy ?fb (concat (map (route ?fb) (tr @ ev))) =
        map_option (\<lambda>r. bnd r (\<lambda>x. Inr (fancy_lift ?fb x))) (empty_loop b (tr @ ev))"
      using less.hyps [of ?fb "tr @ ev"] b core by simp
    moreover have "route ?fb = route fb"
      by (rule route_cong) (simp_all add: fancy_lift_def)
    ultimately show ?thesis
      using False b(1) fancy_lift_again [of fb "(b, ev)"]
      by (simp add: empty_loop_fancy.simps [of fb] empty_loop.simps [of "fancy_core fb"]
          handle_oldest_fancy_sim) (simp add: fancy_lift_def)
  qed
qed

lemma empty_all_fancy_sim:
  "db_wf (fancy_core fb) \<Longrightarrow> empty_all_descriptors_fancy fb =
     map_option (\<lambda>r. bnd r (\<lambda>x. Inr (fancy_lift fb x))) (empty_all_descriptors (fancy_core fb))"
  using empty_loop_fancy_sim [of fb "[]"]
  by (simp add: empty_all_descriptors_fancy_def empty_all_descriptors_def) (simp add: fancy_lift_def)

lemma add_fancy_sim:
  assumes "db_wf (fancy_core fb)"
  shows "add_descriptor_fancy e d fb =
     map_option (\<lambda>r. bnd r (\<lambda>x. Inr (fancy_lift fb x))) (add_descriptor e d (fancy_core fb))"
proof -
  have st: "store_head_fancy (fst (fancy_lift fb (b, ev))) d =
      bnd (store_head b d) (\<lambda>b'. Inr (fst (fancy_lift fb (b', ev))))" for b ev
    by (simp add: store_head_fancy_def store_head_def bnd_assoc fancy_lift_def wr_def)
  have "bnd (bnd r (\<lambda>x. Inr (fancy_lift fb x)))
        (\<lambda>(buf', ev). bnd (store_head_fancy buf' d) (\<lambda>buf''. Inr (buf'', ev))) =
      bnd (bnd r (\<lambda>(buf', ev). bnd (store_head buf' d) (\<lambda>buf''. Inr (buf'', ev))))
        (\<lambda>x. Inr (fancy_lift fb x))" for r
  proof (cases r)
    case (Inr x)
    obtain b ev where "x = (b, ev)" by fastforce
    with Inr show ?thesis
      using st [of b ev] by (cases "store_head b d") (simp_all add: fancy_lift_def)
  qed simp
  moreover have "fancy_lift fb (fancy_core fb, []) = (fb, [])"
    by (simp add: fancy_lift_def)
  ultimately show ?thesis
    using st [of "fancy_core fb" "[]"] empty_all_fancy_sim [OF assms]
    by (cases "store_head (fancy_core fb) d")
      (simp_all add: add_descriptor_fancy_def add_descriptor_def handle_oldest_fancy_sim
        option.map_comp comp_def, simp_all add: fancy_lift_def)
qed

lemma concat_route:
  "concat (map (route fb) (concat (map (handle_flags 3) xs))) = concat (map (handle_descriptor fb) xs)"
  by (induction xs) (simp_all add: handle_descriptor_route)

lemma handle_descriptor_lift: "handle_descriptor (fst (fancy_lift fb x)) = handle_descriptor fb"
  by (simp add: fancy_lift_def handle_descriptor_def fun_eq_iff)

interpretation fdb: descriptor_sink
  "\<lambda>fb. db_wf (fancy_core fb)" "\<lambda>fb. db_pending (fancy_core fb)" handle_descriptor
  "add_descriptor_fancy e" empty_all_descriptors_fancy for e
proof (unfold_locales, goal_cases)
  case (1 fb d)
  obtain b ev n where b: "add_descriptor e d (fancy_core fb) = Some (Inr (b, ev))" "db_wf b"
      "handle_flags (db_flags b) = handle_flags 3"
      "ev = concat (map (handle_flags 3) (take n (db_pending (fancy_core fb))))"
      "db_pending b = drop n (db_pending (fancy_core fb)) @ [d]"
    using db.add_law [OF 1, of e d] by auto
  then have "fancy_core (fst (fancy_lift fb (b, ev))) = b"
    by (simp add: handle_flags_both_iff fancy_core_lift)
  with b show ?case
    using handle_descriptor_lift [of fb "(b, ev)"]
    by (intro exI [of _ "fst (fancy_lift fb (b, ev))"] exI [of _ "snd (fancy_lift fb (b, ev))"])
      (auto simp: add_fancy_sim [OF 1] concat_route fancy_lift_def intro!: exI [of _ n])
next
  case (2 fb)
  obtain b where b: "empty_all_descriptors (fancy_core fb) =
        Some (Inr (b, concat (map (handle_flags 3) (db_pending (fancy_core fb)))))" "db_wf b"
      "db_flags b = 3" "db_pending b = []"
    using empty_all_descriptors_ok [OF 2] by auto
  let ?fb = "fb\<lparr>fb_list := db_list b, fb_head := db_head b, fb_tail := db_tail b\<rparr>"
  have same: "fancy_core ?fb = b" "handle_descriptor ?fb = handle_descriptor fb"
    using b(3) by (simp_all add: fancy_core_def handle_descriptor_def fun_eq_iff)
  show ?case
    using b by (intro exI [of _ ?fb])
      (simp add: same empty_all_fancy_sim [OF 2] concat_route fancy_lift_def)
qed

section \<open>Properties\<close>

text \<open>
  C22: however many descriptors a benchmark adds to a freshly initialised buffer, with either
  overflow strategy, and then empties it, every call returns without a fault and the cache
  operations performed are exactly those of every descriptor added, once each and in the
  order of the additions; nothing is left pending.
\<close>

theorem descriptor_buffer_fifo:
  assumes "length (db_list buf) = DESCRIPTOR_BUFFER_SIZE"
  shows "\<exists>b1 ev1 b2 ev2.
    run_adds (add_descriptor e) ds (init_descriptor_buffer buf flags) = Some (Inr (b1, ev1)) \<and>
    empty_all_descriptors b1 = Some (Inr (b2, ev2)) \<and> db_pending b2 = [] \<and>
    ev1 @ ev2 = concat (map (handle_flags flags) ds)"
proof -
  let ?b = "init_descriptor_buffer buf flags"
  have "db_wf ?b" "db_pending ?b = []"
    using assms by (simp_all add: db_wf_def init_descriptor_buffer_def db_pending_def ring_seq_empty_iff)
  with db.run_law [of ?b e ds] show ?thesis
    by (simp add: init_descriptor_buffer_def)
qed

definition sample_range :: rtm_range where
  "sample_range = \<lparr>rng_v1 = 1, rng_v2 = 2, rng_v3 = 0, rng_v4 = 8\<rparr>"

definition sample_buffer :: descriptor_buffer where
  "sample_buffer = \<lparr>db_list = replicate 1024 sample_range, db_head = 7, db_tail = 7, db_flags = 0\<rparr>"

theorem descriptor_buffer_fifo_witness:
  "length (db_list sample_buffer) = DESCRIPTOR_BUFFER_SIZE \<and> (\<exists>b1 ev1 b2 ev2.
    run_adds (add_descriptor False) [sample_range, sample_range] (init_descriptor_buffer sample_buffer 3) =
      Some (Inr (b1, ev1)) \<and>
    empty_all_descriptors b1 = Some (Inr (b2, ev2)) \<and> db_pending b2 = [] \<and>
    ev1 @ ev2 = [Writeback sample_range, Invalidate sample_range,
                 Writeback sample_range, Invalidate sample_range])"
proof -
  have h: "length (db_list sample_buffer) = DESCRIPTOR_BUFFER_SIZE"
    by (simp add: sample_buffer_def DESCRIPTOR_BUFFER_SIZE_def)
  from descriptor_buffer_fifo [OF h, of False "[sample_range, sample_range]" 3] h show ?thesis
    by (simp add: handle_flags_both)
qed

text \<open>
  C38: the same for the buffer with function pointers: the installed writeback and invalidate
  functions run for every descriptor added, in order, as the flags select.
\<close>

theorem descriptor_buffer_fancy_fifo:
  fixes buf :: "'e descriptor_buffer_fancy"
  assumes "length (fb_list buf) = DESCRIPTOR_BUFFER_SIZE"
  shows "\<exists>b1 ev1 b2 ev2.
    run_adds (add_descriptor_fancy e) ds (init_descriptor_buffer_fancy buf flags initwb initinv) =
      Some (Inr (b1, ev1)) \<and>
    empty_all_descriptors_fancy b1 = Some (Inr (b2, ev2)) \<and> db_pending (fancy_core b2) = [] \<and>
    ev1 @ ev2 =
      concat (map (handle_descriptor (init_descriptor_buffer_fancy buf flags initwb initinv)) ds)"
proof -
  let ?b0 = "init_descriptor_buffer_fancy buf flags initwb initinv"
  have "db_wf (fancy_core ?b0)" "db_pending (fancy_core ?b0) = []"
    using assms
    by (simp_all add: db_wf_def init_descriptor_buffer_fancy_def db_pending_def ring_seq_empty_iff
        fancy_core_def)
  with fdb.run_law [of ?b0 e ds] show ?thesis by simp
qed

definition sample_fancy :: "cc_event descriptor_buffer_fancy" where
  "sample_fancy = \<lparr>fb_list = replicate 1024 sample_range, fb_head = 0, fb_tail = 0, fb_flags = 0,
     fb_wb = (\<lambda>_. []), fb_inv = (\<lambda>_. [])\<rparr>"

theorem descriptor_buffer_fancy_fifo_witness:
  "length (fb_list sample_fancy) = DESCRIPTOR_BUFFER_SIZE \<and> (\<exists>b1 ev1 b2 ev2.
    run_adds (add_descriptor_fancy True) [sample_range]
       (init_descriptor_buffer_fancy sample_fancy 5 (\<lambda>r. [Writeback r]) (\<lambda>r. [Invalidate r])) =
      Some (Inr (b1, ev1)) \<and>
    empty_all_descriptors_fancy b1 = Some (Inr (b2, ev2)) \<and> db_pending (fancy_core b2) = [] \<and>
    ev1 @ ev2 = [Writeback sample_range])"
proof -
  have h: "length (fb_list sample_fancy) = DESCRIPTOR_BUFFER_SIZE"
    by (simp add: sample_fancy_def DESCRIPTOR_BUFFER_SIZE_def)
  have e: "handle_descriptor (init_descriptor_buffer_fancy sample_fancy 5 (\<lambda>r. [Writeback r])
      (\<lambda>r. [Invalidate r])) sample_range = [Writeback sample_range]"
    by (simp add: handle_descriptor_def init_descriptor_buffer_fancy_def
        DESCRIPTOR_BUFFER_HANDLES_WRITEBACK_def DESCRIPTOR_BUFFER_HANDLES_INVALIDATE_def)
  from descriptor_buffer_fancy_fifo [OF h, of True "[sample_range]" 5
      "\<lambda>r. [Writeback r]" "\<lambda>r. [Invalidate r]"] h e show ?thesis
    by simp
qed

text \<open>
  the two implementations treat a descriptor alike exactly when the flag word has no bit
  outside the two documented ones, or neither of those two: with further bits set the
  hand-inlined switch of descriptor_buffer.c handles nothing while the bit tests of
  descriptor_buffer_fancy.c still handle what the low bits ask for.
\<close>

lemma and_3_iff: "w AND 3 = 0 \<longleftrightarrow> w AND 1 = 0 \<and> w AND 2 = 0" for w :: u32
proof -
  have "(3::u32) = 1 OR 2" by simp
  then have "w AND 3 = (w AND 1) OR (w AND 2)"
    by (metis and.commute bit.conj_disj_distrib)
  then show ?thesis by (simp add: or_eq_0_iff)
qed

theorem handle_descriptor_agrees:
  "handle_descriptor (buf\<lparr>fb_wb := (\<lambda>r. [Writeback r]), fb_inv := (\<lambda>r. [Invalidate r])\<rparr>) r =
     handle_flags (fb_flags buf) r \<longleftrightarrow> fb_flags buf \<le> 3 \<or> fb_flags buf AND 3 = 0"
proof -
  have small: "w = 0 \<or> w = 1 \<or> w = 2 \<or> w = 3 \<longleftrightarrow> w \<le> 3" for w :: u32
    by (auto simp: word_le_nat_alt word_unat_eq_iff)
  show ?thesis
    unfolding and_3_iff small [symmetric]
    by (auto simp: handle_descriptor_def handle_flags_def DESCRIPTOR_BUFFER_HANDLES_WRITEBACK_def
        DESCRIPTOR_BUFFER_HANDLES_INVALIDATE_def)
qed

text \<open>
  C40: The buffer stays well-formed. On a buffer of the declared size with both indices inside it,
  initialising, adding and emptying return without a fault and leave such a buffer, whatever the
  flags; the descriptor added last is the newest pending one, and at most one descriptor less than
  the size is ever pending.
\<close>

theorem descriptor_buffer_wf:
  assumes "db_wf buf"
  shows "db_wf (init_descriptor_buffer buf flags) \<and>
    (\<exists>b ev. add_descriptor e d buf = Some (Inr (b, ev)) \<and> db_wf b \<and> db_pending b \<noteq> [] \<and>
       last (db_pending b) = d \<and> length (db_pending b) < DESCRIPTOR_BUFFER_SIZE) \<and>
    (\<exists>b ev. empty_all_descriptors buf = Some (Inr (b, ev)) \<and> db_wf b \<and> db_pending b = [])"
proof -
  have "db_wf (init_descriptor_buffer buf flags)" using assms by (simp add: db_wf_def init_descriptor_buffer_def)
  moreover have "length (db_pending b) < DESCRIPTOR_BUFFER_SIZE" if "db_wf b" for b
    using that by (simp add: db_pending_def db_wf_def)
  moreover obtain b ev n where "add_descriptor e d buf = Some (Inr (b, ev))" "db_wf b"
    "db_pending b = drop n (db_pending buf) @ [d]"
    using db.add_law [OF assms, of e d] by blast
  ultimately show ?thesis using db.drain_law [OF assms] by (metis last_snoc snoc_eq_iff_butlast)
qed

theorem descriptor_buffer_wf_witness:
  "db_wf (init_descriptor_buffer sample_buffer 3) \<and>
   (\<exists>b ev. add_descriptor True sample_range (init_descriptor_buffer sample_buffer 3) = Some (Inr (b, ev)) \<and>
      db_wf b \<and> last (db_pending b) = sample_range)"
proof -
  have "db_wf (init_descriptor_buffer sample_buffer 3)"
    by (simp add: db_wf_def init_descriptor_buffer_def sample_buffer_def DESCRIPTOR_BUFFER_SIZE_def)
  then show ?thesis using descriptor_buffer_wf [of "init_descriptor_buffer sample_buffer 3" 3 True sample_range] by blast
qed

end
