(* ===== verification/Rigel_Atomics.thy ===== *)
theory Rigel_Atomics
  imports Prelude
begin

text \<open>
  The atomic and global memory primitives of the target, as the inline wrappers of
  libgloss/rigel/lock.c and libpthread/pthread_mutex.c and the macros of include/rigel.h
  present them: each takes the content of one memory word and gives its new content and the
  result. Their meaning is the one the comments of include/rigel.h document (atomic
  increment and decrement deliver the result, exchange delivers the old content). On top of
  them, the flags of spinlock.c, the spin locks of include/spinlock.h and the contract of a
  test-and-set lock with its mutual exclusion theorem.
\<close>

section \<open>Primitives\<close>

definition compare_and_swap :: "u32 \<Rightarrow> u32 \<Rightarrow> u32 \<Rightarrow> u32 \<times> bool" where
  "compare_and_swap cell compareval swapval = (if cell = compareval then swapval else cell, cell = compareval)"

definition swap :: "u32 \<Rightarrow> u32 \<Rightarrow> u32 \<times> u32" where
  "swap cell swapval = (swapval, cell)"

definition global_store :: "u32 \<Rightarrow> u32 \<Rightarrow> u32" where
  "global_store cell val = val"

definition global_load :: "u32 \<Rightarrow> u32" where
  "global_load cell = cell"

definition atomic_inc :: "u32 \<Rightarrow> u32 \<times> u32" where
  "atomic_inc cell = (cell + 1, cell + 1)"

definition atomic_dec :: "u32 \<Rightarrow> u32 \<times> u32" where
  "atomic_dec cell = (cell - 1, cell - 1)"

lemmas atomic_defs =
  compare_and_swap_def swap_def global_store_def global_load_def atomic_inc_def atomic_dec_def

section \<open>Flags: libgloss/rigel/spinlock.c\<close>

definition atomic_flag_check :: "u32 \<Rightarrow> u32" where
  "atomic_flag_check flag_val = (if 1 = flag_val then 1 else 0)"

definition atomic_flag_set :: "u32 \<Rightarrow> u32" where
  "atomic_flag_set flag_val = 1"

definition atomic_flag_clear :: "u32 \<Rightarrow> u32" where
  "atomic_flag_clear flag_val = 0"

text \<open>
  The polling loops read a flag other threads write: their input is the sequence of values
  read. They return the number of polls, or \<open>None\<close> when the values run out before the
  condition is seen.
\<close>

fun atomic_flag_spin_until_clear :: "u32 list \<Rightarrow> nat option" where
  "atomic_flag_spin_until_clear [] = None"
| "atomic_flag_spin_until_clear (v # vs) =
     (if v \<noteq> 0 then map_option Suc (atomic_flag_spin_until_clear vs) else Some 1)"

fun atomic_flag_spin_until_set :: "u32 list \<Rightarrow> nat option" where
  "atomic_flag_spin_until_set [] = None"
| "atomic_flag_spin_until_set (v # vs) =
     (if v = 0 then map_option Suc (atomic_flag_spin_until_set vs) else Some 1)"

section \<open>Spin locks: include/spinlock.h\<close>

text \<open>
  One round of \<open>spin_lock\<close>: exchange the register with the lock word, succeed when the
  register then is 0. The register is set to 1 before the first round only; a failed round
  leaves the exchanged value in it.
\<close>

definition spin_lock_round :: "u32 \<Rightarrow> u32 \<Rightarrow> u32 \<times> u32 \<times> bool" where
  "spin_lock_round temp lock_val = (case swap lock_val temp of (c, old) \<Rightarrow> (c, old, old = 0))"

text \<open>The loop with nobody else at the lock: it never returns from a held lock.\<close>

partial_function (option) spin_lock_loop :: "u32 \<Rightarrow> u32 \<Rightarrow> u32 option" where
  "spin_lock_loop temp lock_val =
     (case spin_lock_round temp lock_val of (c, temp', ok) \<Rightarrow>
        if ok then Some c else spin_lock_loop temp' c)"

definition spin_lock :: "u32 \<Rightarrow> u32 option" where
  "spin_lock lock_val = spin_lock_loop 1 lock_val"

definition spin_unlock :: "u32 \<Rightarrow> u32" where
  "spin_unlock lock_val = fst (swap lock_val 0)"

section \<open>The contract of a test-and-set lock\<close>

datatype tas_pc = Outside | Trying | Holding

record 'l tas_sys =
  tas_lock :: 'l
  tas_pcs :: "u32 \<Rightarrow> tas_pc"

text \<open>
  Any number of threads around one lock: a thread starts an acquisition, tries as often as it
  takes (the try is one atomic access), and the thread that succeeded releases.
\<close>

inductive tas_step ::
  "(u32 \<Rightarrow> 'l \<Rightarrow> 'l \<times> bool) \<Rightarrow> (u32 \<Rightarrow> 'l \<Rightarrow> 'l) \<Rightarrow> 'l tas_sys \<Rightarrow> 'l tas_sys \<Rightarrow> bool"
  for tryl :: "u32 \<Rightarrow> 'l \<Rightarrow> 'l \<times> bool" and rel :: "u32 \<Rightarrow> 'l \<Rightarrow> 'l" where
  tas_start: "tas_pcs s i = Outside \<Longrightarrow>
     tas_step tryl rel s (s\<lparr>tas_pcs := (tas_pcs s)(i := Trying)\<rparr>)"
| tas_try: "tas_pcs s i = Trying \<Longrightarrow> tryl i (tas_lock s) = (l, ok) \<Longrightarrow>
     tas_step tryl rel s (s\<lparr>tas_lock := l, tas_pcs := (tas_pcs s)(i := if ok then Holding else Trying)\<rparr>)"
| tas_release: "tas_pcs s i = Holding \<Longrightarrow>
     tas_step tryl rel s (s\<lparr>tas_lock := rel i (tas_lock s), tas_pcs := (tas_pcs s)(i := Outside)\<rparr>)"

definition tas_init :: "('l \<Rightarrow> bool) \<Rightarrow> ('l \<Rightarrow> bool) \<Rightarrow> 'l tas_sys \<Rightarrow> bool" where
  "tas_init ok_lock free s \<longleftrightarrow> ok_lock (tas_lock s) \<and> free (tas_lock s) \<and> (\<forall>i. tas_pcs s i = Outside)"

definition tas_inv :: "('l \<Rightarrow> bool) \<Rightarrow> ('l \<Rightarrow> bool) \<Rightarrow> 'l tas_sys \<Rightarrow> bool" where
  "tas_inv ok_lock free s \<longleftrightarrow> ok_lock (tas_lock s) \<and> (free (tas_lock s) \<longrightarrow> (\<forall>i. tas_pcs s i \<noteq> Holding)) \<and>
     (\<forall>i j. tas_pcs s i = Holding \<longrightarrow> tas_pcs s j = Holding \<longrightarrow> i = j)"

locale test_and_set_lock =
  fixes tryl :: "u32 \<Rightarrow> 'l \<Rightarrow> 'l \<times> bool" and rel :: "u32 \<Rightarrow> 'l \<Rightarrow> 'l"
    and ok_lock :: "'l \<Rightarrow> bool" and free :: "'l \<Rightarrow> bool"
  assumes try_succeeds_iff: "ok_lock l \<Longrightarrow> snd (tryl i l) \<longleftrightarrow> free l"
    and try_takes: "ok_lock l \<Longrightarrow> ok_lock (fst (tryl i l)) \<and> \<not> free (fst (tryl i l))"
    and rel_frees: "ok_lock l \<Longrightarrow> ok_lock (rel i l) \<and> free (rel i l)"
begin

lemma inv_kept: "tas_inv ok_lock free s \<Longrightarrow> tas_step tryl rel s t \<Longrightarrow> tas_inv ok_lock free t"
proof (erule tas_step.cases, goal_cases)
  case (2 s' i l ok)
  then have "ok_lock (tas_lock s)" by (simp add: tas_inv_def)
  from try_succeeds_iff [OF this, of i] try_takes [OF this, of i] 2
  have "ok \<longleftrightarrow> free (tas_lock s)" "\<not> free l" "ok_lock l" by auto
  with 2 show ?case by (auto simp: tas_inv_def split: if_splits)
qed (auto simp: tas_inv_def rel_frees)

end

sublocale test_and_set_lock \<subseteq>
  inductive_invariant "tas_init ok_lock free" "tas_step tryl rel" "tas_inv ok_lock free"
proof
  show "tas_init ok_lock free s \<Longrightarrow> tas_inv ok_lock free s" for s
    by (simp add: tas_init_def tas_inv_def)
qed (rule inv_kept)

context test_and_set_lock
begin

lemma mutual_exclusion:
  "reachable (tas_init ok_lock free) (tas_step tryl rel) s \<Longrightarrow>
   tas_pcs s i = Holding \<Longrightarrow> tas_pcs s j = Holding \<Longrightarrow> i = j"
  using reachable_inv [of s] by (auto simp: tas_inv_def)

end

text \<open>
  The spin lock: the lock word and the register of each thread. A thread that has acquired
  starts its next acquisition with the register at 1, so it is set when the acquisition ends.
\<close>

definition spin_try :: "u32 \<Rightarrow> u32 \<times> (u32 \<Rightarrow> u32) \<Rightarrow> (u32 \<times> (u32 \<Rightarrow> u32)) \<times> bool" where
  "spin_try i = (\<lambda>(lock_val, temps). case spin_lock_round (temps i) lock_val of (c, temp, ok) \<Rightarrow>
     ((c, temps(i := if ok then 1 else temp)), ok))"

definition spin_rel :: "u32 \<Rightarrow> u32 \<times> (u32 \<Rightarrow> u32) \<Rightarrow> u32 \<times> (u32 \<Rightarrow> u32)" where
  "spin_rel i = (\<lambda>(lock_val, temps). (spin_unlock lock_val, temps))"

definition spin_ok :: "u32 \<times> (u32 \<Rightarrow> u32) \<Rightarrow> bool" where
  "spin_ok l \<longleftrightarrow> (\<forall>i. snd l i \<noteq> 0)"

interpretation spin: test_and_set_lock spin_try spin_rel spin_ok "\<lambda>l. fst l = 0"
  by unfold_locales
    (auto simp: spin_try_def spin_rel_def spin_ok_def spin_lock_round_def spin_unlock_def swap_def
      split: prod.splits)

text \<open>
  C36: mutual exclusion of the spin lock macros of include/spinlock.h for any number of
  threads and any interleaving of their atomic exchanges, each thread exchanging the content
  of its own register.
\<close>

theorem spin_lock_mutual_exclusion:
  assumes "reachable (tas_init spin_ok (\<lambda>l. fst l = 0)) (tas_step spin_try spin_rel) s"
    and "tas_pcs s i = Holding" and "tas_pcs s j = Holding"
  shows "i = j"
  using spin.mutual_exclusion [OF assms] .

definition spin_held :: "(u32 \<times> (u32 \<Rightarrow> u32)) tas_sys" where
  "spin_held = \<lparr>tas_lock = (1, \<lambda>_. 1), tas_pcs = (\<lambda>_. Outside)(4 := Holding)\<rparr>"

lemma spin_held_reachable:
  "reachable (tas_init spin_ok (\<lambda>l. fst l = 0)) (tas_step spin_try spin_rel) spin_held"
proof -
  let ?s0 = "\<lparr>tas_lock = (0, \<lambda>_. 1), tas_pcs = (\<lambda>_. Outside)\<rparr> :: (u32 \<times> (u32 \<Rightarrow> u32)) tas_sys"
  let ?s1 = "?s0\<lparr>tas_pcs := (\<lambda>_. Outside)(4 := Trying)\<rparr>"
  have "reachable (tas_init spin_ok (\<lambda>l. fst l = 0)) (tas_step spin_try spin_rel) ?s0"
    by (intro reachable.reach_init) (simp add: tas_init_def spin_ok_def)
  moreover have "tas_step spin_try spin_rel ?s0 ?s1"
    using tas_step.tas_start [of ?s0 4 spin_try spin_rel] by simp
  moreover have "tas_step spin_try spin_rel ?s1 spin_held"
    using tas_step.tas_try [of ?s1 4 spin_try "(1, \<lambda>_. 1)" True spin_rel]
    by (simp add: spin_try_def spin_lock_round_def swap_def spin_held_def fun_upd_idem)
  ultimately show ?thesis by (blast intro: reachable.reach_step)
qed

theorem spin_lock_mutual_exclusion_witness:
  "reachable (tas_init spin_ok (\<lambda>l. fst l = 0)) (tas_step spin_try spin_rel) spin_held \<and>
   tas_pcs spin_held 4 = Holding \<and> tas_pcs spin_held 9 \<noteq> Holding"
  using spin_lock_mutual_exclusion [OF spin_held_reachable, of 4 9] spin_held_reachable
  by (simp add: spin_held_def)

end
