(* ===== verification/Newlib_Lock.thy ===== *)
theory Newlib_Lock
  imports Rigel_Atomics
begin

text \<open>
  The locks newlib uses on the target (libgloss/rigel/lock.c): the plain lock, whose
  acquisition loop is a single inline assembly fragment, and the recursive lock, whose
  operations are several atomic accesses and are therefore modelled twice: as functions (the
  behaviour of one uninterrupted call) and as a step relation in which the accesses of any
  number of threads interleave.
\<close>

section \<open>Plain lock\<close>

definition lock_init :: "u32 \<Rightarrow> u32" where
  "lock_init l = global_store l 0"

definition lock_try_acquire :: "u32 \<Rightarrow> u32 \<times> bool" where
  "lock_try_acquire l = (case swap l 1 of (c, swapval) \<Rightarrow> (c, swapval = 0))"

text \<open>
  The assembly of \<open>_lock_acquire\<close>: exchange the register with the lock, branch back while
  the register is equal to zero. The register keeps the exchanged value for the next round.
\<close>

partial_function (option) lock_acquire_loop :: "u32 \<Rightarrow> u32 \<Rightarrow> u32 option" where
  "lock_acquire_loop swapval l =
     (case swap l swapval of (l', swapval') \<Rightarrow>
        if swapval' = 0 then lock_acquire_loop swapval' l' else Some l')"

definition lock_acquire :: "u32 \<Rightarrow> u32 option" where
  "lock_acquire l = lock_acquire_loop 1 l"

definition lock_release :: "u32 \<Rightarrow> u32 \<times> u32" where
  "lock_release l = (global_store l 0, 0)"

interpretation newlib_try: test_and_set_lock
  "\<lambda>_. lock_try_acquire" "\<lambda>_ l. fst (lock_release l)" "\<lambda>_. True" "\<lambda>l. l = 0"
  by unfold_locales (auto simp: lock_try_acquire_def lock_release_def atomic_defs)

section \<open>Recursive lock\<close>

record recursive_lock =
  rl_owner :: u32
  rl_count :: u32

definition lock_init_recursive :: "recursive_lock \<Rightarrow> recursive_lock" where
  "lock_init_recursive l =
     l\<lparr>rl_owner := global_store (rl_owner l) (- 1), rl_count := global_store (rl_count l) 0\<rparr>"

definition lock_try_acquire_recursive :: "u32 \<Rightarrow> recursive_lock \<Rightarrow> recursive_lock \<times> u32" where
  "lock_try_acquire_recursive tid l =
     (case compare_and_swap (rl_count l) 0 1 of (c, ok) \<Rightarrow>
        if ok then (l\<lparr>rl_count := c, rl_owner := global_store (rl_owner l) tid\<rparr>, 1)
        else if global_load (rl_owner l) = tid
        then (l\<lparr>rl_count := fst (atomic_inc (rl_count l))\<rparr>, 1)
        else (l, 0))"

partial_function (option) spin_count :: "u32 \<Rightarrow> u32 option" where
  "spin_count c =
     (case compare_and_swap c 0 1 of (c', ok) \<Rightarrow> if ok then Some c' else spin_count c')"

definition lock_acquire_recursive :: "u32 \<Rightarrow> recursive_lock \<Rightarrow> recursive_lock option" where
  "lock_acquire_recursive tid s =
     (case compare_and_swap (rl_count s) 0 1 of (c, ok) \<Rightarrow>
        if ok then Some (s\<lparr>rl_count := c, rl_owner := global_store (rl_owner s) tid\<rparr>)
        else if global_load (rl_owner s) = tid
        then Some (s\<lparr>rl_count := fst (atomic_inc (rl_count s))\<rparr>)
        else map_option (\<lambda>c'. s\<lparr>rl_count := c', rl_owner := global_store (rl_owner s) tid\<rparr>)
               (spin_count (rl_count s)))"

definition lock_release_recursive :: "recursive_lock \<Rightarrow> recursive_lock" where
  "lock_release_recursive s =
     (let s' = (if global_load (rl_count s) = 1 then s\<lparr>rl_owner := global_store (rl_owner s) (- 1)\<rparr> else s)
      in s'\<lparr>rl_count := fst (atomic_dec (rl_count s'))\<rparr>)"

section \<open>Recursive lock, interleaved\<close>

text \<open>
  Where a thread stands inside an operation: \<open>Won\<close> after a successful compare-and-swap and
  before its owner store, \<open>Lost\<close> after a failed one and before its owner load, \<open>Again\<close> when
  it found itself to be the owner and will increment, \<open>Spin\<close> in the waiting loop, and in a
  release \<open>RelTest\<close>, \<open>RelOwner\<close>, \<open>RelCount\<close> before the load of the count, the store of
  the owner and the decrement. \<open>rs_depth\<close> records how many acquisitions of a thread have
  taken effect on the count and are not yet undone.
\<close>

datatype rl_pc = RIdle | Won | Lost | Again | Spin | RelTest | RelOwner | RelCount

record rl_sys =
  rs_lock :: recursive_lock
  rs_pcs :: "u32 \<Rightarrow> rl_pc"
  rs_depth :: "u32 \<Rightarrow> nat"

inductive rl_step :: "rl_sys \<Rightarrow> rl_sys \<Rightarrow> bool" where
  rl_cas: "rs_pcs s t \<in> {RIdle, Spin} \<Longrightarrow> t \<noteq> - 1 \<Longrightarrow> rs_depth s t < 2 ^ 32 - 1 \<Longrightarrow>
     compare_and_swap (rl_count (rs_lock s)) 0 1 = (c, ok) \<Longrightarrow>
     rl_step s (s\<lparr>rs_lock := (rs_lock s)\<lparr>rl_count := c\<rparr>,
       rs_pcs := (rs_pcs s)(t := if ok then Won else if rs_pcs s t = Spin then Spin else Lost),
       rs_depth := (if ok then (rs_depth s)(t := Suc (rs_depth s t)) else rs_depth s)\<rparr>)"
| rl_won: "rs_pcs s t = Won \<Longrightarrow>
     rl_step s (s\<lparr>rs_lock := (rs_lock s)\<lparr>rl_owner := global_store (rl_owner (rs_lock s)) t\<rparr>,
       rs_pcs := (rs_pcs s)(t := RIdle)\<rparr>)"
| rl_lost_own: "rs_pcs s t = Lost \<Longrightarrow> global_load (rl_owner (rs_lock s)) = t \<Longrightarrow>
     rl_step s (s\<lparr>rs_pcs := (rs_pcs s)(t := Again)\<rparr>)"
| rl_lost_spin: "rs_pcs s t = Lost \<Longrightarrow> global_load (rl_owner (rs_lock s)) \<noteq> t \<Longrightarrow>
     rl_step s (s\<lparr>rs_pcs := (rs_pcs s)(t := Spin)\<rparr>)"
| rl_lost_try: "rs_pcs s t = Lost \<Longrightarrow> global_load (rl_owner (rs_lock s)) \<noteq> t \<Longrightarrow>
     rl_step s (s\<lparr>rs_pcs := (rs_pcs s)(t := RIdle)\<rparr>)"
| rl_again: "rs_pcs s t = Again \<Longrightarrow>
     rl_step s (s\<lparr>rs_lock := (rs_lock s)\<lparr>rl_count := fst (atomic_inc (rl_count (rs_lock s)))\<rparr>,
       rs_pcs := (rs_pcs s)(t := RIdle),
       rs_depth := (rs_depth s)(t := Suc (rs_depth s t))\<rparr>)"
| rl_release: "rs_pcs s t = RIdle \<Longrightarrow> 0 < rs_depth s t \<Longrightarrow>
     rl_step s (s\<lparr>rs_pcs := (rs_pcs s)(t := RelTest)\<rparr>)"
| rl_test: "rs_pcs s t = RelTest \<Longrightarrow>
     rl_step s (s\<lparr>rs_pcs := (rs_pcs s)(t := if global_load (rl_count (rs_lock s)) = 1 then RelOwner else RelCount)\<rparr>)"
| rl_owner: "rs_pcs s t = RelOwner \<Longrightarrow>
     rl_step s (s\<lparr>rs_lock := (rs_lock s)\<lparr>rl_owner := global_store (rl_owner (rs_lock s)) (- 1)\<rparr>,
       rs_pcs := (rs_pcs s)(t := RelCount)\<rparr>)"
| rl_count: "rs_pcs s t = RelCount \<Longrightarrow>
     rl_step s (s\<lparr>rs_lock := (rs_lock s)\<lparr>rl_count := fst (atomic_dec (rl_count (rs_lock s)))\<rparr>,
       rs_pcs := (rs_pcs s)(t := RIdle),
       rs_depth := (rs_depth s)(t := rs_depth s t - 1)\<rparr>)"

definition rl_init :: "rl_sys \<Rightarrow> bool" where
  "rl_init s \<longleftrightarrow> (\<exists>l. rs_lock s = lock_init_recursive l) \<and>
     (\<forall>t. rs_pcs s t = RIdle \<and> rs_depth s t = 0)"

text \<open>
  The invariant: either nobody holds the lock, or one thread holds it, the count is its depth
  and every other thread waits or is elsewhere; the owner field names the holder except in the
  two windows around a change of hands, where it is \<open>- 1\<close>.
\<close>

definition rl_away :: "rl_sys \<Rightarrow> u32 \<Rightarrow> bool" where
  "rl_away s u \<longleftrightarrow> rs_depth s u = 0 \<and> rs_pcs s u \<in> {RIdle, Lost, Spin} \<and> (u = - 1 \<longrightarrow> rs_pcs s u = RIdle)"

definition rl_free :: "rl_sys \<Rightarrow> bool" where
  "rl_free s \<longleftrightarrow> rl_count (rs_lock s) = 0 \<and> rl_owner (rs_lock s) = - 1 \<and> (\<forall>u. rl_away s u)"

definition rl_handover :: "rl_sys \<Rightarrow> u32 \<Rightarrow> bool" where
  "rl_handover s t \<longleftrightarrow> rs_pcs s t = Won \<or> rs_pcs s t = RelCount \<and> rs_depth s t = 1"

definition rl_held :: "rl_sys \<Rightarrow> u32 \<Rightarrow> bool" where
  "rl_held s t \<longleftrightarrow> t \<noteq> - 1 \<and> 0 < rs_depth s t \<and> rs_depth s t < 2 ^ 32 \<and>
     rl_count (rs_lock s) = of_nat (rs_depth s t) \<and>
     rl_owner (rs_lock s) = (if rl_handover s t then - 1 else t) \<and>
     rs_pcs s t \<noteq> Spin \<and>
     (rs_pcs s t \<in> {Won, RelOwner} \<longrightarrow> rs_depth s t = 1) \<and>
     (rs_pcs s t \<in> {Again, Lost} \<longrightarrow> rs_depth s t < 2 ^ 32 - 1) \<and>
     (\<forall>u. u \<noteq> t \<longrightarrow> rl_away s u)"

definition rl_inv :: "rl_sys \<Rightarrow> bool" where
  "rl_inv s \<longleftrightarrow> rl_free s \<or> (\<exists>t. rl_held s t)"

lemmas rl_inv_defs = rl_inv_def rl_free_def rl_held_def rl_handover_def rl_away_def

lemma rl_step_free:
  assumes f: "rl_free s" and st: "rl_step s s'"
  shows "rl_inv s'"
proof -
  have away: "rl_away s u" for u using f by (simp add: rl_free_def)
  have out: "rs_pcs s u \<noteq> Won" "rs_pcs s u \<noteq> Again" "rs_pcs s u \<noteq> RelTest" "rs_pcs s u \<noteq> RelOwner"
    "rs_pcs s u \<noteq> RelCount" "rs_depth s u = 0" for u
    using away [of u] by (auto simp: rl_away_def)
  show ?thesis
    using st
  proof (cases rule: rl_step.cases)
    case (rl_cas t c ok)
    then have "c = 1" "ok" using f by (auto simp: rl_free_def compare_and_swap_def)
    with rl_cas away f have "rl_held s' t"
      by (auto simp: rl_held_def rl_free_def rl_handover_def rl_away_def)
    then show ?thesis by (auto simp: rl_inv_def)
  next
    case (rl_lost_spin t)
    with away [of t] f have "rl_free s'" by (auto simp: rl_free_def rl_away_def)
    then show ?thesis by (simp add: rl_inv_def)
  next
    case (rl_lost_try t)
    with away [of t] f have "rl_free s'" by (auto simp: rl_free_def rl_away_def)
    then show ?thesis by (simp add: rl_inv_def)
  next
    case (rl_lost_own t)
    with away [of t] f show ?thesis by (auto simp: rl_free_def rl_away_def global_load_def)
  qed (simp_all add: out)
qed

lemma rl_held_D:
  assumes "rl_held s h"
  shows "rl_count (rs_lock s) \<noteq> 0" "u \<noteq> h \<Longrightarrow> u \<noteq> - 1 \<Longrightarrow> rl_owner (rs_lock s) \<noteq> u"
    "rl_count (rs_lock s) = 1 \<longleftrightarrow> rs_depth s h = 1" "u \<noteq> h \<Longrightarrow> rl_away s u"
  using assms by (auto simp: rl_held_def of_nat_u32_0 of_nat_u32_1)

lemmas rl_kept = rl_held_def rl_handover_def rl_away_def atomic_defs

lemma rl_held_inv: "rl_held s h \<Longrightarrow> rl_inv s"
  by (auto simp: rl_inv_def)

lemma rl_inside_holder:
  "rl_held s h \<Longrightarrow> 0 < rs_depth s t \<or> rs_pcs s t \<in> {Won, Again, RelTest, RelOwner, RelCount} \<Longrightarrow> t = h"
  using rl_held_D(4) [of s h t] by (cases "t = h") (auto simp: rl_away_def)

lemma rl_step_held:
  assumes h: "rl_held s h" and st: "rl_step s s'"
  shows "rl_inv s'"
  using st
proof (cases rule: rl_step.cases)
  case (rl_cas t c ok)
  then have c: "\<not> ok" "c = rl_count (rs_lock s)"
    using rl_held_D(1) [OF h] by (auto simp: compare_and_swap_def)
  show ?thesis
    using h rl_cas c rl_held_D(4) [OF h, of t] by (intro rl_held_inv [of s' h]) (auto simp: rl_kept)
next
  case (rl_won t)
  with h rl_inside_holder [OF h, of t] show ?thesis by (intro rl_held_inv [of s' h]) (auto simp: rl_kept)
next
  case (rl_lost_own t)
  then have "t = h"
    using rl_held_D(2,4) [OF h, of t] by (cases "t = - 1") (auto simp: rl_away_def atomic_defs)
  with rl_lost_own h show ?thesis by (intro rl_held_inv [of s' h]) (auto simp: rl_kept)
next
  case (rl_lost_spin t)
  then have "t \<noteq> h" using h by (auto simp: rl_kept)
  with rl_lost_spin h show ?thesis by (intro rl_held_inv [of s' h]) (auto simp: rl_kept)
next
  case (rl_lost_try t)
  then have "t \<noteq> h" using h by (auto simp: rl_kept)
  with rl_lost_try h show ?thesis by (intro rl_held_inv [of s' h]) (auto simp: rl_kept)
next
  case (rl_again t)
  with h rl_inside_holder [OF h, of t] show ?thesis by (intro rl_held_inv [of s' h]) (auto simp: rl_kept)
next
  case (rl_release t)
  with h rl_inside_holder [OF h, of t] show ?thesis by (intro rl_held_inv [of s' h]) (auto simp: rl_kept)
next
  case (rl_test t)
  with h rl_held_D(3) [OF h] rl_inside_holder [OF h, of t] show ?thesis
    by (intro rl_held_inv [of s' h]) (auto simp: rl_kept)
next
  case (rl_owner t)
  with h rl_inside_holder [OF h, of t] show ?thesis by (intro rl_held_inv [of s' h]) (auto simp: rl_kept)
next
  case (rl_count t)
  then have t: "t = h" using rl_inside_holder [OF h, of t] by simp
  show ?thesis
    using t rl_count h by (cases "rs_depth s h = 1") (auto simp: rl_inv_def rl_free_def rl_kept of_nat_diff)
qed

interpretation rl: inductive_invariant rl_init rl_step rl_inv
proof
  show "rl_init s \<Longrightarrow> rl_inv s" for s
    by (auto simp: rl_init_def lock_init_recursive_def rl_inv_def rl_free_def rl_away_def atomic_defs)
  show "rl_inv s \<Longrightarrow> rl_step s t \<Longrightarrow> rl_inv t" for s t
    using rl_step_free rl_step_held by (auto simp: rl_inv_def [of s])
qed

section \<open>Properties\<close>

text \<open>
  C12: mutual exclusion of newlib's recursive lock under every interleaving of the atomic
  accesses of any number of threads: two threads never hold it at once, the count field is
  always the nesting depth of the holder, and the holder's own further acquisition finds
  itself as the owner, so it increments the count and never waits for itself.
\<close>

theorem recursive_lock_mutual_exclusion:
  assumes "reachable rl_init rl_step s" and "0 < rs_depth s t"
  shows "(0 < rs_depth s u \<longrightarrow> u = t) \<and> rl_count (rs_lock s) = of_nat (rs_depth s t) \<and>
    (rs_pcs s t = Lost \<longrightarrow> global_load (rl_owner (rs_lock s)) = t)"
proof -
  from assms have inv: "rl_inv s" by (simp add: rl.reachable_inv)
  have "\<not> rl_free s"
    using assms(2) unfolding rl_free_def rl_away_def by (metis less_irrefl)
  with inv obtain h where h: "rl_held s h" by (auto simp: rl_inv_def)
  then have "t = h" using rl_held_D(4) [OF h, of t] assms(2) by (auto simp: rl_away_def)
  with h rl_held_D(4) [OF h, of u] show ?thesis
    by (auto simp: rl_held_def rl_handover_def rl_away_def global_load_def)
qed

definition rl_start :: rl_sys where
  "rl_start = \<lparr>rs_lock = \<lparr>rl_owner = - 1, rl_count = 0\<rparr>, rs_pcs = (\<lambda>_. RIdle), rs_depth = (\<lambda>_. 0)\<rparr>"

definition rl_taken :: rl_sys where
  "rl_taken = rl_start\<lparr>rs_lock := \<lparr>rl_owner = - 1, rl_count = 1\<rparr>,
     rs_pcs := (\<lambda>_. RIdle)(3 := Won), rs_depth := (\<lambda>_. 0)(3 := 1)\<rparr>"

lemma rl_taken_reachable: "reachable rl_init rl_step rl_taken"
proof (rule reachable.reach_step [of _ _ rl_start])
  have "lock_init_recursive \<lparr>rl_owner = 0, rl_count = 0\<rparr> = \<lparr>rl_owner = - 1, rl_count = 0\<rparr>"
    by (simp add: lock_init_recursive_def atomic_defs)
  then show "reachable rl_init rl_step rl_start"
    by (intro reachable.reach_init)
      (auto simp: rl_init_def rl_start_def intro!: exI [of _ "\<lparr>rl_owner = 0, rl_count = 0\<rparr>"])
  show "rl_step rl_start rl_taken"
    using rl_step.rl_cas [of rl_start 3 1 True]
    by (simp add: rl_start_def rl_taken_def atomic_defs fun_upd_def)
qed

theorem recursive_lock_mutual_exclusion_witness:
  "reachable rl_init rl_step rl_taken \<and> 0 < rs_depth rl_taken 3 \<and>
   \<not> 0 < rs_depth rl_taken 5 \<and> rl_count (rs_lock rl_taken) = 1"
proof -
  have h: "0 < rs_depth rl_taken 3" by (simp add: rl_taken_def)
  from recursive_lock_mutual_exclusion [OF rl_taken_reachable h, of 5] h rl_taken_reachable
  show ?thesis by (auto simp: rl_taken_def)
qed

text \<open>
  one uninterrupted acquisition of the recursive lock followed by its release restores the
  lock: from a free lock whatever the caller, and from a lock the caller owns whatever the
  nesting depth, as long as the count does not wrap around. An acquisition of a lock somebody
  else owns never returns.
\<close>

lemma spin_count_busy: "c \<noteq> 0 \<Longrightarrow> spin_count c = None"
proof -
  assume "c \<noteq> 0"
  have "spin_count c' = Some r \<Longrightarrow> c' = 0" for c' r
  proof (rule spin_count.raw_induct [of "\<lambda>c r. c = 0" c' r])
    fix f and c :: u32 and r
    assume ih: "\<And>c r. f c = Some r \<Longrightarrow> c = 0"
      and eq: "(case compare_and_swap c 0 1 of (c', ok) \<Rightarrow> if ok then Some c' else f c') = Some r"
    then show "c = 0" by (auto simp: compare_and_swap_def split: if_splits)
  qed
  with \<open>c \<noteq> 0\<close> show ?thesis by (metis not_Some_eq)
qed

theorem recursive_lock_roundtrip:
  "lock_acquire_recursive tid s =
     (if rl_count s = 0 then Some (s\<lparr>rl_count := 1, rl_owner := tid\<rparr>)
      else if rl_owner s = tid then Some (s\<lparr>rl_count := rl_count s + 1\<rparr>)
      else None) \<and>
   map_option lock_release_recursive (lock_acquire_recursive tid s) =
     (if rl_count s = 0 then Some (s\<lparr>rl_owner := - 1\<rparr>)
      else if rl_owner s = tid then Some s
      else None)"
proof -
  have "rl_count s + 1 \<noteq> 1 \<longleftrightarrow> rl_count s \<noteq> 0" by simp
  then show ?thesis
    by (simp add: lock_acquire_recursive_def lock_release_recursive_def atomic_defs Let_def
        spin_count_busy)
qed

text \<open>
  the plain lock's acquisition does not acquire. It always returns; a free lock is free
  again when it returns, and a held lock is reported as acquired at once. Two threads that
  both return from \<open>_lock_acquire\<close> are therefore both inside, while the try operation
  and the spin lock macro of include/spinlock.h, which branch on the opposite condition, do
  exclude.
\<close>

theorem lock_acquire_does_not_lock:
  "lock_acquire l = Some (if l = 0 then 0 else 1) \<and>
   Option.bind (lock_acquire (lock_init l)) lock_acquire = Some 0 \<and>
   snd (lock_try_acquire l) = (l = 0)"
proof -
  have "lock_acquire l = Some (if l = 0 then 0 else 1)" for l
    unfolding lock_acquire_def
    by (simp add: lock_acquire_loop.simps [of 1 l] lock_acquire_loop.simps [of 0 1] swap_def)
  then show ?thesis
    by (simp add: lock_init_def lock_try_acquire_def atomic_defs)
qed

end
