(* ===== verification/Pthread_Mutex.thy ===== *)
theory Pthread_Mutex
  imports Rigel_Atomics
begin

text \<open>
  The mutexes of libpthread (pthread_mutex.c): attributes, the three kinds and their four
  operations, as functions of the calling thread's number and the mutex. A result is the C
  return value paired with the mutex; an operation that spins gives \<open>None\<close> when, with no
  other thread interfering, it never returns.
\<close>

section \<open>Error numbers and types\<close>

definition EPERM :: int where "EPERM = 1"
definition EBUSY :: int where "EBUSY = 16"
definition EINVAL :: int where "EINVAL = 22"
definition EDEADLK :: int where "EDEADLK = 45"

lemmas errno_defs = EPERM_def EBUSY_def EINVAL_def EDEADLK_def

definition PTHREAD_MUTEX_NORMAL :: u32 where "PTHREAD_MUTEX_NORMAL = 0"
definition PTHREAD_MUTEX_ERRORCHECK :: u32 where "PTHREAD_MUTEX_ERRORCHECK = 1"
definition PTHREAD_MUTEX_RECURSIVE :: u32 where "PTHREAD_MUTEX_RECURSIVE = 2"

lemmas mutex_kind_defs =
  PTHREAD_MUTEX_NORMAL_def PTHREAD_MUTEX_ERRORCHECK_def PTHREAD_MUTEX_RECURSIVE_def

record pthread_mutex =
  m_lock :: u32
  m_count :: u32
  m_owner :: u32
  m_kind :: u32

definition mutex_gettype :: "u32 \<Rightarrow> u32" where
  "mutex_gettype kind = kind AND 3"

section \<open>Attributes\<close>

text \<open>An attribute object is its one word \<open>__align\<close>; bit 15 marks it initialised.\<close>

definition pthread_mutexattr_init :: "u32 \<Rightarrow> int \<times> u32" where
  "pthread_mutexattr_init a = (0, push_bit 15 1)"

definition pthread_mutexattr_destroy :: "u32 \<Rightarrow> int \<times> u32" where
  "pthread_mutexattr_destroy a = (0, 0)"

definition pthread_mutexattr_settype :: "u32 option \<Rightarrow> int \<Rightarrow> int \<times> u32 option" where
  "pthread_mutexattr_settype a type =
     (if type < uint PTHREAD_MUTEX_NORMAL \<or> uint PTHREAD_MUTEX_RECURSIVE < type then (- EINVAL, a)
      else case a of
             None \<Rightarrow> (- EINVAL, a)
           | Some w \<Rightarrow> if w AND push_bit 15 1 = 0 then (- EINVAL, a)
                       else (0, Some (w OR word_of_int type)))"

definition pthread_mutexattr_gettype :: "u32 option \<Rightarrow> int \<times> u32 option" where
  "pthread_mutexattr_gettype a =
     (case a of
        None \<Rightarrow> (- EINVAL, None)
      | Some w \<Rightarrow> if w AND push_bit 15 1 = 0 then (- EINVAL, None) else (0, Some (w AND 3)))"

section \<open>Mutex operations\<close>

text \<open>The switch of \<open>pthread_mutex_init\<close> falls through from one kind to the next.\<close>

definition pthread_mutex_init :: "pthread_mutex \<Rightarrow> u32 option \<Rightarrow> int \<times> pthread_mutex" where
  "pthread_mutex_init m a =
     (let attr = (case a of None \<Rightarrow> Inr (push_bit 15 1)
                  | Some w \<Rightarrow> if w AND push_bit 15 1 = 0 then Inl (- EINVAL) else Inr w)
      in case attr of
           Inl e \<Rightarrow> (e, m)
         | Inr kind \<Rightarrow>
             let m = m\<lparr>m_kind := kind\<rparr>; k = mutex_gettype kind;
                 m = (if k = PTHREAD_MUTEX_RECURSIVE then m\<lparr>m_count := 0\<rparr> else m);
                 m = (if k = PTHREAD_MUTEX_RECURSIVE \<or> k = PTHREAD_MUTEX_ERRORCHECK
                      then m\<lparr>m_owner := - 1\<rparr> else m)
             in if k = PTHREAD_MUTEX_RECURSIVE \<or> k = PTHREAD_MUTEX_ERRORCHECK \<or> k = PTHREAD_MUTEX_NORMAL
                then (0, m\<lparr>m_lock := 0\<rparr>) else (- EINVAL, m))"

text \<open>The waiting loop \<open>while (swap (&lock, 1) != 0)\<close>.\<close>

partial_function (option) spin_swap :: "u32 \<Rightarrow> u32 option" where
  "spin_swap lock = (case swap lock 1 of (c, old) \<Rightarrow> if old \<noteq> 0 then spin_swap c else Some c)"

definition pthread_mutex_lock :: "u32 \<Rightarrow> pthread_mutex \<Rightarrow> (int \<times> pthread_mutex) option" where
  "pthread_mutex_lock tid m =
     (let k = mutex_gettype (m_kind m) in
      if k = PTHREAD_MUTEX_NORMAL then
        map_option (\<lambda>l. (0, m\<lparr>m_lock := l\<rparr>)) (spin_swap (m_lock m))
      else if k = PTHREAD_MUTEX_ERRORCHECK then
        if global_load (m_owner m) = tid then Some (- EDEADLK, m)
        else map_option (\<lambda>l. (0, m\<lparr>m_lock := l, m_owner := global_store (m_owner m) tid\<rparr>))
               (spin_swap (m_lock m))
      else if k = PTHREAD_MUTEX_RECURSIVE then
        case compare_and_swap (m_count m) 0 1 of (c, ok) \<Rightarrow>
          if ok then Some (0, m\<lparr>m_count := c, m_owner := global_store (m_owner m) tid\<rparr>)
          else if global_load (m_owner m) = tid
          then Some (0, m\<lparr>m_count := fst (atomic_inc (m_count m))\<rparr>)
          else map_option (\<lambda>l. (0, m\<lparr>m_lock := l, m_owner := global_store (m_owner m) tid\<rparr>))
                 (spin_swap (m_lock m))
      else Some (- EINVAL, m))"

definition pthread_mutex_trylock :: "u32 \<Rightarrow> pthread_mutex \<Rightarrow> int \<times> pthread_mutex" where
  "pthread_mutex_trylock tid m =
     (let k = mutex_gettype (m_kind m) in
      if k = PTHREAD_MUTEX_NORMAL then
        case swap (m_lock m) 1 of (l, old) \<Rightarrow>
          if old \<noteq> 0 then (- EBUSY, m\<lparr>m_lock := l\<rparr>) else (0, m\<lparr>m_lock := l\<rparr>)
      else if k = PTHREAD_MUTEX_ERRORCHECK then
        if global_load (m_owner m) = tid then (- EDEADLK, m)
        else case swap (m_lock m) 1 of (l, old) \<Rightarrow>
          if old \<noteq> 0 then (- EBUSY, m\<lparr>m_lock := l\<rparr>)
          else (0, m\<lparr>m_lock := l, m_owner := global_store (m_owner m) tid\<rparr>)
      else if k = PTHREAD_MUTEX_RECURSIVE then
        case compare_and_swap (m_count m) 0 1 of (c, ok) \<Rightarrow>
          if ok then (- EINVAL, m\<lparr>m_count := c, m_owner := global_store (m_owner m) tid\<rparr>)
          else if global_load (m_owner m) = tid
          then (- EINVAL, m\<lparr>m_count := fst (atomic_inc (m_count m))\<rparr>)
          else case swap (m_lock m) 1 of (l, old) \<Rightarrow>
            if old \<noteq> 0 then (- EBUSY, m\<lparr>m_lock := l\<rparr>)
            else (0, m\<lparr>m_lock := l, m_owner := global_store (m_owner m) tid\<rparr>)
      else (- EINVAL, m))"

definition pthread_mutex_unlock :: "u32 \<Rightarrow> pthread_mutex \<Rightarrow> int \<times> pthread_mutex" where
  "pthread_mutex_unlock tid m =
     (let k = mutex_gettype (m_kind m) in
      if k = PTHREAD_MUTEX_NORMAL then (0, m\<lparr>m_lock := global_store (m_lock m) 0\<rparr>)
      else if k = PTHREAD_MUTEX_ERRORCHECK then
        if global_load (m_owner m) = tid then (- EPERM, m)
        else (0, m\<lparr>m_owner := global_store (m_owner m) 0, m_lock := global_store (m_lock m) 0\<rparr>)
      else if k = PTHREAD_MUTEX_RECURSIVE then
        if global_load (m_owner m) \<noteq> tid then (- EPERM, m)
        else let m = (if global_load (m_count m) = 1
                      then m\<lparr>m_owner := global_store (m_owner m) (- 1)\<rparr> else m)
             in (0, m\<lparr>m_count := fst (atomic_dec (m_count m))\<rparr>)
      else (- EINVAL, m))"

section \<open>Facts\<close>

lemma spin_swap_eq: "spin_swap l = (if l = 0 then Some 1 else None)"
proof -
  have "spin_swap l' = Some r \<Longrightarrow> l' = 0" for l' r
  proof (rule spin_swap.raw_induct [of "\<lambda>l r. l = 0" l' r])
    fix f and l :: u32 and r
    assume ih: "\<And>l r. f l = Some r \<Longrightarrow> l = 0"
      and eq: "(case swap l 1 of (c, old) \<Rightarrow> if old \<noteq> 0 then f c else Some c) = Some r"
    then show "l = 0" using ih [of 1 r] by (auto simp: swap_def split: if_splits)
  qed
  then show ?thesis
    by (cases "l = 0") (auto simp: spin_swap.simps [of 0] swap_def, metis not_Some_eq)
qed

lemma attr_bits:
  "t \<in> {0, 1, 2 :: u32} \<Longrightarrow> (push_bit 15 1 OR t) AND push_bit 15 1 \<noteq> 0"
  "t \<in> {0, 1, 2 :: u32} \<Longrightarrow> (push_bit 15 1 OR t) AND 3 = t"
  by auto

text \<open>
  A normal mutex is a test-and-set lock: its waiting loop repeats the exchange that a
  \<open>pthread_mutex_trylock\<close> makes once.
\<close>

definition normal_mutex :: "pthread_mutex \<Rightarrow> bool" where
  "normal_mutex m \<longleftrightarrow> mutex_gettype (m_kind m) = PTHREAD_MUTEX_NORMAL"

definition mutex_try :: "u32 \<Rightarrow> pthread_mutex \<Rightarrow> pthread_mutex \<times> bool" where
  "mutex_try tid m = (case pthread_mutex_trylock tid m of (r, m') \<Rightarrow> (m', r = 0))"

definition mutex_rel :: "u32 \<Rightarrow> pthread_mutex \<Rightarrow> pthread_mutex" where
  "mutex_rel tid m = snd (pthread_mutex_unlock tid m)"

interpretation normal: test_and_set_lock mutex_try mutex_rel normal_mutex "\<lambda>m. m_lock m = 0"
  by unfold_locales
    (auto simp: mutex_try_def mutex_rel_def normal_mutex_def pthread_mutex_trylock_def
      pthread_mutex_unlock_def mutex_kind_defs atomic_defs errno_defs)

section \<open>Properties\<close>

text \<open>
  C37: threads that take a normal mutex by \<open>pthread_mutex_trylock\<close> (or by the lock's
  loop over the same exchange) and give it back by \<open>pthread_mutex_unlock\<close> exclude one
  another, under every interleaving.
\<close>

theorem normal_mutex_mutual_exclusion:
  assumes "reachable (tas_init normal_mutex (\<lambda>m. m_lock m = 0)) (tas_step mutex_try mutex_rel) s"
    and "tas_pcs s i = Holding" and "tas_pcs s j = Holding"
  shows "i = j"
  using normal.mutual_exclusion [OF assms] .

definition held_mutex :: "pthread_mutex tas_sys" where
  "held_mutex = \<lparr>tas_lock = \<lparr>m_lock = 1, m_count = 0, m_owner = 0, m_kind = 32768\<rparr>,
     tas_pcs = (\<lambda>_. Outside)(1 := Holding)\<rparr>"

lemma held_mutex_reachable:
  "reachable (tas_init normal_mutex (\<lambda>m. m_lock m = 0)) (tas_step mutex_try mutex_rel) held_mutex"
proof -
  let ?m = "\<lparr>m_lock = 0, m_count = 0, m_owner = 0, m_kind = 32768\<rparr> :: pthread_mutex"
  let ?s0 = "\<lparr>tas_lock = ?m, tas_pcs = (\<lambda>_. Outside)\<rparr> :: pthread_mutex tas_sys"
  let ?s1 = "\<lparr>tas_lock = ?m, tas_pcs = (\<lambda>_. Outside)(1 := Trying)\<rparr> :: pthread_mutex tas_sys"
  have "reachable (tas_init normal_mutex (\<lambda>m. m_lock m = 0)) (tas_step mutex_try mutex_rel) ?s0"
    by (intro reachable.reach_init)
      (simp add: tas_init_def normal_mutex_def mutex_gettype_def mutex_kind_defs)
  moreover have "tas_step mutex_try mutex_rel ?s0 ?s1"
    using tas_step.tas_start [of ?s0 1 mutex_try mutex_rel] by simp
  moreover have "tas_step mutex_try mutex_rel ?s1 held_mutex"
    using tas_step.tas_try [of ?s1 1 mutex_try "?m\<lparr>m_lock := 1\<rparr>" True mutex_rel]
    by (simp add: mutex_try_def pthread_mutex_trylock_def mutex_gettype_def mutex_kind_defs
        atomic_defs held_mutex_def)
  ultimately show ?thesis by (blast intro: reachable.reach_step)
qed

theorem normal_mutex_mutual_exclusion_witness:
  "reachable (tas_init normal_mutex (\<lambda>m. m_lock m = 0)) (tas_step mutex_try mutex_rel) held_mutex \<and>
   tas_pcs held_mutex 1 = Holding \<and> tas_pcs held_mutex 2 \<noteq> Holding"
  using normal_mutex_mutual_exclusion [OF held_mutex_reachable, of 1 2] held_mutex_reachable
  by (simp add: held_mutex_def)

text \<open>
  an error-checking mutex cannot be unlocked by the thread that locked it. After a
  successful lock the owner's unlock is refused with \<open>EPERM\<close> and leaves the mutex locked,
  while the unlock of any other thread succeeds and frees it: the ownership test of
  \<open>pthread_mutex_unlock\<close> is the wrong way round.
\<close>

theorem errorcheck_unlock_inverted:
  assumes "mutex_gettype (m_kind m) = PTHREAD_MUTEX_ERRORCHECK"
    and "pthread_mutex_lock tid m = Some (0, m')"
  shows "pthread_mutex_unlock tid m' = (- EPERM, m') \<and> m_lock m' = 1 \<and>
    (other \<noteq> tid \<longrightarrow> pthread_mutex_unlock other m' = (0, m'\<lparr>m_owner := 0, m_lock := 0\<rparr>))"
proof -
  from assms have m': "m' = m\<lparr>m_lock := 1, m_owner := tid\<rparr>"
    by (auto simp: pthread_mutex_lock_def mutex_kind_defs spin_swap_eq atomic_defs errno_defs
        split: if_splits)
  with assms(1) show ?thesis
    by (auto simp: pthread_mutex_unlock_def mutex_kind_defs atomic_defs)
qed

definition fresh_errorcheck :: pthread_mutex where
  "fresh_errorcheck = \<lparr>m_lock = 0, m_count = 0, m_owner = - 1, m_kind = 32769\<rparr>"

theorem errorcheck_unlock_inverted_witness:
  "mutex_gettype (m_kind fresh_errorcheck) = PTHREAD_MUTEX_ERRORCHECK \<and>
   pthread_mutex_lock 3 fresh_errorcheck = Some (0, fresh_errorcheck\<lparr>m_lock := 1, m_owner := 3\<rparr>) \<and>
   pthread_mutex_unlock 3 (fresh_errorcheck\<lparr>m_lock := 1, m_owner := 3\<rparr>) =
     (- EPERM, fresh_errorcheck\<lparr>m_lock := 1, m_owner := 3\<rparr>)"
proof -
  have k: "mutex_gettype (m_kind fresh_errorcheck) = PTHREAD_MUTEX_ERRORCHECK"
    by (simp add: fresh_errorcheck_def mutex_gettype_def mutex_kind_defs)
  have l: "pthread_mutex_lock 3 fresh_errorcheck =
      Some (0, fresh_errorcheck\<lparr>m_lock := 1, m_owner := 3\<rparr>)"
    using k by (simp add: pthread_mutex_lock_def mutex_kind_defs spin_swap_eq atomic_defs)
      (simp add: fresh_errorcheck_def)
  from errorcheck_unlock_inverted [OF k l] k l show ?thesis by simp
qed

text \<open>
  a recursive mutex does not exclude and its trylock misreports. On a freshly
  initialised recursive mutex two different threads both lock successfully one after the
  other, because the contended path takes the unused lock word instead of the count; and a
  trylock that takes the free mutex answers \<open>EINVAL\<close>.
\<close>

theorem recursive_mutex_not_exclusive:
  assumes "pthread_mutex_init m0 (Some a) = (0, m)" and "mutex_gettype a = PTHREAD_MUTEX_RECURSIVE"
    and "t2 \<noteq> t1"
  shows "\<exists>m1 m2. pthread_mutex_lock t1 m = Some (0, m1) \<and> pthread_mutex_lock t2 m1 = Some (0, m2) \<and>
    m_count m2 = 1 \<and> m_owner m2 = t2 \<and>
    pthread_mutex_trylock t1 m = (- EINVAL, m1)"
proof -
  from assms have "mutex_gettype (m_kind m) = PTHREAD_MUTEX_RECURSIVE" "m_lock m = 0" "m_count m = 0"
    by (auto simp: pthread_mutex_init_def Let_def mutex_kind_defs errno_defs split: if_splits)
  with assms(3) show ?thesis
    by (simp add: pthread_mutex_lock_def pthread_mutex_trylock_def mutex_kind_defs spin_swap_eq
        atomic_defs)
qed

definition recursive_attr :: u32 where
  "recursive_attr = 32770"

theorem recursive_mutex_not_exclusive_witness:
  "pthread_mutex_init fresh_errorcheck (Some recursive_attr) =
     (0, \<lparr>m_lock = 0, m_count = 0, m_owner = - 1, m_kind = 32770\<rparr>) \<and>
   (\<exists>m1 m2. pthread_mutex_lock 1 \<lparr>m_lock = 0, m_count = 0, m_owner = - 1, m_kind = 32770\<rparr> = Some (0, m1) \<and>
      pthread_mutex_lock 2 m1 = Some (0, m2))"
proof -
  have i: "pthread_mutex_init fresh_errorcheck (Some recursive_attr) =
     (0, \<lparr>m_lock = 0, m_count = 0, m_owner = - 1, m_kind = 32770\<rparr>)"
    by (simp add: pthread_mutex_init_def recursive_attr_def Let_def mutex_gettype_def
        mutex_kind_defs fresh_errorcheck_def)
  have "mutex_gettype recursive_attr = PTHREAD_MUTEX_RECURSIVE"
    by (simp add: recursive_attr_def mutex_gettype_def mutex_kind_defs)
  from recursive_mutex_not_exclusive [OF i this, of 2 1] i show ?thesis by auto
qed

text \<open>
  The round trip of the attributes, and its limit. A type set on a freshly initialised
  attribute object is the type read back and the kind a mutex initialised from it has; a
  second \<open>pthread_mutexattr_settype\<close> does not replace the first type but is combined with
  it bit by bit, so setting 1 and then 2 leaves the type 3, with which no mutex initialises.
\<close>

theorem mutexattr_roundtrip:
  assumes "t1 \<in> {0, 1, 2}" and "t2 \<in> {0, 1, 2}"
  shows "\<exists>w1 w2. pthread_mutexattr_settype (Some (snd (pthread_mutexattr_init w))) t1 = (0, Some w1) \<and>
    pthread_mutexattr_gettype (Some w1) = (0, Some (word_of_int t1)) \<and>
    fst (pthread_mutex_init m (Some w1)) = 0 \<and>
    mutex_gettype (m_kind (snd (pthread_mutex_init m (Some w1)))) = word_of_int t1 \<and>
    pthread_mutexattr_settype (Some w1) t2 = (0, Some w2) \<and>
    pthread_mutexattr_gettype (Some w2) = (0, Some (word_of_int t1 OR word_of_int t2)) \<and>
    (fst (pthread_mutex_init m (Some w2)) = 0 \<longleftrightarrow> t1 + t2 \<noteq> 3)"
  using assms
  by (simp only: insert_iff empty_iff simp_thms)
    (elim disjE; simp add: pthread_mutexattr_settype_def pthread_mutexattr_init_def
      pthread_mutexattr_gettype_def pthread_mutex_init_def Let_def mutex_gettype_def mutex_kind_defs
      errno_defs)

theorem mutexattr_roundtrip_witness:
  "(1::int) \<in> {0, 1, 2} \<and> (2::int) \<in> {0, 1, 2} \<and>
   (\<exists>w1 w2. pthread_mutexattr_settype (Some (snd (pthread_mutexattr_init 7))) 1 = (0, Some w1) \<and>
     pthread_mutexattr_settype (Some w1) 2 = (0, Some w2) \<and>
     fst (pthread_mutex_init fresh_errorcheck (Some w2)) \<noteq> 0)"
  using mutexattr_roundtrip [of 1 2 7 fresh_errorcheck] by auto

end
