(* ===== verification/Pthread_Runtime.thy ===== *)
theory Pthread_Runtime
  imports Pthread_Mutex
begin

text \<open>
  The rest of libpthread: one-time initialisation (pthread_once.c), condition variables
  (pthread_cond.c), thread-specific data (pthread_tls.c) and thread creation and joining
  (pthread_management.c). Pointers are 32-bit words with 0 for NULL. The size of the tables comes
  from a header outside the repository, so it is the length of the lists; the number of hardware
  threads, which may be smaller, is an argument of \<open>pthread_join\<close>.
  Start routines, destructors and initialisation routines are the application's code: they
  are function arguments, applied to the pointer the library calls.
\<close>

definition EAGAIN :: int where "EAGAIN = 11"
definition ESRCH :: int where "ESRCH = 3"

section \<open>pthread_once.c\<close>

definition pthread_once :: "('s \<Rightarrow> 's) \<Rightarrow> u32 \<times> 's \<Rightarrow> int \<times> u32 \<times> 's" where
  "pthread_once init_routine x =
     (case x of (once_control, s) \<Rightarrow>
        case compare_and_swap once_control 0 1 of (c, ok) \<Rightarrow>
          (0, c, if ok then init_routine s else s))"

section \<open>pthread_cond.c\<close>

record pthread_cond =
  c_broadcast :: u32
  c_mutex :: u32

definition pthread_cond_init :: "pthread_cond \<Rightarrow> u32 \<Rightarrow> int \<times> pthread_cond" where
  "pthread_cond_init c a =
     (if a \<noteq> 0 then (- EINVAL, c)
      else if c_broadcast c = 1 then (- EINVAL, c)
      else (0, c\<lparr>c_broadcast := 1, c_mutex := 0\<rparr>))"

text \<open>
  \<open>pthread_cond_wait\<close> up to the point where it starts to poll: \<open>Inl\<close> is an early
  return, \<open>Inr\<close> the state in which it polls. \<open>maddr\<close> is the address of the mutex.
\<close>

definition cond_wait_enter :: "u32 \<Rightarrow> pthread_cond \<Rightarrow> u32 \<Rightarrow> pthread_mutex \<Rightarrow>
   int \<times> pthread_cond \<times> pthread_mutex + pthread_cond \<times> pthread_mutex" where
  "cond_wait_enter tid c maddr m =
     (let cur_mutex_val = global_load (c_mutex c) in
      if cur_mutex_val \<noteq> 0 \<and> cur_mutex_val \<noteq> maddr then Inl (- EINVAL, c, m)
      else let c = (if cur_mutex_val = 0 then c\<lparr>c_mutex := global_store (c_mutex c) maddr\<rparr> else c)
           in case pthread_mutex_unlock tid m of (r, m') \<Rightarrow>
                if r \<noteq> 0 then Inl (- EINVAL, c, m') else Inr (c, m'))"

text \<open>The polling loop over the values it reads, and the return after the wakeup.\<close>

fun cond_poll :: "u32 list \<Rightarrow> u32 list option" where
  "cond_poll [] = None"
| "cond_poll (v # vs) = (if v \<noteq> 2 then cond_poll vs else Some vs)"

definition cond_wait_leave :: "u32 \<Rightarrow> pthread_mutex \<Rightarrow> (int \<times> pthread_mutex) option" where
  "cond_wait_leave tid m =
     map_option (\<lambda>(r, m'). (if r \<noteq> 0 then - EINVAL else 0, m')) (pthread_mutex_lock tid m)"

definition pthread_cond_broadcast :: "pthread_cond \<Rightarrow> int \<times> pthread_cond" where
  "pthread_cond_broadcast c =
     (if c_broadcast c \<noteq> 1 then (- EINVAL, c) else (0, c\<lparr>c_broadcast := 2\<rparr>))"

definition pthread_cond_signal :: "pthread_cond \<Rightarrow> int \<times> pthread_cond" where
  "pthread_cond_signal c = pthread_cond_broadcast c"

definition pthread_cond_destroy :: "pthread_cond \<Rightarrow> int \<times> pthread_cond" where
  "pthread_cond_destroy c = (0, c\<lparr>c_broadcast := 0, c_mutex := 0\<rparr>)"

section \<open>pthread_tls.c\<close>

definition MAX_KEYS_PER_THREAD :: nat where "MAX_KEYS_PER_THREAD = 32"
definition PTHREAD_MAX_DESTRUCTOR_ITERATIONS :: nat where "PTHREAD_MAX_DESTRUCTOR_ITERATIONS = 4"

record pthread_tls =
  tls_valid :: u32
  tls_destructors :: "u32 list"
  tls_data :: "u32 list"

definition upd_thread :: "pthread_tls list \<Rightarrow> nat \<Rightarrow> (pthread_tls \<Rightarrow> 'a \<times> pthread_tls) \<Rightarrow>
   ('a \<times> pthread_tls list) c_result" where
  "upd_thread st tid f = bnd (rd st tid) (\<lambda>t. case f t of (r, t') \<Rightarrow> Inr (r, st[tid := t']))"

definition pthread_key_create ::
  "nat \<Rightarrow> u32 \<Rightarrow> pthread_tls list \<Rightarrow> ((int \<times> nat option) \<times> pthread_tls list) c_result" where
  "pthread_key_create tid destructor st =
     upd_thread st tid (\<lambda>t.
       case find (\<lambda>i. tls_valid t AND push_bit i 1 = 0) [0..<MAX_KEYS_PER_THREAD] of
         Some i \<Rightarrow> ((0, Some i), t\<lparr>tls_valid := tls_valid t OR push_bit i 1,
                       tls_destructors := (tls_destructors t)[i := destructor]\<rparr>)
       | None \<Rightarrow> ((- EAGAIN, None), t))"

text \<open>
  The destructor loop: \<open>call f d t\<close> is the thread's table after the function at \<open>f\<close> ran
  on \<open>d\<close>.
\<close>

fun destructor_loop :: "(u32 \<Rightarrow> u32 \<Rightarrow> pthread_tls \<Rightarrow> pthread_tls) \<Rightarrow> nat \<Rightarrow> nat \<Rightarrow> pthread_tls \<Rightarrow>
   (nat \<times> pthread_tls) c_result" where
  "destructor_loop call key 0 t = Inr (0, t)"
| "destructor_loop call key (Suc tries_left) t =
     bnd (rd (tls_data t) key) (\<lambda>d.
       if d = 0 then Inr (0, t)
       else bnd (rd (tls_destructors t) key) (\<lambda>f.
         if f = 0 then Inl NullDeref
         else bnd (destructor_loop call key tries_left (call f d t)) (\<lambda>(n, t'). Inr (Suc n, t'))))"

definition pthread_key_delete ::
  "(u32 \<Rightarrow> u32 \<Rightarrow> pthread_tls \<Rightarrow> pthread_tls) \<Rightarrow> nat \<Rightarrow> nat \<Rightarrow> pthread_tls list \<Rightarrow>
   (int \<times> pthread_tls list) c_result" where
  "pthread_key_delete call tid key st =
     (if MAX_KEYS_PER_THREAD < key then Inr (- EINVAL, st)
      else bnd (rd st tid) (\<lambda>t.
        if 32 \<le> key then Inl BadShift
        else if tls_valid t AND push_bit key 1 = 0 then Inr (- EINVAL, st)
        else bnd (destructor_loop call key PTHREAD_MAX_DESTRUCTOR_ITERATIONS
                    (t\<lparr>tls_valid := tls_valid t AND NOT (push_bit key 1)\<rparr>))
               (\<lambda>(n, t'). Inr (0, st[tid := t']))))"

definition pthread_getspecific :: "nat \<Rightarrow> nat \<Rightarrow> pthread_tls list \<Rightarrow> u32 c_result" where
  "pthread_getspecific tid key st = bnd (rd st tid) (\<lambda>t. rd (tls_data t) key)"

definition pthread_setspecific ::
  "nat \<Rightarrow> nat \<Rightarrow> u32 \<Rightarrow> pthread_tls list \<Rightarrow> (int \<times> pthread_tls list) c_result" where
  "pthread_setspecific tid key val st =
     bnd (rd st tid) (\<lambda>t. bnd (wr (tls_data t) key val)
       (\<lambda>d. Inr (0, st[tid := t\<lparr>tls_data := d\<rparr>])))"

section \<open>pthread_management.c\<close>

record per_thread =
  pt_tid :: u32
  pt_callingtid :: u32
  pt_funcptr :: u32
  pt_funcarg :: u32
  pt_retval :: u32

definition premain_thread0 :: "per_thread list \<Rightarrow> per_thread list c_result" where
  "premain_thread0 pt = bnd (rd pt 0) (\<lambda>p. Inr (pt[0 := p\<lparr>pt_funcptr := 0xFFFFFFFF\<rparr>]))"

text \<open>
  One round of a worker's loop, \<open>run f x\<close> being the result of the start routine at \<open>f\<close>
  on \<open>x\<close>: with no routine installed it keeps polling.
\<close>

definition premain_worker :: "(u32 \<Rightarrow> u32 \<Rightarrow> u32) \<Rightarrow> nat \<Rightarrow> per_thread list \<Rightarrow> per_thread list c_result" where
  "premain_worker run tid pt =
     bnd (rd pt tid) (\<lambda>p.
       if pt_funcptr p = 0 then Inr pt
       else Inr (pt[tid := p\<lparr>pt_retval := run (pt_funcptr p) (pt_funcarg p), pt_funcptr := 0\<rparr>]))"

text \<open>\<open>pthread_create\<close>: the search for an idle thread, and the writes that start it.\<close>

definition create_find :: "per_thread list \<Rightarrow> nat option" where
  "create_find pt = find (\<lambda>i. pt_funcptr (pt ! i) = 0) [0..<length pt]"

definition create_launch :: "nat \<Rightarrow> nat \<Rightarrow> u32 \<Rightarrow> u32 \<Rightarrow> per_thread list \<Rightarrow> per_thread list c_result" where
  "create_launch self i start_routine arg pt =
     bnd (rd pt i) (\<lambda>p. bnd (rd (pt[i := p\<lparr>pt_funcarg := arg\<rparr>]) self) (\<lambda>q.
       Inr (pt[i := p\<lparr>pt_funcarg := arg, pt_callingtid := pt_tid q, pt_tid := of_nat i,
                      pt_funcptr := start_routine\<rparr>])))"

definition pthread_create :: "nat \<Rightarrow> u32 \<Rightarrow> u32 \<Rightarrow> per_thread list \<Rightarrow>
   (int \<times> nat option \<times> per_thread list) c_result" where
  "pthread_create self start_routine arg pt =
     (case create_find pt of
        Some i \<Rightarrow> bnd (create_launch self i start_routine arg pt) (\<lambda>pt'. Inr (0, Some i, pt'))
      | None \<Rightarrow> Inr (EAGAIN, None, pt))"

text \<open>
  \<open>pthread_join\<close> against a table nobody changes: \<open>None\<close> while the thread is running.
\<close>

definition pthread_join :: "nat \<Rightarrow> nat \<Rightarrow> nat \<Rightarrow> per_thread list \<Rightarrow> (int \<times> u32 option) c_result option" where
  "pthread_join num_threads self thread pt =
     (if thread = self then Some (Inr (EDEADLK, None))
      else if num_threads \<le> thread then Some (Inr (ESRCH, None))
      else case rd pt thread of
             Inl e \<Rightarrow> Some (Inl e)
           | Inr p \<Rightarrow> if pt_funcptr p \<noteq> 0 then None else Some (Inr (0, Some (pt_retval p))))"

section \<open>Facts\<close>

lemma find_upt_Some_iff:
  "find P [0..<n] = Some i \<longleftrightarrow> i < n \<and> P i \<and> (\<forall>j<i. \<not> P j)"
  by (auto simp: find_Some_iff nth_upt)

lemma find_upt_None_iff: "find P [0..<n] = None \<longleftrightarrow> (\<forall>j<n. \<not> P j)"
  by (auto simp: find_None_iff)

section \<open>Properties\<close>

text \<open>
  a key creation hands out the least key the thread does not use, marks exactly that key
  as used, records its destructor and touches no other thread; it reports \<open>EAGAIN\<close> exactly
  when all 32 keys are in use.
\<close>

theorem key_create_least_free:
  assumes "tid < length st"
  shows "case pthread_key_create tid d st of
      Inl e \<Rightarrow> False
    | Inr ((r, k), st') \<Rightarrow>
        (case k of
           None \<Rightarrow> r = - EAGAIN \<and> st' = st \<and> (\<forall>i<32. bit (tls_valid (st ! tid)) i)
         | Some i \<Rightarrow> r = 0 \<and> i < 32 \<and> \<not> bit (tls_valid (st ! tid)) i \<and>
             (\<forall>j<i. bit (tls_valid (st ! tid)) j) \<and>
             (\<forall>j. bit (tls_valid (st' ! tid)) j \<longleftrightarrow> j = i \<or> bit (tls_valid (st ! tid)) j) \<and>
             tls_destructors (st' ! tid) = (tls_destructors (st ! tid))[i := d] \<and>
             tls_data (st' ! tid) = tls_data (st ! tid) \<and>
             (\<forall>u. u \<noteq> tid \<longrightarrow> st' ! u = st ! u))"
proof (cases "find (\<lambda>i. tls_valid (st ! tid) AND push_bit i 1 = 0) [0..<MAX_KEYS_PER_THREAD]")
  case None
  then have "\<forall>i<32. bit (tls_valid (st ! tid)) i"
    by (simp add: find_upt_None_iff and_exp_eq_0_iff_not_bit MAX_KEYS_PER_THREAD_def)
  then show ?thesis
    using assms None by (simp add: pthread_key_create_def upd_thread_def rd_in)
next
  case (Some i)
  then have "i < 32" "\<not> bit (tls_valid (st ! tid)) i" "\<forall>j<i. bit (tls_valid (st ! tid)) j"
    by (simp_all add: find_upt_Some_iff and_exp_eq_0_iff_not_bit MAX_KEYS_PER_THREAD_def)
  moreover have "bit (tls_valid (st ! tid) OR push_bit i 1) j \<longleftrightarrow> j = i \<or> bit (tls_valid (st ! tid)) j" for j
    using \<open>i < 32\<close> by (auto simp: bit_simps)
  ultimately show ?thesis
    using assms Some by (simp add: pthread_key_create_def upd_thread_def rd_in)
qed

definition two_threads :: "pthread_tls list" where
  "two_threads = replicate 2 \<lparr>tls_valid = 5, tls_destructors = replicate 32 0, tls_data = replicate 32 0\<rparr>"

theorem key_create_least_free_witness:
  "1 < length two_threads \<and> (\<exists>st'. pthread_key_create 1 9 two_threads = Inr ((0, Some 1), st') \<and>
     st' ! 0 = two_threads ! 0)"
proof -
  have h: "1 < length two_threads" by (simp add: two_threads_def)
  have f: "find (\<lambda>i. (5::u32) AND push_bit i 1 = 0) [0..<32] = Some 1"
    by (simp add: find_upt_Some_iff less_Suc_eq numeral_2_eq_2)
  then have "\<exists>st'. pthread_key_create 1 9 two_threads = Inr ((0, Some 1), st')"
    by (simp add: pthread_key_create_def upd_thread_def rd_def two_threads_def MAX_KEYS_PER_THREAD_def
        nth_replicate)
  with key_create_least_free [OF h, of 9] h show ?thesis by auto
qed

text \<open>
  thread-specific values: what a thread stores under a key is what it reads back, no
  other key of the thread and no other thread changes, and an index beyond the table is an
  access out of bounds, for lack of a check.
\<close>

theorem specific_roundtrip:
  assumes "tid < length st" and "length (tls_data (st ! tid)) = MAX_KEYS_PER_THREAD"
  shows "case pthread_setspecific tid key val st of
      Inl e \<Rightarrow> e = OutOfBounds \<and> MAX_KEYS_PER_THREAD \<le> key
    | Inr (r, st') \<Rightarrow> r = 0 \<and> key < MAX_KEYS_PER_THREAD \<and>
        pthread_getspecific tid key st' = Inr val \<and>
        (\<forall>u k. (u, k) \<noteq> (tid, key) \<longrightarrow> pthread_getspecific u k st' = pthread_getspecific u k st)"
proof (cases "key < MAX_KEYS_PER_THREAD")
  case True
  have "pthread_getspecific u k (st[tid := (st ! tid)\<lparr>tls_data := (tls_data (st ! tid))[key := val]\<rparr>]) =
      pthread_getspecific u k st" if "(u, k) \<noteq> (tid, key)" for u k
    using that assms True by (cases "u = tid") (auto simp: pthread_getspecific_def rd_def)
  then show ?thesis
    using assms True by (simp add: pthread_setspecific_def pthread_getspecific_def c_monad)
next
  case False
  then show ?thesis
    using assms by (simp add: pthread_setspecific_def c_monad wr_out)
qed

theorem specific_roundtrip_witness:
  "1 < length two_threads \<and> length (tls_data (two_threads ! 1)) = MAX_KEYS_PER_THREAD \<and>
   (\<exists>st'. pthread_setspecific 1 2 77 two_threads = Inr (0, st') \<and> pthread_getspecific 1 2 st' = Inr 77)"
proof -
  have h: "1 < length two_threads" "length (tls_data (two_threads ! 1)) = MAX_KEYS_PER_THREAD"
    by (simp_all add: two_threads_def MAX_KEYS_PER_THREAD_def)
  then have "\<exists>st'. pthread_setspecific 1 2 77 two_threads = Inr (0, st')"
    by (simp add: pthread_setspecific_def c_monad MAX_KEYS_PER_THREAD_def)
  with specific_roundtrip [OF h, of 2 77] h show ?thesis by auto
qed

text \<open>
  deleting a key: the bounds check lets the key 32 through to a shift by the width of the
  word; a used key whose value is NULL is simply freed; a used key with a value but without a
  destructor calls a null function pointer; and a destructor runs at most four times.
\<close>

lemma destructor_loop_bound: "destructor_loop call key n t = Inr (k, t') \<Longrightarrow> k \<le> n"
proof (induction n arbitrary: t k t')
  case (Suc n)
  then show ?case
    by (fastforce simp: bnd_eq_Inr rd_def split: if_splits)
qed simp

lemma destructor_loop_first:
  "destructor_loop call key PTHREAD_MAX_DESTRUCTOR_ITERATIONS t =
     bnd (rd (tls_data t) key) (\<lambda>d.
       if d = 0 then Inr (0, t)
       else bnd (rd (tls_destructors t) key) (\<lambda>f.
         if f = 0 then Inl NullDeref
         else bnd (destructor_loop call key 3 (call f d t)) (\<lambda>(n, t'). Inr (Suc n, t'))))"
proof -
  have "PTHREAD_MAX_DESTRUCTOR_ITERATIONS = Suc 3"
    by (simp add: PTHREAD_MAX_DESTRUCTOR_ITERATIONS_def)
  then have "destructor_loop call key PTHREAD_MAX_DESTRUCTOR_ITERATIONS t = destructor_loop call key (Suc 3) t"
    by simp
  also note destructor_loop.simps(2)
  finally show ?thesis .
qed

theorem key_delete_cases:
  assumes "tid < length st" and "length (tls_data (st ! tid)) = MAX_KEYS_PER_THREAD"
    and "length (tls_destructors (st ! tid)) = MAX_KEYS_PER_THREAD"
  shows "(32 < key \<longrightarrow> pthread_key_delete call tid key st = Inr (- EINVAL, st)) \<and>
    (key = 32 \<longrightarrow> pthread_key_delete call tid key st = Inl BadShift) \<and>
    (key < 32 \<longrightarrow>
      (if \<not> bit (tls_valid (st ! tid)) key
       then pthread_key_delete call tid key st = Inr (- EINVAL, st)
       else if tls_data (st ! tid) ! key = 0
       then pthread_key_delete call tid key st =
          Inr (0, st[tid := (st ! tid)\<lparr>tls_valid := tls_valid (st ! tid) AND NOT (push_bit key 1)\<rparr>])
       else if tls_destructors (st ! tid) ! key = 0
       then pthread_key_delete call tid key st = Inl NullDeref
       else True)) \<and>
    (\<forall>n t'. destructor_loop call key PTHREAD_MAX_DESTRUCTOR_ITERATIONS t = Inr (n, t') \<longrightarrow> n \<le> 4)"
proof -
  have "n \<le> 4" if "destructor_loop call key PTHREAD_MAX_DESTRUCTOR_ITERATIONS t = Inr (n, t')" for n t'
    using destructor_loop_bound [OF that] by (simp add: PTHREAD_MAX_DESTRUCTOR_ITERATIONS_def)
  then show ?thesis
    using assms
    by (auto simp: pthread_key_delete_def MAX_KEYS_PER_THREAD_def c_monad and_exp_eq_0_iff_not_bit
        destructor_loop_first [of call key "(st ! tid)\<lparr>tls_valid := _\<rparr>"])
qed

theorem key_delete_cases_witness:
  "1 < length two_threads \<and> pthread_key_delete (\<lambda>_ _ t. t) 1 32 two_threads = Inl BadShift \<and>
   pthread_key_delete (\<lambda>_ _ t. t) 1 1 two_threads = Inr (- EINVAL, two_threads)"
proof -
  have h: "1 < length two_threads" "length (tls_data (two_threads ! 1)) = MAX_KEYS_PER_THREAD"
    "length (tls_destructors (two_threads ! 1)) = MAX_KEYS_PER_THREAD"
    by (simp_all add: two_threads_def MAX_KEYS_PER_THREAD_def)
  have "\<not> bit (tls_valid (two_threads ! 1)) 1"
    by (simp add: two_threads_def bit_numeral_rec)
  with key_delete_cases [OF h, of 32 "\<lambda>_ _ t. t"] key_delete_cases [OF h, of 1 "\<lambda>_ _ t. t"] h
  show ?thesis by auto
qed

text \<open>
  one-time initialisation: however often \<open>pthread_once\<close> is called on a control word
  initialised with \<open>PTHREAD_ONCE_INIT\<close>, every call returns 0 and the initialisation routine
  of the first call, and no other, has run.
\<close>

fun once_calls :: "('s \<Rightarrow> 's) list \<Rightarrow> u32 \<times> 's \<Rightarrow> int list \<times> u32 \<times> 's" where
  "once_calls [] x = ([], x)"
| "once_calls (f # fs) x =
     (case pthread_once f x of (r, y) \<Rightarrow> case once_calls fs y of (rs, z) \<Rightarrow> (r # rs, z))"

lemma once_calls_done: "c \<noteq> 0 \<Longrightarrow> once_calls fs (c, s) = (replicate (length fs) 0, c, s)"
  by (induction fs) (simp_all add: pthread_once_def compare_and_swap_def)

theorem pthread_once_exactly_once:
  "once_calls (f # fs) (0, s) = (replicate (Suc (length fs)) 0, 1, f s)"
  by (simp add: pthread_once_def compare_and_swap_def once_calls_done)

text \<open>
  a condition variable works once. After a successful broadcast every later broadcast
  or signal fails with \<open>EINVAL\<close> and leaves it unchanged, and a waiter that polls it passes at
  once, so a second wait is not blocked; only destroying and initialising it again makes it
  usable.
\<close>

theorem cond_one_shot:
  assumes "pthread_cond_broadcast c = (0, c')"
  shows "pthread_cond_broadcast c' = (- EINVAL, c') \<and> pthread_cond_signal c' = (- EINVAL, c') \<and>
    cond_poll (c_broadcast c' # vs) = Some vs \<and> cond_poll (c_broadcast c # vs) = cond_poll vs \<and>
    (\<exists>c''. pthread_cond_init c' 0 = (0, c'') \<and> fst (pthread_cond_broadcast c'') = 0) \<and>
    fst (pthread_cond_broadcast (snd (pthread_cond_init (snd (pthread_cond_destroy c')) 0))) = 0"
  using assms
  by (auto simp: pthread_cond_broadcast_def pthread_cond_signal_def pthread_cond_init_def
      pthread_cond_destroy_def errno_defs split: if_splits)

theorem cond_one_shot_witness:
  "pthread_cond_broadcast \<lparr>c_broadcast = 1, c_mutex = 64\<rparr> = (0, \<lparr>c_broadcast = 2, c_mutex = 64\<rparr>) \<and>
   pthread_cond_signal \<lparr>c_broadcast = 2, c_mutex = 64\<rparr> = (- EINVAL, \<lparr>c_broadcast = 2, c_mutex = 64\<rparr>)"
proof -
  have h: "pthread_cond_broadcast \<lparr>c_broadcast = 1, c_mutex = 64\<rparr> = (0, \<lparr>c_broadcast = 2, c_mutex = 64\<rparr>)"
    by (simp add: pthread_cond_broadcast_def)
  from cond_one_shot [OF h] h show ?thesis by simp
qed

text \<open>
  C35: creating, running and joining a thread, for any number of hardware threads and any size of
  the table. Creation picks the least entry of the table without a routine and never one that is
  busy, and fails with \<open>EAGAIN\<close> exactly when every entry has one. If the entry belongs to a hardware
  thread, joining it from another thread waits until the thread has run its routine and then delivers
  the routine's result. The table has an entry for every thread of the largest chip: if the entry is
  beyond the hardware threads of this one, creation reports success all the same, no thread polls the
  entry, and joining returns \<open>ESRCH\<close> at once.
\<close>

lemma create_find_Some:
  "create_find pt = Some i \<longleftrightarrow>
     i < length pt \<and> pt_funcptr (pt ! i) = 0 \<and> (\<forall>j<i. pt_funcptr (pt ! j) \<noteq> 0)"
  unfolding create_find_def find_upt_Some_iff by auto

theorem create_run_join:
  assumes "self < length pt" and "pt_funcptr (pt ! self) \<noteq> 0" and "start \<noteq> 0"
  shows "case pthread_create self start arg pt of
      Inl e \<Rightarrow> False
    | Inr (r, None, pt') \<Rightarrow> r = EAGAIN \<and> pt' = pt \<and> (\<forall>i<length pt. pt_funcptr (pt ! i) \<noteq> 0)
    | Inr (r, Some i, pt') \<Rightarrow> r = 0 \<and> i < length pt \<and> pt_funcptr (pt ! i) = 0 \<and>
        (\<forall>j<i. pt_funcptr (pt ! j) \<noteq> 0) \<and> (\<forall>j. j \<noteq> i \<longrightarrow> pt' ! j = pt ! j) \<and>
        (if i < num_threads
         then pthread_join num_threads self i pt' = None \<and>
           (\<exists>pt''. premain_worker run i pt' = Inr pt'' \<and>
              pthread_join num_threads self i pt'' = Some (Inr (0, Some (run start arg))))
         else pthread_join num_threads self i pt' = Some (Inr (ESRCH, None)))"
proof (cases "create_find pt")
  case None
  then have "\<forall>i<length pt. pt_funcptr (pt ! i) \<noteq> 0"
    by (simp add: create_find_def find_upt_None_iff)
  with None show ?thesis
    by (simp add: pthread_create_def)
next
  case (Some i)
  then have i: "i < length pt" "pt_funcptr (pt ! i) = 0" "\<forall>j<i. pt_funcptr (pt ! j) \<noteq> 0" "i \<noteq> self"
    using assms(2) by (auto simp: create_find_Some)
  let ?pt = "pt[i := (pt ! i)\<lparr>pt_funcarg := arg, pt_callingtid := pt_tid (pt ! self),
      pt_tid := of_nat i, pt_funcptr := start\<rparr>]"
  have "create_launch self i start arg pt = Inr ?pt"
    using i assms by (simp add: create_launch_def c_monad)
  with Some i assms show ?thesis
    by (simp add: pthread_create_def c_monad pthread_join_def premain_worker_def)
qed

definition idle_pool :: "per_thread list" where
  "idle_pool = [\<lparr>pt_tid = 0, pt_callingtid = 0, pt_funcptr = 0xFFFFFFFF, pt_funcarg = 0, pt_retval = 0\<rparr>,
     \<lparr>pt_tid = 0, pt_callingtid = 0, pt_funcptr = 0, pt_funcarg = 0, pt_retval = 0\<rparr>]"

theorem create_run_join_witness:
  "0 < length idle_pool \<and> pt_funcptr (idle_pool ! 0) \<noteq> 0 \<and>
   (\<exists>pt'. pthread_create 0 4096 21 idle_pool = Inr (0, Some 1, pt') \<and>
     (\<exists>pt''. premain_worker (\<lambda>f x. x + x) 1 pt' = Inr pt'' \<and>
        pthread_join 2 0 1 pt'' = Some (Inr (0, Some 42))) \<and>
     pthread_join 1 0 1 pt' = Some (Inr (ESRCH, None)))"
proof -
  have h: "0 < length idle_pool" "pt_funcptr (idle_pool ! 0) \<noteq> 0" "(4096 :: u32) \<noteq> 0"
    by (simp_all add: idle_pool_def)
  have "create_find idle_pool = Some 1"
    by (simp add: create_find_Some idle_pool_def)
  then have "\<exists>pt'. pthread_create 0 4096 21 idle_pool = Inr (0, Some 1, pt')"
    by (simp add: pthread_create_def create_launch_def c_monad idle_pool_def)
  with create_run_join [OF h, where num_threads = 2 and arg = 21 and run = "\<lambda>f x. x + x"]
    create_run_join [OF h, where num_threads = 1 and arg = 21 and run = "\<lambda>f x. x + x"] h(1,2)
  show ?thesis by auto
qed

text \<open>
  two creations race. When two threads both search before either of them has written,
  they choose the same hardware thread, both report success with the same thread number, and
  the first start routine is overwritten before it can run.
\<close>

theorem create_race_loses_a_thread:
  assumes "create_find pt = Some i" and "a < length pt" and "b < length pt"
  shows "\<exists>pt1 pt2. create_launch a i f x pt = Inr pt1 \<and> create_launch b i g y pt1 = Inr pt2 \<and>
    pt_funcptr (pt2 ! i) = g \<and> pt_funcarg (pt2 ! i) = y \<and> (\<forall>j. j \<noteq> i \<longrightarrow> pt2 ! j = pt ! j)"
proof -
  from assms(1) have "i < length pt" by (simp add: create_find_Some)
  with assms(2,3) show ?thesis by (simp add: create_launch_def c_monad)
qed

theorem create_race_loses_a_thread_witness:
  "create_find idle_pool = Some 1 \<and> (\<exists>pt1 pt2. create_launch 0 1 4096 1 idle_pool = Inr pt1 \<and>
     create_launch 0 1 8192 2 pt1 = Inr pt2 \<and> pt_funcptr (pt2 ! 1) = 8192)"
proof -
  have h: "create_find idle_pool = Some 1" "0 < length idle_pool"
    by (simp_all add: create_find_Some idle_pool_def)
  from create_race_loses_a_thread [OF h(1) h(2) h(2), of 4096 1 8192 2] h(1) show ?thesis by auto
qed

end
