(* ===== verification/Rigel_Barrier.thy ===== *)
theory Rigel_Barrier
  imports Prelude
begin

text \<open>
  The chip-wide barriers of libpar (barrier.c for one thread per core, barrier-mt.c for
  several): a thread counts itself in at its cluster, the last thread of a cluster counts the
  cluster in, the last cluster publishes the sense of the round and every thread waits until
  the published sense is its own, which it then flips. The parts of \<open>RigelBarrier_EnterFull\<close>
  between two accesses of shared memory are functions, and a step relation interleaves them
  for all threads of the chip. The load-linked/store-conditional loop is one atomic increment.
  The theory also holds the contract \<open>phased_barrier\<close> the barrier of the x86 emulation shares.
\<close>

section \<open>State\<close>

text \<open>
  A pointer to a heap array is the list of its elements, and NULL is the empty list. The
  padded counter \<open>rigel_line_aligned_t\<close> is its word.
\<close>

record barrier_info =
  local_complete :: "u32 list"
  global_compete :: u32
  local_sense :: "u32 list"
  global_reduce_done :: u32


definition RigelBarrier_Destroy :: "barrier_info \<Rightarrow> barrier_info" where
  "RigelBarrier_Destroy info = info\<lparr>local_complete := [], local_sense := []\<rparr>"

text \<open>
  The multithreaded barrier differs in the size of \<open>local_sense\<close>, one entry per thread, and
  in the line flushes after its writes, which do not change the values.
\<close>

definition RigelBarrierMT_Init ::
  "nat \<Rightarrow> nat \<Rightarrow> u32 list \<Rightarrow> u32 list \<Rightarrow> barrier_info \<Rightarrow> barrier_info c_result" where
  "RigelBarrierMT_Init numthreads numclusters mem1 mem2 info =
     (let info = info\<lparr>local_complete := mem1, global_compete := 0, local_sense := mem2,
                     global_reduce_done := 1\<rparr>
      in bnd (for_n numclusters (\<lambda>i xs. wr xs i 0) (local_complete info)) (\<lambda>lc.
         bnd (for_n numthreads (\<lambda>i xs. wr xs i 0) (local_sense info)) (\<lambda>ls.
         Inr (info\<lparr>local_complete := lc, local_sense := ls\<rparr>))))"

definition RigelBarrierMT_Destroy :: "barrier_info \<Rightarrow> barrier_info" where
  "RigelBarrierMT_Destroy info = info\<lparr>local_complete := [], local_sense := []\<rparr>"

section \<open>Entering\<close>

text \<open>
  The four accesses of an entry. The first two report whether the masked count is zero, that
  is whether the branch to \<open>BAR_globalinc\<close> or \<open>BAR_wakeup\<close> is taken.
\<close>

definition bar_localinc :: "u32 \<Rightarrow> nat \<Rightarrow> barrier_info \<Rightarrow> barrier_info \<times> bool" where
  "bar_localinc lmask cluster info =
     (let v = local_complete info ! cluster + 1
      in (info\<lparr>local_complete := (local_complete info)[cluster := v]\<rparr>, v AND lmask = 0))"

definition bar_globalinc :: "nat \<Rightarrow> barrier_info \<Rightarrow> barrier_info \<times> bool" where
  "bar_globalinc numclusters info =
     (let v = global_compete info + 1
      in (info\<lparr>global_compete := v\<rparr>, v AND (of_nat numclusters - 1) = 0))"

definition bar_wakeup :: "nat \<Rightarrow> barrier_info \<Rightarrow> barrier_info" where
  "bar_wakeup t info = info\<lparr>global_reduce_done := local_sense info ! t\<rparr>"

definition bar_released :: "nat \<Rightarrow> barrier_info \<Rightarrow> bool" where
  "bar_released t info \<longleftrightarrow> local_sense info ! t = global_reduce_done info"

definition bar_flip :: "nat \<Rightarrow> barrier_info \<Rightarrow> barrier_info" where
  "bar_flip t info = info\<lparr>local_sense := (local_sense info)[t := c_not (local_sense info ! t)]\<rparr>"

datatype bar_pc = BOut | BGlobal | BWake | BWait

record bar_sys =
  bs_info :: barrier_info
  bs_pc :: "nat \<Rightarrow> bar_pc"
  bs_entered :: "nat \<Rightarrow> nat"

text \<open>
  One access of thread \<open>t < N\<close> on cluster \<open>cl t\<close>. \<open>bs_entered\<close> counts the entries of a
  thread; nothing the code does depends on it.
\<close>

inductive bar_step :: "u32 \<Rightarrow> nat \<Rightarrow> nat \<Rightarrow> (nat \<Rightarrow> nat) \<Rightarrow> bar_sys \<Rightarrow> bar_sys \<Rightarrow> bool"
  for lmask :: u32 and C :: nat and N :: nat and cl :: "nat \<Rightarrow> nat" where
  bar_enter: "t < N \<Longrightarrow> bs_pc s t = BOut \<Longrightarrow> bar_localinc lmask (cl t) (bs_info s) = (info, final) \<Longrightarrow>
     bar_step lmask C N cl s (s\<lparr>bs_info := info,
       bs_pc := (bs_pc s)(t := if final then BGlobal else BWait),
       bs_entered := (bs_entered s)(t := Suc (bs_entered s t))\<rparr>)"
| bar_global: "t < N \<Longrightarrow> bs_pc s t = BGlobal \<Longrightarrow> bar_globalinc C (bs_info s) = (info, final) \<Longrightarrow>
     bar_step lmask C N cl s (s\<lparr>bs_info := info,
       bs_pc := (bs_pc s)(t := if final then BWake else BWait)\<rparr>)"
| bar_wake: "t < N \<Longrightarrow> bs_pc s t = BWake \<Longrightarrow>
     bar_step lmask C N cl s (s\<lparr>bs_info := bar_wakeup t (bs_info s), bs_pc := (bs_pc s)(t := BWait)\<rparr>)"
| bar_leave: "t < N \<Longrightarrow> bs_pc s t = BWait \<Longrightarrow> bar_released t (bs_info s) \<Longrightarrow>
     bar_step lmask C N cl s (s\<lparr>bs_info := bar_flip t (bs_info s), bs_pc := (bs_pc s)(t := BOut)\<rparr>)"


definition RigelBarrierMT_EnterFull ::
  "nat \<Rightarrow> nat \<Rightarrow> nat \<Rightarrow> (nat \<Rightarrow> nat) \<Rightarrow> bar_sys \<Rightarrow> bar_sys \<Rightarrow> bool" where
  "RigelBarrierMT_EnterFull threads_per_cluster numclusters numthreads cl =
     bar_step (of_nat threads_per_cluster - 1) numclusters numthreads cl"

text \<open>
  The start: the barrier as its initialisation leaves it on memory of the requested sizes, and
  nobody has entered.
\<close>

definition bar_init ::
  "(nat \<Rightarrow> nat \<Rightarrow> u32 list \<Rightarrow> u32 list \<Rightarrow> barrier_info \<Rightarrow> barrier_info c_result) \<Rightarrow> nat \<Rightarrow> nat \<Rightarrow>
   bar_sys \<Rightarrow> bool" where
  "bar_init initialise C N s \<longleftrightarrow>
     (\<exists>mem1 mem2 info. length mem1 = C \<and> length mem2 = N \<and>
        initialise N C mem1 mem2 info = Inr (bs_info s)) \<and>
     (\<forall>t. bs_pc s t = BOut \<and> bs_entered s t = 0)"

section \<open>The contract of a barrier\<close>

text \<open>
  A barrier for the threads below \<open>N\<close> runs in rounds: at any moment each thread has entered
  \<open>g\<close> or \<open>g + 1\<close> times, where \<open>g\<close> rounds are complete, and a thread that is outside has not
  entered the current round.
\<close>

definition barrier_phase :: "nat \<Rightarrow> (nat \<Rightarrow> nat) \<Rightarrow> (nat \<Rightarrow> bool) \<Rightarrow> nat \<Rightarrow> bool" where
  "barrier_phase N entered outside g \<longleftrightarrow>
     (\<forall>t<N. (entered t = g \<or> entered t = Suc g) \<and> (outside t \<longrightarrow> entered t = g))"

locale phased_barrier = inductive_invariant init step inv
  for init :: "'s \<Rightarrow> bool" and step :: "'s \<Rightarrow> 's \<Rightarrow> bool" and inv :: "'s \<Rightarrow> bool" +
  fixes N :: nat and entered :: "'s \<Rightarrow> nat \<Rightarrow> nat" and outside :: "'s \<Rightarrow> nat \<Rightarrow> bool"
    and work :: "'s \<Rightarrow> nat"
  assumes phase: "inv s \<Longrightarrow> \<exists>g. barrier_phase N (entered s) (outside s) g"
    and progress: "inv s \<Longrightarrow> 0 < N \<Longrightarrow> \<forall>t<N. \<not> outside s t \<Longrightarrow> \<exists>s'. step s s' \<and> work s' < work s"
begin

lemma nobody_passes_early:
  "reachable init step s \<Longrightarrow> t < N \<Longrightarrow> u < N \<Longrightarrow> outside s t \<Longrightarrow> entered s t \<le> entered s u"
  using phase [OF reachable_inv, of s] by (fastforce simp: barrier_phase_def)

lemma at_most_one_ahead:
  assumes "reachable init step s" "t < N" "u < N"
  shows "entered s t \<le> Suc (entered s u)"
proof -
  obtain g where "barrier_phase N (entered s) (outside s) g"
    using phase [OF reachable_inv [OF assms(1)]] by blast
  then have "entered s t \<le> Suc g" "g \<le> entered s u"
    using assms by (auto simp: barrier_phase_def)
  then show ?thesis by simp
qed

lemma opens: "reachable init step s \<Longrightarrow> 0 < N \<Longrightarrow> \<exists>s'. step\<^sup>*\<^sup>* s s' \<and> (\<exists>t<N. outside s' t)"
proof (induction "work s" arbitrary: s rule: less_induct)
  case less
  show ?case
  proof (cases "\<exists>t<N. outside s t")
    case False
    then obtain s1 where s1: "step s s1" "work s1 < work s"
      using progress [OF reachable_inv] less.prems by blast
    then obtain s2 where "step\<^sup>*\<^sup>* s1 s2" "\<exists>t<N. outside s2 t"
      using less.hyps [OF s1(2)] less.prems by (blast intro: reachable.reach_step)
    with s1(1) show ?thesis by (blast intro: converse_rtranclp_into_rtranclp)
  qed blast
qed

end

section \<open>The two-level barrier keeps the contract\<close>

text \<open>
  \<open>bar_arrived\<close>: the threads of a cluster in the round after \<open>g\<close>; \<open>bar_counted\<close>: the
  clusters whose last thread has counted the cluster in.
\<close>

definition bar_arrived :: "nat \<Rightarrow> (nat \<Rightarrow> nat) \<Rightarrow> nat \<Rightarrow> bar_sys \<Rightarrow> nat \<Rightarrow> nat set" where
  "bar_arrived N cl g s c = {t. t < N \<and> cl t = c \<and> bs_entered s t = Suc g}"

definition bar_counted :: "nat \<Rightarrow> nat \<Rightarrow> nat \<Rightarrow> (nat \<Rightarrow> nat) \<Rightarrow> nat \<Rightarrow> bar_sys \<Rightarrow> nat set" where
  "bar_counted C T N cl g s =
     {c. c < C \<and> card (bar_arrived N cl g s c) = T \<and> (\<forall>t<N. cl t = c \<longrightarrow> bs_pc s t \<noteq> BGlobal)}"

text \<open>The senses: the round and the thread's position fix every one of them.\<close>

definition bar_senses :: "nat \<Rightarrow> nat \<Rightarrow> bar_sys \<Rightarrow> bool" where
  "bar_senses N g s \<longleftrightarrow> length (local_sense (bs_info s)) = N \<and>
     global_reduce_done (bs_info s) = of_bool (even g) \<and>
     (\<forall>t<N. local_sense (bs_info s) ! t = of_bool (odd (bs_entered s t) = (bs_pc s t = BOut)))"

definition bar_places :: "nat \<Rightarrow> nat \<Rightarrow> bar_sys \<Rightarrow> bool" where
  "bar_places N g s \<longleftrightarrow>
     (\<forall>t<N. (bs_entered s t = g \<or> bs_entered s t = Suc g) \<and>
       (bs_pc s t = BOut \<longrightarrow> bs_entered s t = g) \<and>
       (bs_pc s t \<in> {BGlobal, BWake} \<longrightarrow> bs_entered s t = Suc g))"

definition bar_counts :: "nat \<Rightarrow> nat \<Rightarrow> nat \<Rightarrow> (nat \<Rightarrow> nat) \<Rightarrow> nat \<Rightarrow> bar_sys \<Rightarrow> bool" where
  "bar_counts C T N cl g s \<longleftrightarrow> length (local_complete (bs_info s)) = C \<and>
     (\<forall>c<C. local_complete (bs_info s) ! c = of_nat (g * T + card (bar_arrived N cl g s c))) \<and>
     global_compete (bs_info s) = of_nat (g * C + card (bar_counted C T N cl g s))"

definition bar_completers :: "nat \<Rightarrow> nat \<Rightarrow> (nat \<Rightarrow> nat) \<Rightarrow> nat \<Rightarrow> bar_sys \<Rightarrow> bool" where
  "bar_completers T N cl g s \<longleftrightarrow>
     (\<forall>t<N. bs_pc s t = BGlobal \<longrightarrow> card (bar_arrived N cl g s (cl t)) = T \<and>
        (\<forall>u<N. bs_pc s u = BGlobal \<longrightarrow> cl u = cl t \<longrightarrow> u = t))"

definition bar_waker :: "nat \<Rightarrow> nat \<Rightarrow> nat \<Rightarrow> (nat \<Rightarrow> nat) \<Rightarrow> nat \<Rightarrow> bar_sys \<Rightarrow> bool" where
  "bar_waker C T N cl g s \<longleftrightarrow>
     (\<forall>t<N. bs_pc s t = BWake \<longrightarrow> bar_counted C T N cl g s = {..<C} \<and>
        (\<forall>u<N. bs_pc s u = BWake \<longrightarrow> u = t)) \<and>
     (bar_counted C T N cl g s = {..<C} \<longrightarrow> (\<exists>t<N. bs_pc s t = BWake))"

definition bar_round :: "nat \<Rightarrow> nat \<Rightarrow> nat \<Rightarrow> (nat \<Rightarrow> nat) \<Rightarrow> nat \<Rightarrow> bar_sys \<Rightarrow> bool" where
  "bar_round C T N cl g s \<longleftrightarrow> bar_senses N g s \<and> bar_places N g s \<and> bar_counts C T N cl g s \<and>
     bar_completers T N cl g s \<and> bar_waker C T N cl g s"

definition bar_inv :: "nat \<Rightarrow> nat \<Rightarrow> nat \<Rightarrow> (nat \<Rightarrow> nat) \<Rightarrow> bar_sys \<Rightarrow> bool" where
  "bar_inv C T N cl s \<longleftrightarrow> (\<exists>g. bar_round C T N cl g s)"

text \<open>What a thread inside still has to do before it is out.\<close>

primrec bar_weight :: "bar_pc \<Rightarrow> nat" where
  "bar_weight BOut = 0"
| "bar_weight BWait = 1"
| "bar_weight BWake = 2"
| "bar_weight BGlobal = 3"

definition bar_work :: "nat \<Rightarrow> bar_sys \<Rightarrow> nat" where
  "bar_work N s = (\<Sum>t<N. bar_weight (bs_pc s t))"

lemma bar_work_less:
  assumes "t < N" "bar_weight (bs_pc s' t) < bar_weight (bs_pc s t)"
    and "\<And>u. u \<noteq> t \<Longrightarrow> bs_pc s' u = bs_pc s u"
  shows "bar_work N s' < bar_work N s"
  unfolding bar_work_def using assms by (intro sum_less_at [of t]) simp_all

lemma bar_work_step:
  assumes "bar_step m C N cl s s'" "t < N" "bar_weight (bs_pc s' t) < bar_weight (bs_pc s t)"
    and "\<And>u. u \<noteq> t \<Longrightarrow> bs_pc s' u = bs_pc s u"
  shows "\<exists>s'. bar_step m C N cl s s' \<and> bar_work N s' < bar_work N s"
  using assms(1) bar_work_less [OF assms(2-4)] by blast

text \<open>The shape of the chip: \<open>C\<close> clusters of \<open>T\<close> threads, both powers of two.\<close>

locale chip =
  fixes C T N :: nat and cl :: "nat \<Rightarrow> nat" and a b :: nat
  assumes T_def: "T = 2 ^ a" "a \<le> 32" and C_def: "C = 2 ^ b" "b \<le> 32"
    and cl_less: "t < N \<Longrightarrow> cl t < C"
    and cluster_size: "c < C \<Longrightarrow> card {t. t < N \<and> cl t = c} = T"
begin

lemma T_pos: "0 < T" and C_pos: "0 < C"
  by (simp_all add: T_def C_def)

lemma finite_arrived [simp]: "finite (bar_arrived N cl g s c)"
  by (simp add: bar_arrived_def)

lemma finite_counted [simp]: "finite (bar_counted C T N cl g s)"
  by (simp add: bar_counted_def)

lemma arrived_le: "c < C \<Longrightarrow> card (bar_arrived N cl g s c) \<le> T"
  using cluster_size [of c] card_mono [of "{t. t < N \<and> cl t = c}" "bar_arrived N cl g s c"]
  by (auto simp: bar_arrived_def)

lemma arrived_all:
  assumes "card (bar_arrived N cl g s (cl t)) = T" "t < N"
  shows "bs_entered s t = Suc g"
proof -
  have "bar_arrived N cl g s (cl t) = {u. u < N \<and> cl u = cl t}"
    using cluster_size [OF cl_less [OF assms(2)]] assms(1)
    by (intro card_subset_eq) (auto simp: bar_arrived_def)
  then show ?thesis using assms(2) by (auto simp: bar_arrived_def)
qed

lemma arrived_cong:
  "bs_entered s' = bs_entered s \<Longrightarrow> bar_arrived N cl g s' = bar_arrived N cl g s"
  by (auto simp: bar_arrived_def fun_eq_iff)

text \<open>The counters decide who is last, whatever number of rounds has wrapped them around.\<close>

lemma last_of_cluster:
  assumes "n < T"
  shows "((of_nat (g * T + n) + 1 :: u32) AND (of_nat T - 1) = 0) \<longleftrightarrow> Suc n = T"
proof -
  have "(of_nat (g * T + n) + 1 :: u32) = of_nat (g * T + Suc n)" by (simp add: ac_simps)
  then show ?thesis
    using of_nat_and_mask_eq_0_iff [OF T_def(2), of "g * T + Suc n", folded T_def(1)]
    by (simp only: round_complete_iff [OF assms])
qed

lemma last_of_chip:
  assumes "n < C"
  shows "((of_nat (g * C + n) + 1 :: u32) AND (of_nat C - 1) = 0) \<longleftrightarrow> Suc n = C"
proof -
  have "(of_nat (g * C + n) + 1 :: u32) = of_nat (g * C + Suc n)" by (simp add: ac_simps)
  then show ?thesis
    using of_nat_and_mask_eq_0_iff [OF C_def(2), of "g * C + Suc n", folded C_def(1)]
    by (simp only: round_complete_iff [OF assms])
qed

text \<open>Entering.\<close>

lemma enter_arrived:
  assumes "t < N" "bs_entered s t = g"
    and "s' = s\<lparr>bs_info := info, bs_pc := pcs, bs_entered := (bs_entered s)(t := Suc (bs_entered s t))\<rparr>"
  shows "bar_arrived N cl g s' c =
      (if c = cl t then insert t (bar_arrived N cl g s c) else bar_arrived N cl g s c)"
    and "t \<notin> bar_arrived N cl g s c"
  using assms by (auto simp: bar_arrived_def)

lemma enter_room:
  assumes "t < N" "bs_entered s t = g"
  shows "card (bar_arrived N cl g s (cl t)) < T"
proof -
  have "t \<in> {u. u < N \<and> cl u = cl t}" "t \<notin> bar_arrived N cl g s (cl t)"
    "bar_arrived N cl g s (cl t) \<subseteq> {u. u < N \<and> cl u = cl t}"
    using assms by (auto simp: bar_arrived_def)
  then have "bar_arrived N cl g s (cl t) \<subset> {u. u < N \<and> cl u = cl t}" by blast
  then have "card (bar_arrived N cl g s (cl t)) < card {u. u < N \<and> cl u = cl t}"
    by (rule psubset_card_mono [rotated]) simp
  then show ?thesis by (simp only: cluster_size [OF cl_less [OF assms(1)]])
qed

lemma counted_iff:
  "c \<in> bar_counted C T N cl g s \<longleftrightarrow>
     c < C \<and> card (bar_arrived N cl g s c) = T \<and> (\<forall>t<N. bs_pc s t = BGlobal \<longrightarrow> cl t \<noteq> c)"
  by (auto simp: bar_counted_def)

lemma enter_kept:
  assumes inv: "bar_round C T N cl g s"
    and t: "t < N" "bs_pc s t = BOut"
    and step: "bar_localinc (of_nat T - 1) (cl t) (bs_info s) = (info, final)"
    and s': "s' = s\<lparr>bs_info := info, bs_pc := (bs_pc s)(t := if final then BGlobal else BWait),
       bs_entered := (bs_entered s)(t := Suc (bs_entered s t))\<rparr>"
  shows "bar_round C T N cl g s'"
proof -
  have inv: "bar_senses N g s" "bar_places N g s" "bar_counts C T N cl g s" "bar_completers T N cl g s"
    "bar_waker C T N cl g s"
    using inv by (simp_all add: bar_round_def)
  have g: "bs_entered s t = g" using inv(2) t by (simp add: bar_places_def)
  note arr = enter_arrived [OF t(1) g s']
  note room = enter_room [OF t(1) g]
  have lc: "local_complete (bs_info s) ! cl t = of_nat (g * T + card (bar_arrived N cl g s (cl t)))"
    using inv(3) cl_less [OF t(1)] by (simp add: bar_counts_def)
  have final: "final \<longleftrightarrow> Suc (card (bar_arrived N cl g s (cl t))) = T"
    and info: "info = (bs_info s)\<lparr>local_complete := (local_complete (bs_info s))[cl t :=
      local_complete (bs_info s) ! cl t + 1]\<rparr>"
    using step last_of_cluster [OF room] by (auto simp: bar_localinc_def Let_def lc)
  have card': "card (bar_arrived N cl g s' c) =
      (if c = cl t then Suc (card (bar_arrived N cl g s c)) else card (bar_arrived N cl g s c))" for c
    using arr by simp
  have pcG: "bs_pc s' u = BGlobal \<longleftrightarrow> (if u = t then final else bs_pc s u = BGlobal)"
    and pcW: "bs_pc s' u = BWake \<longleftrightarrow> bs_pc s u = BWake" for u
    using t by (auto simp: s')
  have other: "cl u \<noteq> cl t" if "u < N" "bs_pc s u = BGlobal" for u
    using that inv(4) room unfolding bar_completers_def by (metis less_irrefl)
  have counted: "bar_counted C T N cl g s' = bar_counted C T N cl g s"
    unfolding set_eq_iff counted_iff card' pcG using room final t by (auto split: if_splits)
  have "bar_senses N g s'"
    using inv(1) t g by (auto simp: bar_senses_def s' info)
  moreover have "bar_places N g s'"
    using inv(2) g by (auto simp: bar_places_def s')
  moreover have "bar_counts C T N cl g s'"
    using inv(3) unfolding bar_counts_def counted card'
    by (auto simp: s' info nth_list_update lc ac_simps)
  moreover have "bar_completers T N cl g s'"
    unfolding bar_completers_def card' pcG
  proof (intro allI impI conjI)
    fix u assume u: "u < N" "if u = t then final else bs_pc s u = BGlobal"
    show "(if cl u = cl t then Suc (card (bar_arrived N cl g s (cl u)))
        else card (bar_arrived N cl g s (cl u))) = T"
      using u other [of u] final inv(4) by (auto simp: bar_completers_def split: if_splits)
    fix v assume v: "v < N" "if v = t then final else bs_pc s v = BGlobal" "cl v = cl u"
    show "v = u"
      using u v other [of u] other [of v] inv(4) unfolding bar_completers_def by (metis (full_types))
  qed
  moreover have "bar_waker C T N cl g s'"
    using inv(5) unfolding bar_waker_def counted pcW .
  ultimately show ?thesis by (simp add: bar_round_def)
qed

lemma global_kept:
  assumes inv: "bar_round C T N cl g s"
    and t: "t < N" "bs_pc s t = BGlobal"
    and step: "bar_globalinc C (bs_info s) = (info, final)"
    and s': "s' = s\<lparr>bs_info := info, bs_pc := (bs_pc s)(t := if final then BWake else BWait)\<rparr>"
  shows "bar_round C T N cl g s'"
proof -
  have inv: "bar_senses N g s" "bar_places N g s" "bar_counts C T N cl g s" "bar_completers T N cl g s"
    "bar_waker C T N cl g s"
    using inv by (simp_all add: bar_round_def)
  have arr: "bar_arrived N cl g s' = bar_arrived N cl g s" by (rule arrived_cong) (simp add: s')
  have full: "card (bar_arrived N cl g s (cl t)) = T"
    and only: "\<And>u. u < N \<Longrightarrow> bs_pc s u = BGlobal \<Longrightarrow> cl u = cl t \<Longrightarrow> u = t"
    using inv(4) t unfolding bar_completers_def by blast+
  have new: "cl t \<notin> bar_counted C T N cl g s" using t by (auto simp: counted_iff)
  have pcG: "bs_pc s' u = BGlobal \<longleftrightarrow> u \<noteq> t \<and> bs_pc s u = BGlobal"
    and pcW: "bs_pc s' u = BWake \<longleftrightarrow> (if u = t then final else bs_pc s u = BWake)" for u
    by (auto simp: s')
  have counted: "bar_counted C T N cl g s' = insert (cl t) (bar_counted C T N cl g s)"
    unfolding set_eq_iff insert_iff counted_iff arr pcG using full only cl_less [OF t(1)] by blast
  have sub: "bar_counted C T N cl g s \<subset> {..<C}"
    using new cl_less [OF t(1)] by (auto simp: bar_counted_def)
  then have room: "card (bar_counted C T N cl g s) < C"
    using psubset_card_mono [of "{..<C}"] by simp
  have gc: "global_compete (bs_info s) = of_nat (g * C + card (bar_counted C T N cl g s))"
    using inv(3) by (simp add: bar_counts_def)
  have final: "final \<longleftrightarrow> Suc (card (bar_counted C T N cl g s)) = C"
    and info: "info = (bs_info s)\<lparr>global_compete := global_compete (bs_info s) + 1\<rparr>"
    using step last_of_chip [OF room] by (auto simp: bar_globalinc_def Let_def gc)
  have all: "insert (cl t) (bar_counted C T N cl g s) = {..<C} \<longleftrightarrow> final"
    using card_insert_disjoint [OF finite_counted new] sub cl_less [OF t(1)] unfolding final
    by (metis card_lessThan card_subset_eq finite_lessThan insert_subset lessThan_iff psubset_imp_subset)
  have nowake: "bs_pc s u \<noteq> BWake" if "u < N" for u
    using that inv(5) sub unfolding bar_waker_def by blast
  have "bar_senses N g s'"
    using inv(1) t by (auto simp: bar_senses_def s' info)
  moreover have "bar_places N g s'"
    using inv(2) t by (auto simp: bar_places_def s')
  moreover have "bar_counts C T N cl g s'"
    using inv(3) new unfolding bar_counts_def counted arr
    by (auto simp: s' info gc ac_simps)
  moreover have "bar_completers T N cl g s'"
    using inv(4) unfolding bar_completers_def arr pcG by blast
  moreover have "bar_waker C T N cl g s'"
    using nowake t unfolding bar_waker_def counted all pcW by (simp split: if_splits) blast
  ultimately show ?thesis by (simp add: bar_round_def)
qed

lemma wake_kept:
  assumes inv: "bar_round C T N cl g s"
    and t: "t < N" "bs_pc s t = BWake"
    and s': "s' = s\<lparr>bs_info := bar_wakeup t (bs_info s), bs_pc := (bs_pc s)(t := BWait)\<rparr>"
  shows "bar_round C T N cl (Suc g) s'"
proof -
  have inv: "bar_senses N g s" "bar_places N g s" "bar_counts C T N cl g s" "bar_completers T N cl g s"
    "bar_waker C T N cl g s"
    using inv by (simp_all add: bar_round_def)
  have counted: "bar_counted C T N cl g s = {..<C}"
    and only: "\<And>u. u < N \<Longrightarrow> bs_pc s u = BWake \<Longrightarrow> u = t"
    using inv(5) t unfolding bar_waker_def by blast+
  then have full: "\<And>c. c < C \<Longrightarrow> card (bar_arrived N cl g s c) = T"
    and noglobal: "\<And>u. u < N \<Longrightarrow> bs_pc s u \<noteq> BGlobal"
    using cl_less unfolding set_eq_iff counted_iff lessThan_iff by blast+
  then have entered: "\<And>u. u < N \<Longrightarrow> bs_entered s u = Suc g"
    using arrived_all cl_less by blast
  have wait: "bs_pc s' u = BWait" if "u < N" for u
  proof -
    have "bs_pc s u \<noteq> BOut" using inv(2) entered that by (auto simp: bar_places_def)
    with noglobal [OF that] only [OF that] show ?thesis by (cases "bs_pc s u") (auto simp: s')
  qed
  have arr: "bar_arrived N cl (Suc g) s' c = {}" for c
    using entered by (auto simp: bar_arrived_def s')
  have counted': "bar_counted C T N cl (Suc g) s' = {}"
    using T_pos by (auto simp: bar_counted_def arr)
  have "global_reduce_done (bs_info s') = of_bool (odd g)"
    using inv(1) t entered [OF t(1)] by (simp add: bar_senses_def s' bar_wakeup_def)
  moreover have "bs_entered s' = bs_entered s" "local_sense (bs_info s') = local_sense (bs_info s)"
    by (simp_all add: s' bar_wakeup_def)
  moreover have "local_sense (bs_info s) ! u = of_bool (odd g)" if "u < N" for u
  proof -
    have "bs_pc s u \<noteq> BOut" using inv(2) entered that by (auto simp: bar_places_def)
    with inv(1) that entered [OF that] show ?thesis by (simp add: bar_senses_def)
  qed
  ultimately have "bar_senses N (Suc g) s'"
    using inv(1) entered wait by (simp add: bar_senses_def)
  moreover have "bar_places N (Suc g) s'"
    using wait entered by (auto simp: bar_places_def s')
  moreover have "bar_counts C T N cl (Suc g) s'"
    using inv(3) full counted unfolding bar_counts_def counted' arr
    by (auto simp: s' bar_wakeup_def ac_simps)
  moreover have "bar_completers T N cl (Suc g) s'"
    using wait unfolding bar_completers_def by auto
  moreover have "bar_waker C T N cl (Suc g) s'"
    using wait C_pos unfolding bar_waker_def counted' by auto
  ultimately show ?thesis by (simp add: bar_round_def)
qed

lemma leave_kept:
  assumes inv: "bar_round C T N cl g s"
    and t: "t < N" "bs_pc s t = BWait" "bar_released t (bs_info s)"
    and s': "s' = s\<lparr>bs_info := bar_flip t (bs_info s), bs_pc := (bs_pc s)(t := BOut)\<rparr>"
  shows "bar_round C T N cl g s'"
proof -
  have inv: "bar_senses N g s" "bar_places N g s" "bar_counts C T N cl g s" "bar_completers T N cl g s"
    "bar_waker C T N cl g s"
    using inv by (simp_all add: bar_round_def)
  have "even (bs_entered s t) = even g"
    using inv(1) t by (auto simp: bar_released_def bar_senses_def split: if_splits)
  then have g: "bs_entered s t = g" using inv(2) t(1) by (auto simp: bar_places_def)
  have arr: "bar_arrived N cl g s' = bar_arrived N cl g s" by (rule arrived_cong) (simp add: s')
  have pcG: "bs_pc s' u = BGlobal \<longleftrightarrow> bs_pc s u = BGlobal"
    and pcW: "bs_pc s' u = BWake \<longleftrightarrow> bs_pc s u = BWake" for u
    using t by (auto simp: s')
  have counted: "bar_counted C T N cl g s' = bar_counted C T N cl g s"
    unfolding set_eq_iff counted_iff arr pcG by blast
  have "bar_senses N g s'"
    using inv(1) t g by (auto simp: bar_senses_def s' bar_flip_def nth_list_update)
  moreover have "bar_places N g s'"
    using inv(2) g by (auto simp: bar_places_def s')
  moreover have "bar_counts C T N cl g s'"
    using inv(3) unfolding bar_counts_def counted arr by (simp add: s' bar_flip_def)
  moreover have "bar_completers T N cl g s'"
    using inv(4) unfolding bar_completers_def arr pcG .
  moreover have "bar_waker C T N cl g s'"
    using inv(5) unfolding bar_waker_def counted pcW .
  ultimately show ?thesis by (simp add: bar_round_def)
qed

lemma inv_kept:
  assumes "bar_inv C T N cl s" "bar_step (of_nat T - 1) C N cl s s'"
  shows "bar_inv C T N cl s'"
proof -
  obtain g where "bar_round C T N cl g s"
    using assms(1) by (auto simp: bar_inv_def)
  note kept = enter_kept [OF this] global_kept [OF this] wake_kept [OF this] leave_kept [OF this]
  from assms(2) have "bar_round C T N cl g s' \<or> bar_round C T N cl (Suc g) s'"
    by cases (simp_all only: kept simp_thms)
  then show ?thesis by (auto simp: bar_inv_def)
qed

lemma init_inv:
  assumes "bar_init RigelBarrierMT_Init C N s"
  shows "bar_inv C T N cl s"
proof -
  have info: "local_complete (bs_info s) = replicate C 0" "local_sense (bs_info s) = replicate N 0"
    "global_compete (bs_info s) = 0" "global_reduce_done (bs_info s) = 1"
    and start: "\<And>t. bs_pc s t = BOut" "\<And>t. bs_entered s t = 0"
    using assms by (auto simp: bar_init_def RigelBarrierMT_Init_def for_n_fill bnd_eq_Inr
        dest!: sym [of _ "bs_info s"])
  have arr: "bar_arrived N cl 0 s c = {}" for c by (simp add: bar_arrived_def start)
  have counted: "bar_counted C T N cl 0 s = {}" using T_pos by (auto simp: bar_counted_def arr)
  have "bar_round C T N cl 0 s"
    using C_pos unfolding bar_round_def bar_senses_def bar_places_def bar_counts_def bar_completers_def
      bar_waker_def counted
    by (auto simp: info start arr)
  then show ?thesis by (auto simp: bar_inv_def)
qed

lemma bar_progress:
  assumes "bar_inv C T N cl s" "0 < N" "\<forall>t<N. bs_pc s t \<noteq> BOut"
  shows "\<exists>s'. bar_step (of_nat T - 1) C N cl s s' \<and> bar_work N s' < bar_work N s"
proof -
  obtain g where inv: "bar_senses N g s" "bar_places N g s" "bar_counts C T N cl g s"
    "bar_completers T N cl g s" "bar_waker C T N cl g s"
    using assms(1) by (auto simp: bar_inv_def bar_round_def)
  consider t where "t < N" "bs_pc s t = BGlobal" | t where "t < N" "bs_pc s t = BWake"
    | "\<forall>t<N. bs_pc s t = BWait"
    using assms(3) by (metis bar_pc.exhaust)
  then show ?thesis
  proof cases
    case (1 t)
    obtain info final where "bar_globalinc C (bs_info s) = (info, final)" by fastforce
    from bar_global [OF 1 this] show ?thesis
      by (rule bar_work_step [OF _ 1(1)]) (auto simp: 1)
  next
    case (2 t)
    from bar_wake [OF 2] show ?thesis
      by (rule bar_work_step [OF _ 2(1)]) (auto simp: 2)
  next
    case 3
    have "\<exists>t<N. bs_entered s t = g"
    proof (rule ccontr)
      assume "\<not> ?thesis"
      then have all: "\<forall>t<N. bs_entered s t = Suc g" using inv(2) by (auto simp: bar_places_def)
      then have "bar_arrived N cl g s c = {t. t < N \<and> cl t = c}" for c
        by (auto simp: bar_arrived_def)
      with 3 have "bar_counted C T N cl g s = {..<C}"
        by (intro set_eqI) (auto simp: counted_iff cluster_size)
      then show False using inv(5) 3 by (auto simp: bar_waker_def)
    qed
    then obtain t where t: "t < N" "bs_entered s t = g" by blast
    then have "bar_released t (bs_info s)"
      using inv(1) 3 by (simp add: bar_senses_def bar_released_def)
    from bar_leave [OF t(1) 3 [rule_format, OF t(1)] this] show ?thesis
      by (rule bar_work_step [OF _ t(1)]) (auto simp: 3 t)
  qed
qed

end

sublocale chip \<subseteq> phased_barrier "bar_init RigelBarrierMT_Init C N" "bar_step (of_nat T - 1) C N cl"
  "bar_inv C T N cl" N bs_entered "\<lambda>s t. bs_pc s t = BOut" "bar_work N"
proof
  show "\<exists>g. barrier_phase N (bs_entered s) (\<lambda>t. bs_pc s t = BOut) g" if "bar_inv C T N cl s" for s
    using that by (fastforce simp: bar_inv_def bar_round_def bar_places_def barrier_phase_def)
qed (use init_inv inv_kept bar_progress in auto)

context chip
begin

lemmas chip_safe = nobody_passes_early
lemmas chip_lockstep = at_most_one_ahead
lemmas chip_opens = opens

end

text \<open>
  Chips whose threads are numbered cluster by cluster; the simulated chip of 16 clusters with
  8 cores each is one of them.
\<close>

lemma cluster_interval:
  "c < C \<Longrightarrow> 0 < T \<Longrightarrow> {t. t < C * T \<and> t div T = c} = {c * T..<Suc c * T}" for c C T :: nat
proof (intro set_eqI iffI)
  fix t
  assume "c < C" "0 < T" "t \<in> {c * T..<Suc c * T}"
  then have "t div T = c" by (auto intro!: div_nat_eqI simp: ac_simps)
  moreover from \<open>c < C\<close> have "Suc c * T \<le> C * T" by (intro mult_right_mono) auto
  ultimately show "t \<in> {t. t < C * T \<and> t div T = c}"
    using \<open>t \<in> {c * T..<Suc c * T}\<close> by auto
qed (auto simp: dividend_less_div_times)

lemma chip_div:
  assumes "a \<le> 32" "b \<le> 32"
  shows "chip (2 ^ b) (2 ^ a) (2 ^ b * 2 ^ a) (\<lambda>t. t div 2 ^ a) a b"
proof
  show "t div 2 ^ a < 2 ^ b" if "t < 2 ^ b * 2 ^ a" for t :: nat
    using that by (rule less_mult_imp_div_less)
  show "card {t. t < 2 ^ b * 2 ^ a \<and> t div 2 ^ a = c} = 2 ^ a" if "c < 2 ^ b" for c :: nat
    by (simp add: cluster_interval [OF that])
qed (use assms in auto)

interpretation rigel_chip: chip "2 ^ 4" "2 ^ 3" "2 ^ 4 * 2 ^ 3" "\<lambda>t. t div 2 ^ 3" 3 4
  by (rule chip_div) simp_all


section \<open>Properties\<close>

text \<open>
  C6: nobody passes the multithreaded barrier early. On a chip of \<open>2 ^ b\<close> clusters with
  \<open>2 ^ a\<close> threads each, in every interleaving of the threads' memory accesses and over any
  number of rounds (the two counters wrap around modulo 2 to the 32), a thread that has left
  its \<open>k\<close>-th barrier finds that every thread of the chip has entered the barrier \<open>k\<close> times,
  and no thread is ever more than one round ahead of another.
\<close>

theorem barrier_nobody_passes_early:
  assumes "a \<le> 32" and "b \<le> 32"
    and "reachable (bar_init RigelBarrierMT_Init (2 ^ b) (2 ^ b * 2 ^ a))
      (RigelBarrierMT_EnterFull (2 ^ a) (2 ^ b) (2 ^ b * 2 ^ a) (\<lambda>t. t div 2 ^ a)) s"
    and "t < 2 ^ b * 2 ^ a" and "u < 2 ^ b * 2 ^ a"
  shows "(if bs_pc s t = BOut then bs_entered s t \<le> bs_entered s u
      else bs_entered s t \<le> Suc (bs_entered s u))"
proof -
  note chip = chip_div [OF assms(1,2)]
  from assms(3) show ?thesis
    unfolding RigelBarrierMT_EnterFull_def
    using chip.chip_safe [OF chip _ assms(4,5)] chip.chip_lockstep [OF chip _ assms(4,5)]
    by simp
qed

definition one_waits :: bar_sys where
  "one_waits = \<lparr>bs_info = \<lparr>local_complete = [1], global_compete = 0, local_sense = [0, 0],
       global_reduce_done = 1\<rparr>,
     bs_pc = (\<lambda>_. BOut)(1 := BWait), bs_entered = (\<lambda>_. 0)(1 := 1)\<rparr>"

lemma one_waits_reachable:
  "reachable (bar_init RigelBarrierMT_Init 1 2) (RigelBarrierMT_EnterFull 2 1 2 (\<lambda>t. t div 2)) one_waits"
proof -
  let ?s0 = "\<lparr>bs_info = \<lparr>local_complete = [0], global_compete = 0, local_sense = [0, 0],
       global_reduce_done = 1\<rparr>, bs_pc = (\<lambda>_. BOut), bs_entered = (\<lambda>_. 0)\<rparr>"
  have "RigelBarrierMT_Init 2 1 [7] [7, 7] (bs_info ?s0) = Inr (bs_info ?s0)"
    by (simp add: RigelBarrierMT_Init_def c_monad numeral_2_eq_2)
  then have "bar_init RigelBarrierMT_Init 1 2 ?s0"
    unfolding bar_init_def by (intro conjI exI [of _ "[7]"] exI [of _ "[7, 7]"]) auto
  moreover have "RigelBarrierMT_EnterFull 2 1 2 (\<lambda>t. t div 2) ?s0 one_waits"
    using bar_enter [of 1 2 ?s0 1 "\<lambda>t. t div 2" _ False 1]
    by (simp add: RigelBarrierMT_EnterFull_def bar_localinc_def Let_def one_waits_def)
  ultimately show ?thesis by (blast intro: reachable.intros)
qed

theorem barrier_nobody_passes_early_witness:
  "bs_pc one_waits 0 = BOut \<and> bs_entered one_waits 0 \<le> bs_entered one_waits 1 \<and>
   bs_entered one_waits 1 \<le> Suc (bs_entered one_waits 0)"
  using barrier_nobody_passes_early [of 1 0 one_waits 0 1] barrier_nobody_passes_early [of 1 0 one_waits 1 0]
    one_waits_reachable
  by (simp add: one_waits_def)




text \<open>
  the mask needs a power of two. With three clusters of one thread each, thread 0 runs
  through the whole barrier alone: the first cluster's count 1 is already zero under the mask
  2, so it is out while the other two threads have not entered.
\<close>

theorem barrier_three_clusters_early:
  "\<exists>s. reachable (bar_init RigelBarrierMT_Init 3 3) (RigelBarrierMT_EnterFull 1 3 3 id) s \<and>
     bs_pc s 0 = BOut \<and> bs_entered s 0 = 1 \<and> bs_entered s 1 = 0 \<and> bs_entered s 2 = 0"
proof -
  let ?step = "RigelBarrierMT_EnterFull 1 3 3 id"
  let ?st = "\<lambda>lc gc ls grd pc n. \<lparr>bs_info = \<lparr>local_complete = [lc, 0, 0], global_compete = gc,
      local_sense = [ls, 0, 0], global_reduce_done = grd\<rparr>,
      bs_pc = (\<lambda>_. BOut)(0 := pc), bs_entered = (\<lambda>_. 0)(0 := n)\<rparr>"
  note defs = RigelBarrierMT_EnterFull_def bar_localinc_def bar_globalinc_def bar_wakeup_def
    bar_released_def bar_flip_def Let_def
  have "RigelBarrierMT_Init 3 3 [7, 7, 7] [7, 7, 7] (bs_info (?st 0 0 0 1 BOut 0)) =
      Inr (bs_info (?st 0 0 0 1 BOut 0))"
    by (simp add: RigelBarrierMT_Init_def c_monad numeral_3_eq_3)
  then have "bar_init RigelBarrierMT_Init 3 3 (?st 0 0 0 1 BOut 0)"
    unfolding bar_init_def by (intro conjI exI [of _ "[7, 7, 7]"]) auto
  moreover have "?step (?st 0 0 0 1 BOut 0) (?st 1 0 0 1 BGlobal 1)"
    using bar_enter [of 0 3 "?st 0 0 0 1 BOut 0" 0 id _ True 3] by (simp add: defs fun_upd_idem)
  moreover have "?step (?st 1 0 0 1 BGlobal 1) (?st 1 1 0 1 BWake 1)"
    using bar_global [of 0 3 "?st 1 0 0 1 BGlobal 1" 3 _ True 0 id] by (simp add: defs)
  moreover have "?step (?st 1 1 0 1 BWake 1) (?st 1 1 0 0 BWait 1)"
    using bar_wake [of 0 3 "?st 1 1 0 1 BWake 1" 0 3 id] by (simp add: defs)
  moreover have "?step (?st 1 1 0 0 BWait 1) (?st 1 1 1 0 BOut 1)"
    using bar_leave [of 0 3 "?st 1 1 0 0 BWait 1" 0 3 id] by (simp add: defs)
  ultimately have "reachable (bar_init RigelBarrierMT_Init 3 3) ?step (?st 1 1 1 0 BOut 1)"
    by (rule reachable.reach_step [OF reachable.reach_step [OF reachable.reach_step
        [OF reachable.reach_step [OF reachable.reach_init]]]])
  then show ?thesis by (intro exI [of _ "?st 1 1 1 0 BOut 1"]) simp
qed

end
