(* ===== verification/Task_Types.thy ===== *)
theory Task_Types
  imports Prelude
begin

text \<open>
  Task descriptors and return codes of the task queues. The declarations of
  include/rigel-tasks.h and of the x86 header lib/taskmodel-x86/include/rigel-tasks.h agree on
  them.
\<close>

record tq_task_desc =
  td_v1 :: u32
  td_v2 :: u32
  td_begin :: u32
  td_end :: u32

datatype tq_ret_type =
    TQ_RET_SUCCESS
  | TQ_RET_BLOCK
  | TQ_RET_END
  | TQ_RET_OVERFLOW
  | TQ_RET_UNDERFLOW
  | TQ_RET_INIT_FAIL
  | TQ_RET_SYNC

end
