(* ===== verification/X86_Tasks.thy ===== *)
theory X86_Tasks
  imports Rigel_Barrier Task_Types
begin

text \<open>
  The x86 emulation of the task model (lib/taskmodel-x86/lib/librtm-x86.c): its
  sense-reversing barrier, the initialisation, and the global task queue with its implicit
  barrier. The statics of the file are one record. Each critical section under a mutex is one
  function, and step relations interleave the critical sections of the emulated cores.
\<close>

section \<open>Configuration: include/rigel-tasks.h\<close>

definition TASK_GROUP_SIZE :: nat where "TASK_GROUP_SIZE = 1"
definition NUM_CLUSTERS :: nat where "NUM_CLUSTERS = 1"
definition CORES_PER_CLUSTER :: nat where "CORES_PER_CLUSTER = 8"
definition CORES_TOTAL :: nat where "CORES_TOTAL = NUM_CLUSTERS * CORES_PER_CLUSTER"

lemma CORES_TOTAL_eq [simp]: "CORES_TOTAL = 8"
  by (simp add: CORES_TOTAL_def NUM_CLUSTERS_def CORES_PER_CLUSTER_def)

section \<open>State\<close>

text \<open>
  The statics. \<open>tq_data\<close> keeps the task descriptor of each entry, the only part of an entry
  the file uses; the empty list is NULL.
\<close>

record x86_rtm =
  done_init :: int
  barrier_count :: int
  barrier_global_sense :: u32
  barrier_local_sense :: "u32 list"
  numcores :: int
  numclusters :: int
  tq_head_index :: u32
  tq_tail_index :: u32
  tq_data :: "tq_task_desc list"
  tq_index :: "u32 list"
  cluster_head :: "u32 list"
  cluster_wait_count :: "int list"
  wait_count :: int
  tq_size :: u32
  tq_count :: int
  localsense :: "u32 list"
  globalsense :: u32

text \<open>
  \<open>X86_TASK_MODEL_INIT\<close> up to the creation of the core threads.
\<close>

definition X86_TASK_MODEL_INIT :: "x86_rtm \<Rightarrow> x86_rtm c_result" where
  "X86_TASK_MODEL_INIT s =
     (let s = s\<lparr>barrier_count := 0, barrier_global_sense := 0\<rparr> in
      bnd (for_n CORES_TOTAL (\<lambda>i xs. wr xs i 0) (barrier_local_sense s)) (\<lambda>bl.
      bnd (for_n NUM_CLUSTERS (\<lambda>i xs. wr xs i 0) (cluster_wait_count s)) (\<lambda>cw.
      bnd (for_n CORES_TOTAL (\<lambda>i xs. wr xs i 0) (localsense s)) (\<lambda>ls.
      Inr (s\<lparr>barrier_local_sense := bl, cluster_wait_count := cw, localsense := ls,
             globalsense := 0, wait_count := 0\<rparr>)))))"

definition RigelGetClusterNum :: "nat \<Rightarrow> nat" where
  "RigelGetClusterNum core_num = core_num div CORES_PER_CLUSTER"

definition RigelGetNumCores :: nat where
  "RigelGetNumCores = CORES_TOTAL"

section \<open>The barrier: rtmx86_enter_barrier\<close>

definition xb_flip :: "nat \<Rightarrow> x86_rtm \<Rightarrow> x86_rtm" where
  "xb_flip core s =
     s\<lparr>barrier_local_sense := (barrier_local_sense s)[core := c_not (barrier_local_sense s ! core)]\<rparr>"

definition xb_count :: "nat \<Rightarrow> x86_rtm \<Rightarrow> x86_rtm" where
  "xb_count core s =
     (let s = s\<lparr>barrier_count := barrier_count s + 1\<rparr>
      in if barrier_count s = int CORES_TOTAL
         then s\<lparr>barrier_count := 0, barrier_global_sense := barrier_local_sense s ! core\<rparr>
         else s)"

definition xb_open :: "nat \<Rightarrow> x86_rtm \<Rightarrow> bool" where
  "xb_open core s \<longleftrightarrow> barrier_local_sense s ! core = barrier_global_sense s"

datatype xb_pc = XOut | XFlipped | XWaiting

record xb_sys =
  xb_st :: x86_rtm
  xb_pcs :: "nat \<Rightarrow> xb_pc"
  xb_entered :: "nat \<Rightarrow> nat"

inductive rtmx86_enter_barrier :: "xb_sys \<Rightarrow> xb_sys \<Rightarrow> bool" where
  xb_enter: "i < CORES_TOTAL \<Longrightarrow> xb_pcs s i = XOut \<Longrightarrow>
     rtmx86_enter_barrier s (s\<lparr>xb_st := xb_flip i (xb_st s), xb_pcs := (xb_pcs s)(i := XFlipped),
       xb_entered := (xb_entered s)(i := Suc (xb_entered s i))\<rparr>)"
| xb_add: "i < CORES_TOTAL \<Longrightarrow> xb_pcs s i = XFlipped \<Longrightarrow>
     rtmx86_enter_barrier s (s\<lparr>xb_st := xb_count i (xb_st s), xb_pcs := (xb_pcs s)(i := XWaiting)\<rparr>)"
| xb_leave: "i < CORES_TOTAL \<Longrightarrow> xb_pcs s i = XWaiting \<Longrightarrow> xb_open i (xb_st s) \<Longrightarrow>
     rtmx86_enter_barrier s (s\<lparr>xb_pcs := (xb_pcs s)(i := XOut)\<rparr>)"

definition xb_init :: "xb_sys \<Rightarrow> bool" where
  "xb_init s \<longleftrightarrow>
     (\<exists>s0. length (barrier_local_sense s0) = CORES_TOTAL \<and> X86_TASK_MODEL_INIT s0 = Inr (xb_st s)) \<and>
     (\<forall>i. xb_pcs s i = XOut \<and> xb_entered s i = 0)"

definition xb_waiting :: "nat \<Rightarrow> xb_sys \<Rightarrow> nat set" where
  "xb_waiting g s = {i. i < CORES_TOTAL \<and> xb_pcs s i = XWaiting \<and> xb_entered s i = Suc g}"

definition xb_round :: "nat \<Rightarrow> xb_sys \<Rightarrow> bool" where
  "xb_round g s \<longleftrightarrow>
     (\<forall>i<CORES_TOTAL. (xb_entered s i = g \<or> xb_entered s i = Suc g) \<and>
        (xb_pcs s i = XOut \<longrightarrow> xb_entered s i = g) \<and> (xb_pcs s i = XFlipped \<longrightarrow> xb_entered s i = Suc g) \<and>
        barrier_local_sense (xb_st s) ! i = of_bool (odd (xb_entered s i))) \<and>
     length (barrier_local_sense (xb_st s)) = CORES_TOTAL \<and>
     barrier_global_sense (xb_st s) = of_bool (odd g) \<and>
     barrier_count (xb_st s) = int (card (xb_waiting g s)) \<and> card (xb_waiting g s) < CORES_TOTAL"

definition xb_inv :: "xb_sys \<Rightarrow> bool" where
  "xb_inv s \<longleftrightarrow> (\<exists>g. xb_round g s)"

primrec xb_weight :: "xb_pc \<Rightarrow> nat" where
  "xb_weight XOut = 0"
| "xb_weight XWaiting = 1"
| "xb_weight XFlipped = 2"

definition xb_work :: "xb_sys \<Rightarrow> nat" where
  "xb_work s = (\<Sum>i<CORES_TOTAL. xb_weight (xb_pcs s i))"

lemma finite_waiting [simp]: "finite (xb_waiting g s)"
  by (simp add: xb_waiting_def)

lemma xb_enter_kept:
  assumes inv: "xb_round g s" and i: "i < CORES_TOTAL" "xb_pcs s i = XOut"
    and s': "s' = s\<lparr>xb_st := xb_flip i (xb_st s), xb_pcs := (xb_pcs s)(i := XFlipped),
       xb_entered := (xb_entered s)(i := Suc (xb_entered s i))\<rparr>"
  shows "xb_round g s'"
proof -
  have "xb_waiting g s' = xb_waiting g s" using i by (auto simp: xb_waiting_def s')
  then show ?thesis
    using inv i by (auto simp: xb_round_def s' xb_flip_def nth_list_update)
qed

lemma xb_leave_kept:
  assumes inv: "xb_round g s" and i: "i < CORES_TOTAL" "xb_pcs s i = XWaiting" "xb_open i (xb_st s)"
    and s': "s' = s\<lparr>xb_pcs := (xb_pcs s)(i := XOut)\<rparr>"
  shows "xb_round g s'"
proof -
  have "odd (xb_entered s i) = odd g"
    using inv i unfolding xb_round_def xb_open_def by (metis of_bool_eq_iff)
  then have g: "xb_entered s i = g" using inv i(1) unfolding xb_round_def by (metis even_Suc)
  have "xb_waiting g s' = xb_waiting g s" using i g by (auto simp: xb_waiting_def s')
  then show ?thesis using inv i g by (auto simp: xb_round_def s')
qed

lemma xb_add_kept:
  assumes inv: "xb_round g s" and i: "i < CORES_TOTAL" "xb_pcs s i = XFlipped"
    and s': "s' = s\<lparr>xb_st := xb_count i (xb_st s), xb_pcs := (xb_pcs s)(i := XWaiting)\<rparr>"
  shows "xb_round g s' \<or> xb_round (Suc g) s'"
proof -
  have e: "xb_entered s i = Suc g" using inv i by (simp add: xb_round_def)
  have w: "xb_waiting g s' = insert i (xb_waiting g s)" and new: "i \<notin> xb_waiting g s"
    using i e by (auto simp: xb_waiting_def s')
  then have card': "card (xb_waiting g s') = Suc (card (xb_waiting g s))" by simp
  show ?thesis
  proof (cases "card (xb_waiting g s') = CORES_TOTAL")
    case False
    with card' inv i e have "xb_round g s'"
      by (auto simp: xb_round_def xb_count_def Let_def s')
    then show ?thesis ..
  next
    case True
    have "xb_waiting g s' = {..<CORES_TOTAL}"
      using True by (intro card_subset_eq) (auto simp: xb_waiting_def)
    then have all: "xb_entered s' j = Suc g" "xb_pcs s' j = XWaiting" if "j < CORES_TOTAL" for j
      using that unfolding xb_waiting_def by blast+
    then have "xb_waiting (Suc g) s' = {}" by (auto simp: xb_waiting_def)
    moreover have "xb_entered s' = xb_entered s" by (simp add: s')
    moreover have "barrier_count (xb_st s) + 1 = int CORES_TOTAL"
      using inv True card' by (simp add: xb_round_def)
    ultimately have "xb_round (Suc g) s'"
      using inv i e all by (auto simp: xb_round_def xb_count_def Let_def s' split: if_splits)
    then show ?thesis ..
  qed
qed

lemma xb_inv_kept:
  assumes "xb_inv s" "rtmx86_enter_barrier s s'"
  shows "xb_inv s'"
proof -
  obtain g where "xb_round g s" using assms(1) by (auto simp: xb_inv_def)
  note kept = xb_enter_kept [OF this] xb_add_kept [OF this] xb_leave_kept [OF this]
  from assms(2) have "xb_round g s' \<or> xb_round (Suc g) s'"
    by cases (simp_all only: kept simp_thms)
  then show ?thesis by (auto simp: xb_inv_def)
qed

lemma xb_init_inv: "xb_init s \<Longrightarrow> xb_inv s"
proof -
  assume "xb_init s"
  then have "barrier_local_sense (xb_st s) = replicate 8 0" "barrier_global_sense (xb_st s) = 0"
    "barrier_count (xb_st s) = 0" "\<And>i. xb_pcs s i = XOut" "\<And>i. xb_entered s i = 0"
    by (auto simp: xb_init_def X86_TASK_MODEL_INIT_def for_n_fill bnd_eq_Inr dest!: sym [of _ "xb_st s"])
  then have "xb_round 0 s" by (simp add: xb_round_def xb_waiting_def)
  then show ?thesis by (auto simp: xb_inv_def)
qed

lemma xb_work_step:
  assumes "rtmx86_enter_barrier s s'" "i < CORES_TOTAL" "xb_weight (xb_pcs s' i) < xb_weight (xb_pcs s i)"
    and "\<And>j. j \<noteq> i \<Longrightarrow> xb_pcs s' j = xb_pcs s j"
  shows "\<exists>s'. rtmx86_enter_barrier s s' \<and> xb_work s' < xb_work s"
proof -
  have "xb_work s' < xb_work s" unfolding xb_work_def using assms(2-4) by (intro sum_less_at [of i]) simp_all
  with assms(1) show ?thesis by blast
qed

lemma xb_progress:
  assumes "xb_inv s" "\<forall>i<CORES_TOTAL. xb_pcs s i \<noteq> XOut"
  shows "\<exists>s'. rtmx86_enter_barrier s s' \<and> xb_work s' < xb_work s"
proof -
  obtain g where g: "xb_round g s" using assms(1) by (auto simp: xb_inv_def)
  consider i where "i < CORES_TOTAL" "xb_pcs s i = XFlipped" | "\<forall>i<CORES_TOTAL. xb_pcs s i = XWaiting"
    using assms(2) by (metis xb_pc.exhaust)
  then show ?thesis
  proof cases
    case (1 i)
    from xb_add [OF 1] show ?thesis by (rule xb_work_step [OF _ 1(1)]) (auto simp: 1)
  next
    case 2
    have "\<exists>i<CORES_TOTAL. xb_entered s i = g"
    proof (rule ccontr)
      assume "\<not> ?thesis"
      then have "\<forall>i<CORES_TOTAL. xb_entered s i = Suc g" using g by (auto simp: xb_round_def)
      with 2 have "xb_waiting g s = {..<CORES_TOTAL}" unfolding xb_waiting_def by auto
      with g show False by (simp add: xb_round_def)
    qed
    then obtain i where i: "i < CORES_TOTAL" "xb_entered s i = g" by blast
    then have "xb_open i (xb_st s)" using g by (simp add: xb_round_def xb_open_def)
    from xb_leave [OF i(1) 2 [rule_format, OF i(1)] this] show ?thesis
      by (rule xb_work_step [OF _ i(1)]) (use 2 i in auto)
  qed
qed

interpretation xb: phased_barrier xb_init rtmx86_enter_barrier xb_inv CORES_TOTAL xb_entered
  "\<lambda>s i. xb_pcs s i = XOut" xb_work
proof
  show "\<exists>g. barrier_phase CORES_TOTAL (xb_entered s) (\<lambda>i. xb_pcs s i = XOut) g" if "xb_inv s" for s
    using that by (fastforce simp: xb_inv_def xb_round_def barrier_phase_def)
qed (use xb_init_inv xb_inv_kept xb_progress in auto)

text \<open>
  Completing the newest round \<open>n\<close>: what is left to do of it, and that some core can do a part of it
  as long as anything is left.
\<close>

definition xb_newest :: "nat \<Rightarrow> xb_sys \<Rightarrow> bool" where
  "xb_newest n s \<longleftrightarrow> (\<forall>i<CORES_TOTAL. xb_entered s i \<le> n) \<and> (\<exists>i<CORES_TOTAL. xb_entered s i = n)"

definition xb_left :: "nat \<Rightarrow> xb_sys \<Rightarrow> nat" where
  "xb_left n s = (\<Sum>i<CORES_TOTAL. 3 * (n - xb_entered s i) + xb_weight (xb_pcs s i))"

lemma xb_left_step:
  assumes "rtmx86_enter_barrier s s'" "xb_newest n s'" "i < CORES_TOTAL"
    and "3 * (n - xb_entered s' i) + xb_weight (xb_pcs s' i) < 3 * (n - xb_entered s i) + xb_weight (xb_pcs s i)"
    and "\<And>j. j \<noteq> i \<Longrightarrow> xb_pcs s' j = xb_pcs s j \<and> xb_entered s' j = xb_entered s j"
  shows "\<exists>s'. rtmx86_enter_barrier s s' \<and> xb_newest n s' \<and> xb_left n s' < xb_left n s"
proof -
  have "xb_left n s' < xb_left n s" unfolding xb_left_def using assms(3-5) by (intro sum_less_at [of i]) simp_all
  with assms(1,2) show ?thesis by blast
qed

lemma xb_round_progress:
  assumes "xb_round g s" "xb_newest n s" "\<not> (\<forall>i<CORES_TOTAL. xb_pcs s i = XOut \<and> xb_entered s i = n)"
  shows "\<exists>s'. rtmx86_enter_barrier s s' \<and> xb_newest n s' \<and> xb_left n s' < xb_left n s"
proof -
  have r: "xb_entered s i = g \<or> xb_entered s i = Suc g" "xb_pcs s i = XOut \<longrightarrow> xb_entered s i = g"
    "barrier_local_sense (xb_st s) ! i = of_bool (odd (xb_entered s i))" if "i < CORES_TOTAL" for i
    using assms(1) that unfolding xb_round_def by blast+
  consider i where "i < CORES_TOTAL" "xb_pcs s i = XFlipped"
    | i where "i < CORES_TOTAL" "xb_pcs s i = XWaiting" "xb_entered s i = g"
    | i where "i < CORES_TOTAL" "xb_pcs s i = XOut" "xb_entered s i < n"
    | "\<forall>i<CORES_TOTAL. xb_pcs s i = XWaiting \<and> xb_entered s i = Suc g \<or> xb_pcs s i = XOut \<and> xb_entered s i = n"
    using r(1,2) assms(2) unfolding xb_newest_def by (metis nat_less_le xb_pc.exhaust)
  then show ?thesis
  proof cases
    case 1
    from xb_add [OF 1] show ?thesis
      by (rule xb_left_step [OF _ _ 1(1)]) (use assms(2) 1 in \<open>auto simp: xb_newest_def\<close>)
  next
    case 2
    then have "xb_open i (xb_st s)" using assms(1) r(3) by (simp add: xb_round_def xb_open_def)
    from xb_leave [OF 2(1,2) this] show ?thesis
      by (rule xb_left_step [OF _ _ 2(1)]) (use assms(2) 2 in \<open>auto simp: xb_newest_def\<close>)
  next
    case 3
    from xb_enter [OF 3(1,2)] show ?thesis
      by (rule xb_left_step [OF _ _ 3(1)]) (use assms(2) 3 in \<open>auto simp: xb_newest_def\<close>)
  next
    case 4
    obtain j where j: "j < CORES_TOTAL" "xb_pcs s j = XWaiting" "xb_entered s j = Suc g" using 4 assms(3) by blast
    then have "n \<noteq> g" using assms(2) unfolding xb_newest_def by (metis Suc_n_not_le_n)
    then have "xb_waiting g s = {..<CORES_TOTAL}" using 4 r(2) unfolding xb_waiting_def by blast
    with assms(1) show ?thesis by (simp add: xb_round_def)
  qed
qed

lemma xb_completes:
  assumes "reachable xb_init rtmx86_enter_barrier s" "xb_newest n s"
  shows "\<exists>s'. rtmx86_enter_barrier\<^sup>*\<^sup>* s s' \<and> (\<forall>i<CORES_TOTAL. xb_pcs s' i = XOut \<and> xb_entered s' i = n)"
  using assms
proof (induction "xb_left n s" arbitrary: s rule: less_induct)
  case less
  show ?case
  proof (cases "\<forall>i<CORES_TOTAL. xb_pcs s i = XOut \<and> xb_entered s i = n")
    case False
    obtain g where "xb_round g s" using xb.reachable_inv [OF less.prems(1)] by (auto simp: xb_inv_def)
    then obtain s1 where s1: "rtmx86_enter_barrier s s1" "xb_newest n s1" "xb_left n s1 < xb_left n s"
      using xb_round_progress [OF _ less.prems(2) False] by blast
    then have "reachable xb_init rtmx86_enter_barrier s1" using less.prems(1) by (blast intro: reachable.reach_step)
    with less.hyps [OF s1(3) _ s1(2)] s1(1) show ?thesis by (blast intro: converse_rtranclp_into_rtranclp)
  qed blast
qed

section \<open>The task queue\<close>

definition zero_desc :: tq_task_desc where
  "zero_desc = \<lparr>td_v1 = 0, td_v2 = 0, td_begin = 0, td_end = 0\<rparr>"

text \<open>\<open>ok1\<close> and \<open>ok2\<close> say whether the two calls of \<open>calloc\<close> succeed.\<close>

definition TaskQueue_Init :: "bool \<Rightarrow> bool \<Rightarrow> int \<Rightarrow> x86_rtm \<Rightarrow> (tq_ret_type \<times> x86_rtm) c_result" where
  "TaskQueue_Init ok1 ok2 max_size s =
     (if done_init s \<noteq> 0 then Inl AssertFailed
      else let s = s\<lparr>done_init := 1, numcores := int CORES_TOTAL, numclusters := int NUM_CLUSTERS,
                     tq_head_index := 0, tq_tail_index := 0, tq_size := word_of_int max_size,
                     tq_data := (if ok1 then replicate (nat max_size) zero_desc else []),
                     tq_index := (if ok2 then replicate (nat max_size div TASK_GROUP_SIZE) 0 else [])\<rparr>
           in bnd (for_n NUM_CLUSTERS (\<lambda>i xs. wr xs i 0) (cluster_head s)) (\<lambda>ch.
              Inr (TQ_RET_SUCCESS, s\<lparr>cluster_head := ch\<rparr>)))"

definition TaskQueue_End :: "x86_rtm \<Rightarrow> tq_ret_type \<times> x86_rtm" where
  "TaskQueue_End s = (TQ_RET_SUCCESS, s\<lparr>tq_data := [], tq_index := []\<rparr>)"

text \<open>One pass through the critical section of \<open>TaskQueue_Enqueue\<close>: was there room?\<close>

definition enqueue_locked :: "tq_task_desc \<Rightarrow> x86_rtm \<Rightarrow> (bool \<times> x86_rtm) c_result" where
  "enqueue_locked tdesc s =
     (if tq_size s \<noteq> word_of_int (tq_count s)
      then bnd (wr (tq_data s) (unat (tq_tail_index s)) tdesc) (\<lambda>d.
           if tq_size s = 0 then Inl DivByZero
           else Inr (True, s\<lparr>tq_data := d, tq_tail_index := (tq_tail_index s + 1) mod tq_size s,
                             tq_count := tq_count s + 1\<rparr>))
      else Inr (False, s))"

partial_function (option) TaskQueue_Enqueue ::
  "tq_task_desc \<Rightarrow> x86_rtm \<Rightarrow> (tq_ret_type \<times> x86_rtm) c_result option" where
  "TaskQueue_Enqueue tdesc s =
     (case enqueue_locked tdesc s of
        Inl e \<Rightarrow> Some (Inl e)
      | Inr (done, s') \<Rightarrow> if done then Some (Inr (TQ_RET_SUCCESS, s')) else TaskQueue_Enqueue tdesc s')"

partial_function (option) loop_from ::
  "int \<Rightarrow> int \<Rightarrow> tq_task_desc \<Rightarrow> int \<Rightarrow> x86_rtm \<Rightarrow> (tq_ret_type \<times> x86_rtm) c_result option" where
  "loop_from tot_iters iters_per_task tdesc start s =
     (if start < tot_iters
      then if INT_MAX < start + iters_per_task \<or> start + iters_per_task < - INT_MAX - 1
           then Some (Inl IntOverflow)
           else let next = min (start + iters_per_task) tot_iters;
                    td = tdesc\<lparr>td_begin := word_of_int start, td_end := word_of_int next\<rparr>
                in case TaskQueue_Enqueue td s of
                     None \<Rightarrow> None
                   | Some (Inl e) \<Rightarrow> Some (Inl e)
                   | Some (Inr (r, s')) \<Rightarrow> loop_from tot_iters iters_per_task tdesc next s'
      else Some (Inr (TQ_RET_SUCCESS, s)))"

definition TaskQueue_Loop ::
  "int \<Rightarrow> int \<Rightarrow> tq_task_desc \<Rightarrow> x86_rtm \<Rightarrow> (tq_ret_type \<times> x86_rtm) c_result option" where
  "TaskQueue_Loop tot_iters iters_per_task tdesc s = loop_from tot_iters iters_per_task tdesc 0 s"

text \<open>
  \<open>TaskQueue_Dequeue\<close>: the first critical section reserves a head index, the loop's critical
  section either delivers a task, or counts the core in at the implicit barrier, or reports the
  barrier, or lets the core try again. \<open>Again did\<close> carries the local \<open>did_waitcount\<close>.
\<close>

datatype deq_outcome = Again bool | Got tq_task_desc | Sync

definition dequeue_reserve :: "x86_rtm \<Rightarrow> (u32 \<times> x86_rtm) c_result" where
  "dequeue_reserve s =
     (let h = tq_head_index s + 1
      in if tq_size s < h
         then if tq_size s = 0 then Inl DivByZero
              else Inr (tq_head_index s, s\<lparr>tq_head_index := h mod tq_size s\<rparr>)
         else Inr (tq_head_index s, s\<lparr>tq_head_index := h\<rparr>))"

definition flip_localsense :: "nat \<Rightarrow> x86_rtm \<Rightarrow> x86_rtm" where
  "flip_localsense core s = s\<lparr>localsense := (localsense s)[core := c_not (localsense s ! core)]\<rparr>"

definition dequeue_round :: "nat \<Rightarrow> u32 \<Rightarrow> bool \<Rightarrow> x86_rtm \<Rightarrow> (deq_outcome \<times> x86_rtm) c_result" where
  "dequeue_round core head_idx did_waitcount s =
     (if 0 < tq_count s
      then if head_idx < tq_tail_index s
           then bnd (rd (tq_data s) (unat head_idx)) (\<lambda>tdesc.
                let s = s\<lparr>tq_count := tq_count s - 1\<rparr>
                in if did_waitcount
                   then let s = flip_localsense core s; s = s\<lparr>wait_count := wait_count s - 1\<rparr>
                        in if wait_count s < 0 then Inl AssertFailed else Inr (Got tdesc, s)
                   else Inr (Got tdesc, s))
           else Inr (Again did_waitcount, s)
      else if \<not> did_waitcount
      then let s = flip_localsense core s; s = s\<lparr>wait_count := wait_count s + 1\<rparr>
           in if int CORES_TOTAL = wait_count s
              then Inr (Again True, s\<lparr>globalsense := localsense s ! core, wait_count := 0,
                                     tq_tail_index := 0, tq_head_index := 0\<rparr>)
              else Inr (Again True, s)
      else if globalsense s = localsense s ! core then Inr (Sync, s)
      else Inr (Again True, s))"

text \<open>The call with no other core running: \<open>None\<close> when it waits forever.\<close>

partial_function (option) dequeue_loop ::
  "nat \<Rightarrow> u32 \<Rightarrow> bool \<Rightarrow> x86_rtm \<Rightarrow> (tq_ret_type \<times> tq_task_desc option \<times> x86_rtm) c_result option" where
  "dequeue_loop core head_idx did s =
     (case dequeue_round core head_idx did s of
        Inl e \<Rightarrow> Some (Inl e)
      | Inr (Again did', s') \<Rightarrow> dequeue_loop core head_idx did' s'
      | Inr (Got td, s') \<Rightarrow> Some (Inr (TQ_RET_SUCCESS, Some td, s'))
      | Inr (Sync, s') \<Rightarrow> Some (Inr (TQ_RET_SYNC, None, s')))"

definition TaskQueue_Dequeue ::
  "nat \<Rightarrow> x86_rtm \<Rightarrow> (tq_ret_type \<times> tq_task_desc option \<times> x86_rtm) c_result option" where
  "TaskQueue_Dequeue core s =
     (case dequeue_reserve s of
        Inl e \<Rightarrow> Some (Inl e)
      | Inr (head_idx, s') \<Rightarrow> dequeue_loop core head_idx False s')"

section \<open>Enqueuing\<close>

lemma word_of_int_neq_size:
  "0 \<le> c \<Longrightarrow> c < int (unat n) \<Longrightarrow> n \<noteq> word_of_int c" for n :: u32
proof
  assume "0 \<le> c" "c < int (unat n)" "n = word_of_int c"
  then have "uint n = c" using unsigned_less [of n] by (simp add: unsigned_of_int take_bit_int_eq_self)
  with \<open>c < int (unat n)\<close> show False by simp
qed

lemma unat_Suc_mod:
  "unat t + 1 < unat n \<Longrightarrow> unat ((t + 1) mod n) = Suc (unat t)" for t n :: u32
proof -
  assume "unat t + 1 < unat n"
  moreover have "unat n < 2 ^ 32" using unsigned_less [of n] by simp
  ultimately have "unat (t + 1) = Suc (unat t)" by (intro unat_Suc_u32) simp
  then show ?thesis using \<open>unat t + 1 < unat n\<close> by (simp add: unat_mod)
qed

text \<open>No wrap-around: the tail, the tasks before it, and the count that is at most the tail.\<close>

definition tq_linear :: "x86_rtm \<Rightarrow> bool" where
  "tq_linear s \<longleftrightarrow> length (tq_data s) = unat (tq_size s) \<and> 0 \<le> tq_count s \<and>
     nat (tq_count s) \<le> unat (tq_tail_index s)"

definition tq_tasks :: "x86_rtm \<Rightarrow> tq_task_desc list" where
  "tq_tasks s = take (unat (tq_tail_index s)) (tq_data s)"

lemma enqueue_room:
  assumes "tq_linear s" "unat (tq_tail_index s) + 1 < unat (tq_size s)"
  shows "\<exists>s'. enqueue_locked td s = Inr (True, s') \<and> tq_linear s' \<and> tq_tasks s' = tq_tasks s @ [td] \<and>
    unat (tq_tail_index s') = Suc (unat (tq_tail_index s)) \<and> tq_count s' = tq_count s + 1 \<and>
    tq_size s' = tq_size s"
proof -
  have "0 \<le> tq_count s" "tq_count s < int (unat (tq_size s))"
    using assms unfolding tq_linear_def by linarith+
  then have "tq_size s \<noteq> word_of_int (tq_count s)" by (rule word_of_int_neq_size)
  moreover have "tq_size s \<noteq> 0" using assms(2) by auto
  ultimately show ?thesis
    using assms unat_Suc_mod [OF assms(2)]
    by (auto simp: enqueue_locked_def c_monad tq_linear_def tq_tasks_def take_Suc_conv_app_nth)
qed

lemma TaskQueue_Enqueue_room:
  "enqueue_locked td s = Inr (True, s') \<Longrightarrow> TaskQueue_Enqueue td s = Some (Inr (TQ_RET_SUCCESS, s'))"
  by (simp add: TaskQueue_Enqueue.simps)

text \<open>The ranges of the tasks \<open>TaskQueue_Loop\<close> makes.\<close>

function chunks_from :: "int \<Rightarrow> int \<Rightarrow> int \<Rightarrow> (int \<times> int) list" where
  "chunks_from tot k start =
     (if start < tot \<and> 0 < k
      then (start, min (start + k) tot) # chunks_from tot k (min (start + k) tot) else [])"
  by auto

termination
  by (relation "measure (\<lambda>(tot, k, start). nat (tot - start))") auto

declare chunks_from.simps [simp del]

lemma chunks_cover:
  "0 < k \<Longrightarrow> concat (map (\<lambda>(b, e). [b..e - 1]) (chunks_from tot k start)) = [start..tot - 1]"
proof (induction tot k start rule: chunks_from.induct)
  case (1 tot k start)
  show ?case
  proof (cases "start < tot")
    case True
    let ?m = "min (start + k) tot"
    have "[start..tot - 1] = [start..?m - 1] @ [?m..tot - 1]"
      using upto_split2 [of start "?m - 1" "tot - 1"] True 1(2) by simp
    with True 1 show ?thesis by (subst chunks_from.simps) simp
  next
    case False
    then show ?thesis by (simp add: chunks_from.simps)
  qed
qed

lemma chunks_bounds:
  "(b, e) \<in> set (chunks_from tot k start) \<Longrightarrow> start \<le> b \<and> b < e \<and> e \<le> b + k \<and> e \<le> tot"
proof (induction tot k start rule: chunks_from.induct)
  case (1 tot k start)
  then show ?case by (subst (asm) (2) chunks_from.simps) (fastforce split: if_splits)
qed

definition chunk_desc :: "tq_task_desc \<Rightarrow> int \<times> int \<Rightarrow> tq_task_desc" where
  "chunk_desc tdesc c = tdesc\<lparr>td_begin := word_of_int (fst c), td_end := word_of_int (snd c)\<rparr>"

lemma loop_from_room:
  assumes "0 < k" "tot + k \<le> INT_MAX" "0 \<le> start"
    and "tq_linear s" "unat (tq_tail_index s) + length (chunks_from tot k start) < unat (tq_size s)"
  shows "\<exists>s'. loop_from tot k td start s = Some (Inr (TQ_RET_SUCCESS, s')) \<and> tq_linear s' \<and>
     tq_tasks s' = tq_tasks s @ map (chunk_desc td) (chunks_from tot k start) \<and>
     tq_count s' = tq_count s + int (length (chunks_from tot k start))"
  using assms
proof (induction tot k start arbitrary: s rule: chunks_from.induct)
  case (1 tot k start)
  show ?case
  proof (cases "start < tot")
    case False
    with 1 show ?thesis by (simp add: loop_from.simps [of tot k td start] chunks_from.simps)
  next
    case True
    let ?m = "min (start + k) tot"
    have ch: "chunks_from tot k start = (start, ?m) # chunks_from tot k ?m"
      using True 1 by (subst chunks_from.simps) simp
    obtain s1 where s1: "enqueue_locked (chunk_desc td (start, ?m)) s = Inr (True, s1)" "tq_linear s1"
      "tq_tasks s1 = tq_tasks s @ [chunk_desc td (start, ?m)]"
      "unat (tq_tail_index s1) = Suc (unat (tq_tail_index s))" "tq_count s1 = tq_count s + 1"
      "tq_size s1 = tq_size s"
      using enqueue_room [OF 1(5), of "chunk_desc td (start, ?m)"] 1(6) ch by auto
    then obtain s2 where s2: "loop_from tot k td ?m s1 = Some (Inr (TQ_RET_SUCCESS, s2))" "tq_linear s2"
      "tq_tasks s2 = tq_tasks s1 @ map (chunk_desc td) (chunks_from tot k ?m)"
      "tq_count s2 = tq_count s1 + int (length (chunks_from tot k ?m))"
      using 1(1) [of s1] 1(2-6) True ch by auto
    have "loop_from tot k td start s = loop_from tot k td ?m s1"
      using True 1(2-4) TaskQueue_Enqueue_room [OF s1(1)]
      by (subst loop_from.simps) (simp add: chunk_desc_def Let_def INT_MAX_def)
    with s2 s1 show ?thesis by (simp add: ch)
  qed
qed

section \<open>The queue, interleaved\<close>

text \<open>
  The eight cores around the queue. A core that is not inside \<open>TaskQueue_Dequeue\<close>
  enqueues or starts a dequeue; a core inside repeats the critical section with its reserved
  index and its \<open>did_waitcount\<close>. \<open>ts_enq\<close> logs the enqueued tasks, \<open>ts_out\<close> the delivered
  ones with the index they were taken from, \<open>ts_sync\<close> whether the implicit barrier has been
  reached. An enqueue is taken only while the queue is big enough that no index wraps around,
  with room for one reservation per core, as the comments in the source ask for.
\<close>

record tq_sys =
  ts_st :: x86_rtm
  ts_deq :: "nat \<Rightarrow> (u32 \<times> bool) option"
  ts_enq :: "tq_task_desc list"
  ts_out :: "(nat \<times> tq_task_desc) list"
  ts_sync :: bool

inductive tq_step :: "tq_sys \<Rightarrow> tq_sys \<Rightarrow> bool" where
  ts_enqueue: "i < CORES_TOTAL \<Longrightarrow> ts_deq s i = None \<Longrightarrow>
     length (ts_enq s) + CORES_TOTAL < unat (tq_size (ts_st s)) \<Longrightarrow>
     enqueue_locked td (ts_st s) = Inr (True, st) \<Longrightarrow>
     tq_step s (s\<lparr>ts_st := st, ts_enq := ts_enq s @ [td]\<rparr>)"
| ts_reserve: "i < CORES_TOTAL \<Longrightarrow> ts_deq s i = None \<Longrightarrow> dequeue_reserve (ts_st s) = Inr (h, st) \<Longrightarrow>
     tq_step s (s\<lparr>ts_st := st, ts_deq := (ts_deq s)(i := Some (h, False))\<rparr>)"
| ts_again: "i < CORES_TOTAL \<Longrightarrow> ts_deq s i = Some (h, did) \<Longrightarrow>
     dequeue_round i h did (ts_st s) = Inr (Again did', st) \<Longrightarrow>
     tq_step s (s\<lparr>ts_st := st, ts_deq := (ts_deq s)(i := Some (h, did')),
       ts_sync := (ts_sync s \<or> \<not> did \<and> did' \<and> wait_count st = 0)\<rparr>)"
| ts_got: "i < CORES_TOTAL \<Longrightarrow> ts_deq s i = Some (h, did) \<Longrightarrow>
     dequeue_round i h did (ts_st s) = Inr (Got td, st) \<Longrightarrow>
     tq_step s (s\<lparr>ts_st := st, ts_deq := (ts_deq s)(i := None), ts_out := ts_out s @ [(unat h, td)]\<rparr>)"
| ts_return: "i < CORES_TOTAL \<Longrightarrow> ts_deq s i = Some (h, did) \<Longrightarrow>
     dequeue_round i h did (ts_st s) = Inr (Sync, st) \<Longrightarrow>
     tq_step s (s\<lparr>ts_st := st, ts_deq := (ts_deq s)(i := None)\<rparr>)"

definition ts_init :: "tq_sys \<Rightarrow> bool" where
  "ts_init s \<longleftrightarrow>
     (\<exists>s0 s1 max_size. length (barrier_local_sense s0) = CORES_TOTAL \<and> length (localsense s0) = CORES_TOTAL \<and>
        length (cluster_wait_count s0) = NUM_CLUSTERS \<and> length (cluster_head s0) = NUM_CLUSTERS \<and>
        tq_count s0 = 0 \<and> int CORES_TOTAL \<le> max_size \<and> max_size \<le> INT_MAX \<and>
        X86_TASK_MODEL_INIT s0 = Inr s1 \<and>
        TaskQueue_Init True True max_size s1 = Inr (TQ_RET_SUCCESS, ts_st s)) \<and>
     (\<forall>i. ts_deq s i = None) \<and> ts_enq s = [] \<and> ts_out s = [] \<and> \<not> ts_sync s"

text \<open>
  Until the barrier is reached: the data are the enqueued tasks, the indices handed out so far
  are those delivered and those the cores inside hold, each once, and the waiting count and the
  senses are those of the cores that have counted themselves in.
\<close>

definition ts_heads :: "tq_sys \<Rightarrow> nat set" where
  "ts_heads s = {unat h | i h did. i < CORES_TOTAL \<and> ts_deq s i = Some (h, did)}"

definition ts_inside :: "tq_sys \<Rightarrow> nat set" where
  "ts_inside s = {i. i < CORES_TOTAL \<and> ts_deq s i \<noteq> None}"

definition ts_waiting :: "tq_sys \<Rightarrow> nat set" where
  "ts_waiting s = {i. i < CORES_TOTAL \<and> (\<exists>h. ts_deq s i = Some (h, True))}"








lemma finite_inside [simp]: "finite (ts_inside s)" "finite (ts_waiting s)" "finite (ts_heads s)"
proof -
  have "ts_heads s \<subseteq> (\<lambda>i. unat (fst (the (ts_deq s i)))) ` {..<CORES_TOTAL}"
    by (force simp: ts_heads_def)
  then show "finite (ts_heads s)" by (rule finite_subset) simp
qed (simp_all add: ts_inside_def ts_waiting_def)


















section \<open>Schedules\<close>

text \<open>A step relation by execution: the named core takes its next critical section.\<close>

datatype tq_act = Enq nat tq_task_desc | Reserve nat | Round nat

fun tq_exec :: "tq_act \<Rightarrow> tq_sys \<Rightarrow> tq_sys option" where
  "tq_exec (Enq i td) s =
     (if i < CORES_TOTAL \<and> ts_deq s i = None \<and> length (ts_enq s) + CORES_TOTAL < unat (tq_size (ts_st s))
      then (case enqueue_locked td (ts_st s) of
              Inr (True, st) \<Rightarrow> Some (s\<lparr>ts_st := st, ts_enq := ts_enq s @ [td]\<rparr>)
            | _ \<Rightarrow> None)
      else None)"
| "tq_exec (Reserve i) s =
     (if i < CORES_TOTAL \<and> ts_deq s i = None
      then (case dequeue_reserve (ts_st s) of
              Inr (h, st) \<Rightarrow> Some (s\<lparr>ts_st := st, ts_deq := (ts_deq s)(i := Some (h, False))\<rparr>)
            | Inl e \<Rightarrow> None)
      else None)"
| "tq_exec (Round i) s =
     (if i < CORES_TOTAL
      then (case ts_deq s i of
              None \<Rightarrow> None
            | Some (h, did) \<Rightarrow>
                (case dequeue_round i h did (ts_st s) of
                   Inl e \<Rightarrow> None
                 | Inr (Again did', st) \<Rightarrow> Some (s\<lparr>ts_st := st, ts_deq := (ts_deq s)(i := Some (h, did')),
                     ts_sync := (ts_sync s \<or> \<not> did \<and> did' \<and> wait_count st = 0)\<rparr>)
                 | Inr (Got td, st) \<Rightarrow> Some (s\<lparr>ts_st := st, ts_deq := (ts_deq s)(i := None),
                     ts_out := ts_out s @ [(unat h, td)]\<rparr>)
                 | Inr (Sync, st) \<Rightarrow> Some (s\<lparr>ts_st := st, ts_deq := (ts_deq s)(i := None)\<rparr>)))
      else None)"

fun tq_run :: "tq_act list \<Rightarrow> tq_sys \<Rightarrow> tq_sys option" where
  "tq_run [] s = Some s"
| "tq_run (a # as) s = (case tq_exec a s of None \<Rightarrow> None | Some s' \<Rightarrow> tq_run as s')"

lemma tq_exec_step: "tq_exec a s = Some s' \<Longrightarrow> tq_step s s'"
  by (induction a s rule: tq_exec.induct)
    (auto split: if_splits sum.splits prod.splits bool.splits option.splits deq_outcome.splits
      intro: tq_step.intros)

lemma tq_run_reachable:
  "tq_run as s = Some s' \<Longrightarrow> reachable ts_init tq_step s \<Longrightarrow> reachable ts_init tq_step s'"
  by (induction as s rule: tq_run.induct)
    (auto split: option.splits intro: reachable.reach_step dest: tq_exec_step)

definition cold_rtm :: x86_rtm where
  "cold_rtm = \<lparr>done_init = 0, barrier_count = 0, barrier_global_sense = 0,
     barrier_local_sense = replicate 8 0, numcores = 0, numclusters = 0, tq_head_index = 0,
     tq_tail_index = 0, tq_data = [], tq_index = [], cluster_head = [0], cluster_wait_count = [0],
     wait_count = 0, tq_size = 0, tq_count = 0, localsense = replicate 8 0, globalsense = 0\<rparr>"

definition warm_sys :: tq_sys where
  "warm_sys = \<lparr>ts_st = cold_rtm\<lparr>done_init := 1, numcores := 8, numclusters := 1, tq_size := 16,
       tq_data := replicate 16 zero_desc, tq_index := replicate 16 0\<rparr>,
     ts_deq = (\<lambda>_. None), ts_enq = [], ts_out = [], ts_sync = False\<rparr>"

lemma warm_sys_reachable: "reachable ts_init tq_step warm_sys"
proof (rule reachable.reach_init)
  have m: "X86_TASK_MODEL_INIT cold_rtm = Inr cold_rtm"
    by (simp add: X86_TASK_MODEL_INIT_def cold_rtm_def for_n_fill NUM_CLUSTERS_def c_monad
        CORES_PER_CLUSTER_def)
  have i: "TaskQueue_Init True True 16 cold_rtm = Inr (TQ_RET_SUCCESS, ts_st warm_sys)"
    by (simp add: TaskQueue_Init_def cold_rtm_def warm_sys_def NUM_CLUSTERS_def TASK_GROUP_SIZE_def c_monad)
  show "ts_init warm_sys"
    unfolding ts_init_def
    by (intro conjI exI [of _ cold_rtm] exI [of _ 16])
      (simp_all add: m i, simp_all add: cold_rtm_def warm_sys_def NUM_CLUSTERS_def INT_MAX_def)
qed

section \<open>Properties\<close>

text \<open>
  C27: the barrier of the x86 emulation. In every interleaving of the eight cores a core
  that has left the barrier for the \<open>k\<close>-th time finds that all cores have entered it \<open>k\<close>
  times. And the barrier opens: wherever the cores are, also when all eight are inside, they can go
  on to a state in which all eight have left the newest round any of them had entered, without a core
  entering a later one. When no core is outside, a step other than an entry starts that
  continuation, since nobody can enter.
\<close>

theorem x86_barrier_safe_and_opens:
  assumes "reachable xb_init rtmx86_enter_barrier s"
  shows "(\<forall>i j. i < CORES_TOTAL \<longrightarrow> j < CORES_TOTAL \<longrightarrow> xb_pcs s i = XOut \<longrightarrow> xb_entered s i \<le> xb_entered s j) \<and>
    (\<exists>s'. rtmx86_enter_barrier\<^sup>*\<^sup>* s s' \<and>
       (\<forall>i<CORES_TOTAL. xb_pcs s' i = XOut \<and> xb_entered s' i = Max (xb_entered s ` {..<CORES_TOTAL})))"
proof -
  let ?E = "xb_entered s ` {..<CORES_TOTAL}"
  have "Max ?E \<in> ?E" by (intro Max_in) (auto simp: lessThan_empty_iff)
  then have "\<exists>i<CORES_TOTAL. xb_entered s i = Max ?E" by (metis imageE lessThan_iff)
  then have "xb_newest (Max ?E) s" by (auto simp: xb_newest_def)
  then show ?thesis using xb.nobody_passes_early [OF assms] xb_completes [OF assms] by blast
qed

definition xb_one_in :: xb_sys where
  "xb_one_in = \<lparr>xb_st = cold_rtm\<lparr>barrier_local_sense := (replicate 8 0)[3 := 1]\<rparr>,
     xb_pcs = (\<lambda>_. XOut)(3 := XFlipped), xb_entered = (\<lambda>_. 0)(3 := 1)\<rparr>"

lemma xb_one_in_reachable: "reachable xb_init rtmx86_enter_barrier xb_one_in"
proof (rule reachable.reach_step)
  let ?s0 = "\<lparr>xb_st = cold_rtm, xb_pcs = (\<lambda>_. XOut), xb_entered = (\<lambda>_. 0)\<rparr>"
  have "X86_TASK_MODEL_INIT cold_rtm = Inr cold_rtm"
    by (simp add: X86_TASK_MODEL_INIT_def cold_rtm_def for_n_fill NUM_CLUSTERS_def c_monad
        CORES_PER_CLUSTER_def)
  then have "xb_init ?s0"
    unfolding xb_init_def by (intro conjI exI [of _ cold_rtm]) (simp_all, simp add: cold_rtm_def)
  then show "reachable xb_init rtmx86_enter_barrier ?s0" by (rule reachable.reach_init)
  show "rtmx86_enter_barrier ?s0 xb_one_in"
    using xb_enter [of 3 ?s0] by (simp add: xb_one_in_def xb_flip_def cold_rtm_def)
qed

theorem x86_barrier_safe_and_opens_witness:
  "xb_pcs xb_one_in 3 = XFlipped \<and> xb_pcs xb_one_in 0 = XOut \<and> xb_entered xb_one_in 0 \<le> xb_entered xb_one_in 3 \<and>
   (\<exists>s'. rtmx86_enter_barrier\<^sup>*\<^sup>* xb_one_in s' \<and> (\<forall>i<CORES_TOTAL. xb_pcs s' i = XOut \<and> xb_entered s' i = 1))"
proof -
  have "{..<CORES_TOTAL} = {0, 1, 2, 3, 4, 5, 6, 7}" by auto
  then have "xb_entered xb_one_in ` {..<CORES_TOTAL} = {0, 1}" by (auto simp: xb_one_in_def)
  then have "Max (xb_entered xb_one_in ` {..<CORES_TOTAL}) = 1" by simp
  with x86_barrier_safe_and_opens [OF xb_one_in_reachable] show ?thesis by (simp add: xb_one_in_def)
qed



lemmas tq_eval = warm_sys_def cold_rtm_def enqueue_locked_def dequeue_reserve_def dequeue_round_def
  flip_localsense_def Let_def c_monad zero_desc_def








text \<open>
  \<open>TaskQueue_Loop\<close> covers its iteration space. With a positive chunk size and room in
  the queue it returns success, the queue is extended by tasks whose ranges are nonempty, at
  most the chunk size long, and put together are exactly the iterations from 0 to the total.
\<close>

theorem task_loop_tiles:
  assumes "0 < k" and "tot + k \<le> INT_MAX" and "tq_linear s"
    and "unat (tq_tail_index s) + length (chunks_from tot k 0) < unat (tq_size s)"
  shows "(\<exists>s'. TaskQueue_Loop tot k td s = Some (Inr (TQ_RET_SUCCESS, s')) \<and>
      tq_tasks s' = tq_tasks s @ map (chunk_desc td) (chunks_from tot k 0) \<and>
      tq_count s' = tq_count s + int (length (chunks_from tot k 0))) \<and>
    concat (map (\<lambda>(b, e). [b..e - 1]) (chunks_from tot k 0)) = [0..tot - 1] \<and>
    (\<forall>(b, e) \<in> set (chunks_from tot k 0). 0 \<le> b \<and> b < e \<and> e \<le> b + k \<and> e \<le> tot)"
  using loop_from_room [OF assms(1,2) _ assms(3,4), of td] chunks_cover [OF assms(1), of tot 0]
    chunks_bounds [of _ _ tot k 0]
  unfolding TaskQueue_Loop_def by auto

theorem task_loop_tiles_witness:
  "\<exists>s'. TaskQueue_Loop 10 4 zero_desc (ts_st warm_sys) = Some (Inr (TQ_RET_SUCCESS, s')) \<and>
     tq_tasks s' = map (chunk_desc zero_desc) [(0, 4), (4, 8), (8, 10)]"
proof -
  have c: "chunks_from 10 4 0 = [(0, 4), (4, 8), (8, 10)]"
    by (simp add: chunks_from.simps)
  have "tq_linear (ts_st warm_sys)" "tq_tasks (ts_st warm_sys) = []" "tq_size (ts_st warm_sys) = 16"
    "tq_tail_index (ts_st warm_sys) = 0"
    by (simp_all add: tq_linear_def tq_tasks_def warm_sys_def cold_rtm_def)
  with task_loop_tiles [of 4 10 "ts_st warm_sys" zero_desc] show ?thesis
    by (auto simp: c INT_MAX_def)
qed

text \<open>
  the race after the implicit barrier. The barrier resets the indices while seven cores
  still wait inside \<open>TaskQueue_Dequeue\<close> with the indices they reserved before. When a core
  that has already returned from the barrier enqueues a task, a core still waiting takes it
  with its stale index, and the assertion on the waiting count fails.
\<close>

definition stale_index :: "tq_act list" where
  "stale_index = map Reserve [0..<8] @ map Round [0..<8] @ [Round 7, Enq 7 zero_desc]"

theorem task_queue_stale_index:
  "\<exists>s h. reachable ts_init tq_step s \<and> ts_deq s 0 = Some (h, True) \<and>
     dequeue_round 0 h True (ts_st s) = Inl AssertFailed"
proof -
  have "[0..<8] = [0, 1, 2, 3, 4, 5, 6, 7::nat]" by (simp add: upt_rec)
  then have "\<exists>s h. tq_run stale_index warm_sys = Some s \<and> ts_deq s 0 = Some (h, True) \<and>
      dequeue_round 0 h True (ts_st s) = Inl AssertFailed"
    by (simp add: stale_index_def tq_eval)
  then show ?thesis using tq_run_reachable warm_sys_reachable by blast
qed

end
