(* ===== verification/Ticket_Lock.thy ===== *)
theory Ticket_Lock
  imports Prelude
begin

text \<open>
  The ticket lock that protects a cluster's local task queue: the macros
  \<open>LOCAL_LOCK_ACQUIRE\<close> and \<open>LOCAL_LOCK_RELEASE\<close> of include/rtm-sw.h over one entry of
  \<open>CLUSTER_ltq_ticket_count\<close> and \<open>CLUSTER_ltq_ticket_poll\<close>. A thread increments the count
  and keeps the result as its ticket, polls until the poll word shows it, and releases by
  incrementing the poll word. Both words wrap around modulo 2 to the 32.
\<close>

section \<open>The macros\<close>

record ticket_lock =
  ticket_count :: u32
  ticket_poll :: u32

text \<open>As \<open>SW_TaskQueue_Init\<close> leaves the entry.\<close>

definition ticket_fresh :: "ticket_lock \<Rightarrow> bool" where
  "ticket_fresh l \<longleftrightarrow> ticket_count l = 0 \<and> ticket_poll l = 1"

definition lock_take_ticket :: "ticket_lock \<Rightarrow> u32 \<times> ticket_lock" where
  "lock_take_ticket l = (ticket_count l + 1, l\<lparr>ticket_count := ticket_count l + 1\<rparr>)"

definition lock_poll :: "u32 \<Rightarrow> ticket_lock \<Rightarrow> bool" where
  "lock_poll ticket l \<longleftrightarrow> ticket_poll l = ticket"

definition LOCAL_LOCK_RELEASE :: "ticket_lock \<Rightarrow> ticket_lock" where
  "LOCAL_LOCK_RELEASE l = l\<lparr>ticket_poll := ticket_poll l + 1\<rparr>"

text \<open>With no other thread running, the polling ends at once or never.\<close>

definition LOCAL_LOCK_ACQUIRE :: "ticket_lock \<Rightarrow> ticket_lock option" where
  "LOCAL_LOCK_ACQUIRE l =
     (case lock_take_ticket l of (ticket, l') \<Rightarrow> if lock_poll ticket l' then Some l' else None)"

section \<open>Threads around the lock\<close>

text \<open>
  \<open>tk_queue\<close> lists the threads inside in the order of their tickets; it is ghost state the
  steps do not read.
\<close>

datatype tk_pc = TkOut | TkPolling u32 | TkHolding

record tk_sys =
  tk_lock :: ticket_lock
  tk_pcs :: "nat \<Rightarrow> tk_pc"
  tk_queue :: "nat list"

inductive tk_step :: "nat \<Rightarrow> tk_sys \<Rightarrow> tk_sys \<Rightarrow> bool" for N :: nat where
  tk_take: "t < N \<Longrightarrow> tk_pcs s t = TkOut \<Longrightarrow> lock_take_ticket (tk_lock s) = (ticket, l) \<Longrightarrow>
     tk_step N s (s\<lparr>tk_lock := l, tk_pcs := (tk_pcs s)(t := TkPolling ticket), tk_queue := tk_queue s @ [t]\<rparr>)"
| tk_enter: "t < N \<Longrightarrow> tk_pcs s t = TkPolling ticket \<Longrightarrow> lock_poll ticket (tk_lock s) \<Longrightarrow>
     tk_step N s (s\<lparr>tk_pcs := (tk_pcs s)(t := TkHolding)\<rparr>)"
| tk_release: "t < N \<Longrightarrow> tk_pcs s t = TkHolding \<Longrightarrow>
     tk_step N s (s\<lparr>tk_lock := LOCAL_LOCK_RELEASE (tk_lock s), tk_pcs := (tk_pcs s)(t := TkOut),
       tk_queue := removeAll t (tk_queue s)\<rparr>)"

definition tk_init :: "tk_sys \<Rightarrow> bool" where
  "tk_init s \<longleftrightarrow> ticket_fresh (tk_lock s) \<and> (\<forall>t. tk_pcs s t = TkOut) \<and> tk_queue s = []"

text \<open>
  The invariant: the tickets of the queue are consecutive and start at the poll word, the
  count is the last of them, and only the first of the queue can hold the lock.
\<close>

definition tk_inv :: "nat \<Rightarrow> tk_sys \<Rightarrow> bool" where
  "tk_inv N s \<longleftrightarrow> distinct (tk_queue s) \<and> set (tk_queue s) = {t. t < N \<and> tk_pcs s t \<noteq> TkOut} \<and>
     ticket_count (tk_lock s) + 1 = ticket_poll (tk_lock s) + of_nat (length (tk_queue s)) \<and>
     (\<forall>i<length (tk_queue s). tk_pcs s (tk_queue s ! i) = TkPolling (ticket_poll (tk_lock s) + of_nat i) \<or>
        i = 0 \<and> tk_pcs s (tk_queue s ! 0) = TkHolding)"

lemma tk_queue_bound:
  assumes "tk_inv N s" shows "length (tk_queue s) \<le> N"
proof -
  have "card (set (tk_queue s)) \<le> card {..<N}"
    using assms by (intro card_mono) (auto simp: tk_inv_def)
  moreover have "card (set (tk_queue s)) = length (tk_queue s)"
    using assms by (intro distinct_card) (simp add: tk_inv_def)
  ultimately show ?thesis by simp
qed

lemma tk_take_kept:
  assumes inv: "tk_inv N s" and t: "t < N" "tk_pcs s t = TkOut"
    and tk: "lock_take_ticket (tk_lock s) = (ticket, l)"
    and s': "s' = s\<lparr>tk_lock := l, tk_pcs := (tk_pcs s)(t := TkPolling ticket), tk_queue := tk_queue s @ [t]\<rparr>"
  shows "tk_inv N s'"
proof -
  have new: "t \<notin> set (tk_queue s)" using inv t by (simp add: tk_inv_def)
  have l: "l = (tk_lock s)\<lparr>ticket_count := ticket_count (tk_lock s) + 1\<rparr>"
    and ticket: "ticket = ticket_poll (tk_lock s) + of_nat (length (tk_queue s))"
    using tk inv by (auto simp: lock_take_ticket_def tk_inv_def)
  have "tk_queue s ! i \<noteq> t" if "i < length (tk_queue s)" for i using new that by (metis nth_mem)
  then show ?thesis
    using inv new t unfolding tk_inv_def
    by (auto simp: s' l ticket nth_append less_Suc_eq ac_simps)
qed

text \<open>The thread that sees its ticket is the first of the queue.\<close>

lemma tk_first:
  assumes inv: "tk_inv N s" "N \<le> 2 ^ 32" and t: "t < N" "tk_pcs s t = TkPolling ticket"
    and poll: "lock_poll ticket (tk_lock s)"
  shows "tk_queue s \<noteq> [] \<and> t = tk_queue s ! 0"
proof -
  have "t \<in> set (tk_queue s)" using inv t by (simp add: tk_inv_def)
  then obtain i where i: "i < length (tk_queue s)" "tk_queue s ! i = t" by (auto simp: in_set_conv_nth)
  then have "ticket = ticket_poll (tk_lock s) + of_nat i" using inv t unfolding tk_inv_def by fastforce
  then have "of_nat i = (0 :: u32)" using poll by (simp add: lock_poll_def)
  moreover have "i < 2 ^ 32" using i tk_queue_bound [OF inv(1)] inv(2) by simp
  ultimately have "i = 0" by (simp only: of_nat_u32_0)
  with i show ?thesis by auto
qed

lemma tk_enter_kept:
  assumes inv: "tk_inv N s" "N \<le> 2 ^ 32" and t: "t < N" "tk_pcs s t = TkPolling ticket"
    and poll: "lock_poll ticket (tk_lock s)"
    and s': "s' = s\<lparr>tk_pcs := (tk_pcs s)(t := TkHolding)\<rparr>"
  shows "tk_inv N s'"
proof -
  have first: "tk_queue s \<noteq> []" "t = tk_queue s ! 0" using tk_first [OF inv t poll] by auto
  have "tk_queue s ! i \<noteq> t" if "0 < i" "i < length (tk_queue s)" for i
    using inv first that by (simp add: tk_inv_def nth_eq_iff_index_eq)
  moreover have "{u. u < N \<and> tk_pcs s' u \<noteq> TkOut} = {u. u < N \<and> tk_pcs s u \<noteq> TkOut}"
    using t by (auto simp: s')
  ultimately show ?thesis
    using inv first unfolding tk_inv_def by (auto simp: s')
qed

lemma tk_release_kept:
  assumes inv: "tk_inv N s" and t: "t < N" "tk_pcs s t = TkHolding"
    and s': "s' = s\<lparr>tk_lock := LOCAL_LOCK_RELEASE (tk_lock s), tk_pcs := (tk_pcs s)(t := TkOut),
       tk_queue := removeAll t (tk_queue s)\<rparr>"
  shows "tk_inv N s'"
proof -
  have "t \<in> set (tk_queue s)" using inv t by (simp add: tk_inv_def)
  then obtain i where i: "i < length (tk_queue s)" "tk_queue s ! i = t" by (auto simp: in_set_conv_nth)
  then have "i = 0" using inv t unfolding tk_inv_def by fastforce
  with i obtain q where q: "tk_queue s = t # q" by (cases "tk_queue s") auto
  have new: "t \<notin> set q" "distinct q" using inv q by (simp_all add: tk_inv_def)
  then have q': "tk_queue s' = q" by (simp add: s' q)
  have "{u. u < N \<and> tk_pcs s' u \<noteq> TkOut} = {u. u < N \<and> tk_pcs s u \<noteq> TkOut} - {t}"
    by (auto simp: s')
  then have "set q = {u. u < N \<and> tk_pcs s' u \<noteq> TkOut}"
    using inv new q by (auto simp: tk_inv_def)
  moreover have "ticket_count (tk_lock s') + 1 = ticket_poll (tk_lock s') + of_nat (length q)"
    using inv q by (simp add: tk_inv_def s' LOCAL_LOCK_RELEASE_def ac_simps)
  moreover have "tk_pcs s' (q ! i) = TkPolling (ticket_poll (tk_lock s') + of_nat i)" if "i < length q" for i
  proof -
    have "tk_pcs s (q ! i) = TkPolling (ticket_poll (tk_lock s) + of_nat (Suc i))"
      using inv q that unfolding tk_inv_def by (metis Suc_less_eq length_Cons nat.distinct(1) nth_Cons_Suc)
    moreover have "q ! i \<noteq> t" using new that by (metis nth_mem)
    ultimately show ?thesis by (simp add: s' LOCAL_LOCK_RELEASE_def ac_simps)
  qed
  ultimately show ?thesis using new unfolding tk_inv_def q' by simp
qed

lemma tk_inv_kept:
  assumes "tk_inv N s" "N \<le> 2 ^ 32" "tk_step N s s'"
  shows "tk_inv N s'"
  using assms(3)
proof cases
  case (tk_take t ticket l)
  then show ?thesis using tk_take_kept [OF assms(1)] by blast
next
  case (tk_enter t ticket)
  then show ?thesis using tk_enter_kept [OF assms(1,2)] by blast
next
  case (tk_release t)
  then show ?thesis using tk_release_kept [OF assms(1)] by blast
qed

text \<open>Fewer threads than tickets; a cluster of eight cores with four threads each is one case.\<close>

locale ticket_threads =
  fixes N :: nat
  assumes few: "N \<le> 2 ^ 32"

sublocale ticket_threads \<subseteq> inductive_invariant tk_init "tk_step N" "tk_inv N"
proof
  show "tk_inv N s" if "tk_init s" for s
    using that by (simp add: tk_init_def tk_inv_def ticket_fresh_def)
  show "tk_inv N t" if "tk_inv N s" "tk_step N s t" for s t
    using tk_inv_kept [OF that(1) few that(2)] .
qed

context ticket_threads
begin

lemma holder_is_first:
  assumes "reachable tk_init (tk_step N) s" "t < N"
    and "tk_pcs s t = TkHolding \<or> (\<exists>ticket. tk_pcs s t = TkPolling ticket \<and> lock_poll ticket (tk_lock s))"
  shows "tk_queue s \<noteq> [] \<and> t = tk_queue s ! 0"
proof -
  have inv: "tk_inv N s" using reachable_inv [OF assms(1)] .
  show ?thesis
  proof (cases "tk_pcs s t = TkHolding")
    case True
    have "t \<in> set (tk_queue s)" using inv assms(2) True by (simp add: tk_inv_def)
    then obtain i where i: "i < length (tk_queue s)" "tk_queue s ! i = t" by (auto simp: in_set_conv_nth)
    then have "i = 0" using inv True unfolding tk_inv_def by fastforce
    with i show ?thesis by auto
  next
    case False
    then show ?thesis using assms(2,3) tk_first [OF inv few] by blast
  qed
qed

lemma first_can_go:
  assumes "reachable tk_init (tk_step N) s" "tk_queue s \<noteq> []"
  shows "tk_pcs s (tk_queue s ! 0) = TkHolding \<or>
    (\<exists>ticket. tk_pcs s (tk_queue s ! 0) = TkPolling ticket \<and> lock_poll ticket (tk_lock s))"
  using reachable_inv [OF assms(1)] assms(2) unfolding tk_inv_def lock_poll_def by fastforce

end

interpretation cluster_lock: ticket_threads 32
  by unfold_locales simp

section \<open>Properties\<close>

text \<open>
  C11: the ticket lock excludes and is fair. With at most as many threads as there are
  tickets, in every interleaving and however often the two words wrap around: a thread that
  holds the lock, or whose poll would succeed, is the one that has waited longest (so at most
  one thread holds the lock), and whenever threads are waiting the longest waiting one holds
  the lock or finds its ticket at its next poll.
\<close>

theorem ticket_lock_fair:
  assumes "N \<le> 2 ^ 32" and "reachable tk_init (tk_step N) s"
  shows "(\<forall>t<N. tk_pcs s t = TkHolding \<or>
        (\<exists>ticket. tk_pcs s t = TkPolling ticket \<and> lock_poll ticket (tk_lock s)) \<longrightarrow>
        tk_queue s \<noteq> [] \<and> t = tk_queue s ! 0) \<and>
    (tk_queue s \<noteq> [] \<longrightarrow> tk_pcs s (tk_queue s ! 0) = TkHolding \<or>
        (\<exists>ticket. tk_pcs s (tk_queue s ! 0) = TkPolling ticket \<and> lock_poll ticket (tk_lock s)))"
proof -
  have "ticket_threads N" using assms(1) by unfold_locales
  then show ?thesis
    using ticket_threads.holder_is_first [of N s] ticket_threads.first_can_go [of N s] assms(2) by blast
qed

definition tk_contended :: tk_sys where
  "tk_contended = \<lparr>tk_lock = \<lparr>ticket_count = 2, ticket_poll = 1\<rparr>,
     tk_pcs = (\<lambda>_. TkOut)(5 := TkHolding, 3 := TkPolling 2), tk_queue = [5, 3]\<rparr>"

lemma tk_contended_reachable: "reachable tk_init (tk_step 8) tk_contended"
proof -
  let ?st = "\<lambda>c pcs q. \<lparr>tk_lock = \<lparr>ticket_count = c, ticket_poll = 1\<rparr>, tk_pcs = pcs, tk_queue = q\<rparr>"
  let ?a = "?st 0 (\<lambda>_. TkOut) []" and ?b = "?st 1 ((\<lambda>_. TkOut)(5 := TkPolling 1)) [5]"
  let ?c = "?st 1 ((\<lambda>_. TkOut)(5 := TkHolding)) [5]"
  have "reachable tk_init (tk_step 8) ?a"
    by (intro reachable.reach_init) (simp add: tk_init_def ticket_fresh_def)
  moreover have "tk_step 8 ?a ?b"
    using tk_take [of 5 8 ?a] by (simp add: lock_take_ticket_def)
  moreover have "tk_step 8 ?b ?c"
    using tk_enter [of 5 8 ?b 1] by (simp add: lock_poll_def)
  moreover have "tk_step 8 ?c tk_contended"
    using tk_take [of 3 8 ?c] by (simp add: lock_take_ticket_def tk_contended_def)
  ultimately show ?thesis
    by (rule reachable.reach_step [OF reachable.reach_step [OF reachable.reach_step]])
qed

theorem ticket_lock_fair_witness:
  "reachable tk_init (tk_step 8) tk_contended \<and> tk_pcs tk_contended 5 = TkHolding \<and>
   tk_queue tk_contended \<noteq> [] \<and> 5 = tk_queue tk_contended ! 0"
proof -
  have holds: "tk_pcs tk_contended 5 = TkHolding" by (simp add: tk_contended_def)
  have "tk_queue tk_contended \<noteq> [] \<and> 5 = tk_queue tk_contended ! 0"
    by (rule conjunct1 [OF ticket_lock_fair [OF _ tk_contended_reachable], rule_format])
      (simp_all add: holds)
  with holds tk_contended_reachable show ?thesis by blast
qed

end
