(* ===== verification/Rtm_Sw.thy ===== *)
theory Rtm_Sw
  imports Rigel_Atomics Ticket_Lock Task_Types "HOL-Library.Signed_Division"
begin

text \<open>
  The software task queue of libpar: its globals (rtm-sw-common.c), its initialisation and
  configuration (rtm-sw-init.c, rtm-sw-common.c), the parallel enqueue
  (\<open>SW_TaskQueue_Loop_PARALLEL\<close> of rtm-sw-enqueue.c) and the dequeue (rtm-sw-dequeue.c). The
  sizes of the tables come from a header outside the repository and are arguments. A pointer
  into the descriptor pool \<open>GLOBAL_taskqueue_data\<close> is an index, NULL is \<open>None\<close>. The functions
  are the behaviour of a call that no other thread interrupts; a wait that then never ends is
  the result \<open>None\<close>.
\<close>

section \<open>Globals: rtm-sw-common.c\<close>

record tq_entry =
  te_desc :: tq_task_desc
  te_next :: "nat option"

type_synonym tq_group = "nat option list"

record rtm_sw =
  sw_group_fetch :: int
  sw_datapar_mode :: int
  sw_local_enqueue_count :: int
  sw_init_flag :: u32
  sw_enqueue_lock :: u32
  sw_head_index :: u32
  sw_tail_index :: u32
  sw_tail_data :: u32
  sw_head_data :: u32
  sw_index :: "tq_group list"
  sw_data :: "tq_entry list"
  sw_cluster_head :: "nat option list"
  sw_local_sense :: "u32 list"
  sw_cluster_core_sense :: "u32 list"
  sw_local_sense_enq :: "u32 list"
  sw_cluster_enq :: "u32 list"
  sw_cluster_sense :: "u32 list"
  sw_global_sense :: u32
  sw_waitcount0 :: u32
  sw_waitcount1 :: u32
  sw_core_waitcount :: "u32 list"
  sw_numcores :: u32
  sw_numclusters :: u32
  sw_threads_per_cluster :: u32
  sw_numcores_shift :: nat
  sw_numclusters_shift :: nat
  sw_tickets :: "ticket_lock list"
  sw_gtq_lock :: "u32 list"

definition SW_TaskQueue_Set_TASK_GROUP_FETCH :: "int \<Rightarrow> rtm_sw \<Rightarrow> int \<times> rtm_sw" where
  "SW_TaskQueue_Set_TASK_GROUP_FETCH prefetch_count s = (prefetch_count, s\<lparr>sw_group_fetch := prefetch_count\<rparr>)"

definition SW_TaskQueue_Set_DATA_PARALLEL_MODE :: "rtm_sw \<Rightarrow> rtm_sw" where
  "SW_TaskQueue_Set_DATA_PARALLEL_MODE s = s\<lparr>sw_datapar_mode := 1\<rparr>"

definition SW_TaskQueue_Set_LOCAL_ENQUEUE_COUNT :: "int \<Rightarrow> rtm_sw \<Rightarrow> int \<times> rtm_sw" where
  "SW_TaskQueue_Set_LOCAL_ENQUEUE_COUNT enqueue_count s =
     (enqueue_count, s\<lparr>sw_local_enqueue_count := enqueue_count\<rparr>)"

text \<open>
  The loop that looks for the lowest set bit. It does not end when there is none: the mask is
  shifted out and stays zero.
\<close>

partial_function (option) find_shift :: "u32 \<Rightarrow> u32 \<Rightarrow> nat \<Rightarrow> nat option" where
  "find_shift n msk shift =
     (if msk AND n = 0 then find_shift n (push_bit 1 msk) (Suc shift) else Some shift)"

definition SW_TaskQueue_SetThreadsPerCluster :: "u32 \<Rightarrow> rtm_sw \<Rightarrow> (int \<times> rtm_sw) option" where
  "SW_TaskQueue_SetThreadsPerCluster threads s =
     (let num_cores = threads * sw_numclusters s in
      case find_shift num_cores 1 0 of
        None \<Rightarrow> None
      | Some shift \<Rightarrow>
          if push_bit shift 1 \<noteq> num_cores then Some (- 1, s)
          else Some (0, s\<lparr>sw_numcores_shift := shift, sw_numcores := num_cores,
                         sw_threads_per_cluster := threads\<rparr>))"

section \<open>Initialisation: rtm-sw-init.c\<close>

text \<open>
  \<open>ALIGNED_MALLOC\<close> of the benchmarks' macros.h rounds the address \<open>malloc\<close> returned up to a
  multiple of the alignment.
\<close>

definition aligned_ptr :: "nat \<Rightarrow> u32 \<Rightarrow> u32" where
  "aligned_ptr alignmentshift baseptr =
     (baseptr + (push_bit alignmentshift 1 - 1)) AND (0xFFFFFFFF XOR (push_bit alignmentshift 1 - 1))"

text \<open>
  The two tables are what the allocation returned (\<open>None\<close> ends in \<open>RigelAbort\<close>). \<open>cores\<close>,
  \<open>clusters\<close> and \<open>threads\<close> are what the hardware reports.
\<close>

definition clear_core :: "nat \<Rightarrow> rtm_sw \<Rightarrow> rtm_sw c_result" where
  "clear_core i s =
     bnd (wr (sw_local_sense s) i 0) (\<lambda>ls.
     bnd (wr (sw_local_sense_enq s) i 0) (\<lambda>le.
     Inr (s\<lparr>sw_local_sense := ls, sw_local_sense_enq := le\<rparr>)))"

definition clear_cluster :: "nat \<Rightarrow> rtm_sw \<Rightarrow> rtm_sw c_result" where
  "clear_cluster i s =
     bnd (wr (sw_cluster_sense s) i 0) (\<lambda>a.
     bnd (wr (sw_cluster_core_sense s) i 0) (\<lambda>b.
     bnd (wr (sw_cluster_enq s) i 0) (\<lambda>c.
     bnd (rd (sw_tickets s) i) (\<lambda>l.
     bnd (wr (sw_tickets s) i (l\<lparr>ticket_count := 0, ticket_poll := 1\<rparr>)) (\<lambda>d.
     bnd (wr (sw_gtq_lock s) i 0) (\<lambda>e.
     bnd (wr (sw_core_waitcount s) i 0) (\<lambda>f.
     Inr (s\<lparr>sw_cluster_sense := a, sw_cluster_core_sense := b, sw_cluster_enq := c,
            sw_tickets := d, sw_gtq_lock := e, sw_core_waitcount := f\<rparr>))))))))"

definition SW_TaskQueue_Init ::
  "nat \<Rightarrow> tq_group list option \<Rightarrow> tq_entry list option \<Rightarrow> u32 \<Rightarrow> u32 \<Rightarrow> u32 \<Rightarrow> rtm_sw \<Rightarrow>
   (tq_ret_type \<times> rtm_sw) c_result option" where
  "SW_TaskQueue_Init max_clusters index_mem data_mem cores clusters threads s =
     (if atomic_flag_check (sw_init_flag s) \<noteq> 0 then Some (Inl AssertFailed)
      else case (index_mem, data_mem) of
        (Some im, Some dm) \<Rightarrow>
          (let s = s\<lparr>sw_index := im, sw_data := dm, sw_group_fetch := 1, sw_numcores := cores,
                     sw_numclusters := clusters, sw_threads_per_cluster := threads\<rparr>
           in case find_shift cores 1 0 of
                None \<Rightarrow> None
              | Some cs \<Rightarrow>
                  if push_bit cs 1 \<noteq> cores then Some (Inl Aborted)
                  else case find_shift clusters 1 0 of
                         None \<Rightarrow> None
                       | Some ls \<Rightarrow>
                           if push_bit ls 1 \<noteq> clusters then Some (Inl AssertFailed)
                           else Some (
                             bnd (for_n (unat cores) clear_core
                                   (s\<lparr>sw_numcores_shift := cs, sw_numclusters_shift := ls,
                                      sw_head_data := 0, sw_tail_data := 0, sw_head_index := 0,
                                      sw_tail_index := 0, sw_global_sense := 0, sw_waitcount0 := 0,
                                      sw_waitcount1 := 0\<rparr>)) (\<lambda>s.
                             bnd (for_n max_clusters clear_cluster s) (\<lambda>s.
                             Inr (TQ_RET_SUCCESS, s\<lparr>sw_init_flag := atomic_flag_set (sw_init_flag s)\<rparr>)))))
      | _ \<Rightarrow> Some (Inl Aborted))"

definition SW_TaskQueue_End :: "rtm_sw \<Rightarrow> (tq_ret_type \<times> rtm_sw) c_result" where
  "SW_TaskQueue_End s =
     (if atomic_flag_check (sw_init_flag s) = 0 then Inl AssertFailed
      else Inr (TQ_RET_SUCCESS, s\<lparr>sw_init_flag := atomic_flag_clear (sw_init_flag s),
                                 sw_data := [], sw_index := []\<rparr>))"

section \<open>The share of a cluster: SW_TaskQueue_Loop_PARALLEL\<close>

text \<open>
  The number of tasks, by shifts for the small powers of two, and the iterations
  \<open>[start, end)\<close> a cluster enqueues with the number of its task groups; \<open>None\<close> is the early
  return when there is no work for the cluster. \<open>G\<close> is \<open>__DEFAULT_TASK_GROUP_SIZE\<close>. The quotient of
  the default case and the two operations of \<open>tot_tasks + __DEFAULT_TASK_GROUP_SIZE - 1\<close> are
  computed in \<open>int\<close>, so that they can overflow; the later ones are computed in \<open>unsigned int\<close>.
\<close>

definition count_tasks :: "int \<Rightarrow> int \<Rightarrow> int c_result" where
  "count_tasks tot_iters iters_per_task =
     (if iters_per_task = 1 then Inr tot_iters
      else if iters_per_task = 2 then Inr (drop_bit 1 tot_iters)
      else if iters_per_task = 4 then Inr (drop_bit 2 tot_iters)
      else if iters_per_task = 8 then Inr (drop_bit 3 tot_iters)
      else if iters_per_task = 0 then Inl DivByZero
      else c_int (tot_iters sdiv iters_per_task))"

definition cluster_share ::
  "nat \<Rightarrow> u32 \<Rightarrow> nat \<Rightarrow> u32 \<Rightarrow> int \<Rightarrow> int \<Rightarrow> (u32 \<times> u32 \<times> u32) option c_result" where
  "cluster_share G numclusters shift cluster_num tot_iters iters_per_task =
     bnd (count_tasks tot_iters iters_per_task) (\<lambda>tot_tasks.
     bnd (c_int (tot_tasks + int G)) (\<lambda>n. bnd (c_int (n - 1)) (\<lambda>n.
       let task_groups_total = word_of_int (n sdiv int G);
           per_cluster = drop_bit shift (task_groups_total + numclusters - 1);
           istart = per_cluster * cluster_num * word_of_int iters_per_task * of_nat G;
           iend = per_cluster * (cluster_num + 1) * word_of_int iters_per_task * of_nat G;
           tot = word_of_int tot_iters
       in if tot \<le> istart then Inr None
          else Inr (Some (per_cluster, istart, if tot < iend then tot else iend)))))"

section \<open>Facts\<close>

lemma exp_and_eq_0: "2 ^ k AND n = 0 \<longleftrightarrow> \<not> bit n k" for n :: u32
  by (simp add: and.commute [of _ n] and_exp_eq_0_iff_not_bit)

lemma find_shift_from:
  assumes "bit n k" "\<forall>j<k. \<not> bit n j" "i \<le> k"
  shows "find_shift n (push_bit i 1) i = Some k"
  using assms(3)
proof (induction "k - i" arbitrary: i)
  case 0
  then have "i = k" by simp
  with assms(1) show ?case by (subst find_shift.simps) (simp add: exp_and_eq_0)
next
  case (Suc d)
  then have "i < k" by simp
  then have "find_shift n (push_bit i 1) i = find_shift n (push_bit (Suc i) 1) (Suc i)"
    using assms(2) by (subst find_shift.simps) (simp add: exp_and_eq_0 mult.commute)
  with Suc.hyps(1) [of "Suc i"] Suc.hyps(2) \<open>i < k\<close> show ?case by simp
qed

lemma find_shift_None: "find_shift 0 msk shift = None"
proof -
  have "find_shift n msk shift = Some r \<Longrightarrow> n \<noteq> 0" for n msk shift r
  proof (rule find_shift.raw_induct [of "\<lambda>n msk shift r. n \<noteq> 0" n msk shift r])
    fix f and n msk :: u32 and shift r :: nat
    assume "\<And>n msk shift r. f n msk shift = Some r \<Longrightarrow> n \<noteq> 0"
      and "(if msk AND n = 0 then f n (push_bit 1 msk) (Suc shift) else Some shift) = Some r"
    then show "n \<noteq> 0" by (auto split: if_splits)
  qed
  then show ?thesis by (metis not_Some_eq)
qed

lemma find_shift_pow2: "a < 32 \<Longrightarrow> find_shift (2 ^ a) 1 0 = Some a"
  using find_shift_from [of "2 ^ a" a 0] by (simp add: bit_simps)

lemma find_shift_Some:
  assumes "n \<noteq> 0"
  shows "\<exists>k<32. find_shift n 1 0 = Some k \<and> (push_bit k 1 = n \<longleftrightarrow> (\<exists>a<32. n = 2 ^ a))"
proof -
  obtain j where j: "bit n j" using assms by (auto simp: bit_eq_iff)
  define k where "k = (LEAST j. bit n j)"
  have k: "bit n k" "\<forall>j<k. \<not> bit n j"
    unfolding k_def using LeastI [of "bit n", OF j] not_less_Least by blast+
  have "k < 32" using bit_imp_le_length [OF k(1)] by simp
  have shift: "find_shift n 1 0 = Some k" using find_shift_from [OF k, of 0] by simp
  have "push_bit k 1 = n \<longleftrightarrow> (\<exists>a<32. n = 2 ^ a)"
    using \<open>k < 32\<close> shift find_shift_pow2 by (auto simp: push_bit_eq_mult)
  with \<open>k < 32\<close> shift show ?thesis by blast
qed

lemma fill_step:
  "n < length xs \<Longrightarrow> (replicate n v @ drop n xs)[n := v] = replicate (Suc n) v @ drop (Suc n) xs"
  by (simp add: list_update_append Cons_nth_drop_Suc [symmetric] replicate_append_same [symmetric])

lemma clear_cores:
  assumes "n \<le> length (sw_local_sense s)" "n \<le> length (sw_local_sense_enq s)"
  shows "for_n n clear_core s = Inr (s\<lparr>sw_local_sense := replicate n 0 @ drop n (sw_local_sense s),
     sw_local_sense_enq := replicate n 0 @ drop n (sw_local_sense_enq s)\<rparr>)"
  using assms
proof (induction n)
  case (Suc n)
  then show ?case by (simp add: clear_core_def c_monad fill_step del: replicate_Suc)
qed simp

lemma ticket_reset: "l\<lparr>ticket_count := 0, ticket_poll := 1\<rparr> = \<lparr>ticket_count = 0, ticket_poll = 1\<rparr>"
  for l :: ticket_lock
  by simp

definition cluster_arrays :: "nat \<Rightarrow> rtm_sw \<Rightarrow> bool" where
  "cluster_arrays n s \<longleftrightarrow> n \<le> length (sw_cluster_sense s) \<and> n \<le> length (sw_cluster_core_sense s) \<and>
     n \<le> length (sw_cluster_enq s) \<and> n \<le> length (sw_tickets s) \<and> n \<le> length (sw_gtq_lock s) \<and>
     n \<le> length (sw_core_waitcount s)"

lemma clear_clusters:
  assumes "cluster_arrays n s"
  shows "for_n n clear_cluster s = Inr (s\<lparr>
     sw_cluster_sense := replicate n 0 @ drop n (sw_cluster_sense s),
     sw_cluster_core_sense := replicate n 0 @ drop n (sw_cluster_core_sense s),
     sw_cluster_enq := replicate n 0 @ drop n (sw_cluster_enq s),
     sw_tickets := replicate n \<lparr>ticket_count = 0, ticket_poll = 1\<rparr> @ drop n (sw_tickets s),
     sw_gtq_lock := replicate n 0 @ drop n (sw_gtq_lock s),
     sw_core_waitcount := replicate n 0 @ drop n (sw_core_waitcount s)\<rparr>)"
  using assms
proof (induction n)
  case (Suc n)
  have "cluster_arrays n s" using Suc.prems by (simp add: cluster_arrays_def)
  note step = for_n.simps(2) [of n clear_cluster s, unfolded Suc.IH [OF this] bnd_Inr]
  show ?case
    by (simp only: step) (use Suc.prems in \<open>simp add: clear_cluster_def c_monad fill_step cluster_arrays_def ticket_reset
        del: replicate_Suc\<close>)
qed simp

section \<open>Properties\<close>

text \<open>
  initialisation of the software task queue. On tables that are large enough it
  succeeds exactly when the numbers of cores and clusters are powers of two, and then the two
  shifts are their logarithms, all locks are free, all senses and counters zero; it aborts or
  fails an assertion for other numbers and does not end for zero. A second initialisation
  fails until \<open>SW_TaskQueue_End\<close>.
\<close>

theorem rtm_sw_init:
  assumes "atomic_flag_check (sw_init_flag s) = 0" and "cluster_arrays m s"
    and "unat cores \<le> length (sw_local_sense s)" and "unat cores \<le> length (sw_local_sense_enq s)"
  shows "case SW_TaskQueue_Init m (Some im) (Some dm) cores clusters threads s of
      None \<Rightarrow> cores = 0 \<or> clusters = 0
    | Some (Inl e) \<Rightarrow> e = Aborted \<and> (\<nexists>a. a < 32 \<and> cores = 2 ^ a) \<or>
        e = AssertFailed \<and> (\<nexists>b. b < 32 \<and> clusters = 2 ^ b)
    | Some (Inr (r, s')) \<Rightarrow> r = TQ_RET_SUCCESS \<and> cores = 2 ^ sw_numcores_shift s' \<and>
        clusters = 2 ^ sw_numclusters_shift s' \<and> sw_numcores s' = cores \<and> sw_numclusters s' = clusters \<and>
        sw_head_index s' = 0 \<and> sw_tail_index s' = 0 \<and> sw_head_data s' = 0 \<and>
        (\<forall>c<m. ticket_fresh (sw_tickets s' ! c) \<and> sw_gtq_lock s' ! c = 0 \<and> sw_core_waitcount s' ! c = 0 \<and>
           sw_cluster_sense s' ! c = 0 \<and> sw_cluster_enq s' ! c = 0) \<and>
        SW_TaskQueue_Init m' im' dm' cores' clusters' threads' s' = Some (Inl AssertFailed) \<and>
        (\<exists>s''. SW_TaskQueue_End s' = Inr (TQ_RET_SUCCESS, s'') \<and> atomic_flag_check (sw_init_flag s'') = 0)"
proof -
  let ?s = "\<lambda>a b. s\<lparr>sw_index := im, sw_data := dm, sw_group_fetch := 1, sw_numcores := cores,
     sw_numclusters := clusters, sw_threads_per_cluster := threads,
     sw_numcores_shift := a, sw_numclusters_shift := b,
     sw_head_data := 0, sw_tail_data := 0, sw_head_index := 0,
     sw_tail_index := 0, sw_global_sense := 0, sw_waitcount0 := 0, sw_waitcount1 := 0\<rparr>"
  note init = SW_TaskQueue_Init_def [of m "Some im" "Some dm" cores clusters threads s]
  show ?thesis
  proof (cases "cores = 0")
    case True
    then show ?thesis unfolding init using assms(1) by (simp add: find_shift_None)
  next
    case False
    then obtain a where a: "a < 32" "find_shift cores 1 0 = Some a"
      "push_bit a 1 = cores \<longleftrightarrow> (\<exists>i<32. cores = 2 ^ i)" using find_shift_Some by blast
    show ?thesis
    proof (cases "push_bit a 1 = cores")
      case False
      with a have "\<nexists>i. i < 32 \<and> cores = 2 ^ i" by blast
      with a False assms(1) show ?thesis unfolding init by simp
    next
      case cores: True
      show ?thesis
      proof (cases "clusters = 0")
        case True
        then show ?thesis unfolding init using assms(1) a cores by (simp add: find_shift_None)
      next
        case False
        then obtain b where b: "b < 32" "find_shift clusters 1 0 = Some b"
          "push_bit b 1 = clusters \<longleftrightarrow> (\<exists>i<32. clusters = 2 ^ i)" using find_shift_Some by blast
        show ?thesis
        proof (cases "push_bit b 1 = clusters")
          case False
          with b have "\<nexists>i. i < 32 \<and> clusters = 2 ^ i" by blast
          with a b False cores assms(1) show ?thesis unfolding init by simp
        next
          case True
          have "for_n (unat cores) clear_core (?s a b) = Inr ((?s a b)\<lparr>
              sw_local_sense := replicate (unat cores) 0 @ drop (unat cores) (sw_local_sense s),
              sw_local_sense_enq := replicate (unat cores) 0 @ drop (unat cores) (sw_local_sense_enq s)\<rparr>)"
            using clear_cores [of "unat cores" "?s a b"] assms(3,4) by simp
          moreover have "cluster_arrays m (?s a b\<lparr>sw_local_sense := x, sw_local_sense_enq := y\<rparr>)" for x y
            using assms(2) by (simp add: cluster_arrays_def)
          ultimately show ?thesis
            unfolding init using a b True cores assms(1)
            by (auto simp: clear_clusters c_monad nth_append ticket_fresh_def atomic_flag_set_def
                atomic_flag_check_def atomic_flag_clear_def SW_TaskQueue_End_def SW_TaskQueue_Init_def
                push_bit_eq_mult)
        qed
      qed
    qed
  qed
qed

definition sw_cold :: rtm_sw where
  "sw_cold = \<lparr>sw_group_fetch = 1, sw_datapar_mode = 0, sw_local_enqueue_count = 0, sw_init_flag = 0,
     sw_enqueue_lock = 0, sw_head_index = 0, sw_tail_index = 0, sw_tail_data = 0, sw_head_data = 0,
     sw_index = [], sw_data = [], sw_cluster_head = [None], sw_local_sense = replicate 8 1,
     sw_cluster_core_sense = [1], sw_local_sense_enq = replicate 8 1, sw_cluster_enq = [1],
     sw_cluster_sense = [1], sw_global_sense = 1, sw_waitcount0 = 1, sw_waitcount1 = 1,
     sw_core_waitcount = [1], sw_numcores = 0, sw_numclusters = 0, sw_threads_per_cluster = 0,
     sw_numcores_shift = 0, sw_numclusters_shift = 0,
     sw_tickets = [\<lparr>ticket_count = 7, ticket_poll = 7\<rparr>], sw_gtq_lock = [1]\<rparr>"

theorem rtm_sw_init_witness:
  "\<exists>s'. SW_TaskQueue_Init 1 (Some []) (Some []) 8 1 8 sw_cold = Some (Inr (TQ_RET_SUCCESS, s')) \<and>
     8 = (2 :: u32) ^ sw_numcores_shift s' \<and> ticket_fresh (sw_tickets s' ! 0)"
proof -
  have pow: "\<exists>a<32. 8 = (2 :: u32) ^ a" "\<exists>b<32. 1 = (2 :: u32) ^ b"
    by (rule exI [of _ 3], simp) (rule exI [of _ 0], simp)
  have "atomic_flag_check (sw_init_flag sw_cold) = 0" "cluster_arrays 1 sw_cold"
    "unat (8 :: u32) \<le> length (sw_local_sense sw_cold)" "unat (8 :: u32) \<le> length (sw_local_sense_enq sw_cold)"
    by (simp_all add: sw_cold_def atomic_flag_check_def cluster_arrays_def)
  from rtm_sw_init [OF this, where im = "[]" and dm = "[]" and clusters = 1 and threads = 8 and m' = 1
      and im' = None and dm' = None and cores' = 8 and clusters' = 1 and threads' = 8] pow show ?thesis
    by (cases "SW_TaskQueue_Init 1 (Some []) (Some []) 8 1 8 sw_cold") (auto split: sum.splits)
qed

text \<open>The share in natural numbers, when no product wraps around.\<close>

definition share_groups :: "nat \<Rightarrow> nat \<Rightarrow> nat \<Rightarrow> nat \<Rightarrow> nat" where
  "share_groups G C tot k = ((tot div k + G - 1) div G + C - 1) div C"

lemma sdiv_nat: "int n sdiv int m = int (n div m)"
  by (cases "n = 0"; cases "m = 0") (simp_all add: signed_divide_int_def zdiv_int)

text \<open>Both arguments are values of the type \<open>int\<close>, and adding the group size does not overflow.\<close>

definition loop_ints :: "nat \<Rightarrow> nat \<Rightarrow> bool" where
  "loop_ints tot k \<longleftrightarrow> int tot \<le> INT_MAX \<and> int k \<le> INT_MAX"

definition loop_fits :: "nat \<Rightarrow> nat \<Rightarrow> nat \<Rightarrow> bool" where
  "loop_fits G tot k \<longleftrightarrow> loop_ints tot k \<and> int (tot div k + G) \<le> INT_MAX"

lemma count_tasks_nat:
  assumes "0 < k" "loop_ints tot k"
  shows "count_tasks (int tot) (int k) = Inr (int (tot div k))"
proof -
  have "int (tot div k) \<le> INT_MAX"
    using assms(2) div_le_dividend [of tot k] unfolding loop_ints_def by linarith
  then show ?thesis
    using assms(1) by (simp add: count_tasks_def drop_bit_eq_div sdiv_nat c_int_nat) (simp add: zdiv_int)
qed

lemma cluster_share_overflow:
  assumes "0 < k" "loop_ints tot k" "\<not> loop_fits G tot k"
  shows "cluster_share G C b c (int tot) (int k) = Inl IntOverflow"
proof -
  have "INT_MAX < int (tot div k) + int G" using assms(2,3) by (simp add: loop_fits_def)
  then show ?thesis
    unfolding cluster_share_def count_tasks_nat [OF assms(1,2)] by (simp add: c_monad c_int_over)
qed

lemma share_groups_le:
  assumes "0 < C" "0 < G" "0 < k"
  shows "share_groups G C tot k * C * k * G < tot + C * G * k"
proof -
  let ?q = "tot div k" let ?g = "(?q + G - 1) div G" let ?P = "share_groups G C tot k"
  have "?P * C \<le> ?g + C - 1" by (simp add: share_groups_def div_times_less_eq_dividend)
  then have "?P * C * G \<le> (?g + C - 1) * G" by simp
  also have "\<dots> = ?g * G + (C - 1) * G" using assms(1) by (simp add: algebra_simps diff_mult_distrib)
  also have "\<dots> \<le> ?q + G - 1 + (C - 1) * G" by (simp add: div_times_less_eq_dividend)
  also have "\<dots> < ?q + C * G" using assms by (cases C) auto
  finally have "?P * C * G * k < (?q + C * G) * k" using assms(3) by simp
  also have "\<dots> \<le> tot + C * G * k" by (simp add: algebra_simps div_times_less_eq_dividend)
  finally show ?thesis by (simp add: ac_simps)
qed

lemma share_groups_enough:
  assumes "0 < C" "0 < G" "0 < k" "k dvd tot"
  shows "tot \<le> share_groups G C tot k * C * k * G"
proof -
  let ?q = "tot div k" let ?g = "(?q + G - 1) div G" let ?P = "share_groups G C tot k"
  have ceil: "n \<le> (n + m - 1) div m * m" if "0 < m" for n m :: nat
  proof -
    show ?thesis using dividend_less_div_times [OF that, of "n + m - 1"] that by linarith
  qed
  have "?q \<le> ?g * G" using ceil [OF assms(2)] .
  also have "\<dots> \<le> (?P * C) * G" using ceil [OF assms(1), of ?g] by (simp add: share_groups_def)
  finally have "?q * k \<le> ?P * C * G * k" by simp
  then show ?thesis using assms(4) by (simp add: ac_simps)
qed

lemma unat_mult4:
  fixes p c k g :: nat
  assumes "p * c * k * g < 2 ^ 32"
  shows "unat (of_nat p * of_nat c * of_nat k * of_nat g :: u32) = p * c * k * g"
  using assms by (simp add: unsigned_of_nat take_bit_nat_eq_self flip: of_nat_mult)

lemma tile_clipped:
  "concat (map (\<lambda>c. [min (c * w) n..<min (Suc c * w) n]) [0..<m]) = [0..<min (m * w) n]" for n w m :: nat
proof (induction m)
  case (Suc m)
  have "min (m * w) n \<le> min (Suc m * w) n" by simp
  then have "[0..<min (Suc m * w) n] = [0..<min (m * w) n] @ [min (m * w) n..<min (Suc m * w) n]"
    by (metis le_add_diff_inverse upt_add_eq_append zero_le)
  with Suc show ?case by simp
qed simp

lemma groups_bound:
  fixes tot k C G :: nat
  assumes "0 < C" "0 < G" "0 < k"
  shows "(tot div k + G - 1) div G + C - 1 < tot + C * G * k"
proof -
  obtain c g where cg: "C = Suc c" "G = Suc g" using assms by (metis gr0_implies_Suc)
  have "(tot div k + G - 1) div G \<le> tot div k + G - 1" by (rule div_le_dividend)
  moreover have "tot div k \<le> tot" by simp
  moreover have "G - 1 + (C - 1) < C * G" by (simp add: cg)
  moreover have "C * G \<le> C * G * k" using assms(3) by simp
  ultimately show ?thesis using assms by linarith
qed

lemma cluster_share_nat:
  assumes "C = 2 ^ b" "b < 32" "0 < G" "0 < k" "tot + C * G * k < 2 ^ 32" "loop_fits G tot k" "c < C"
  shows "cluster_share G (of_nat C) b (of_nat c) (int tot) (int k) =
    (let P = share_groups G C tot k; w = P * k * G
     in if tot \<le> c * w then Inr None
        else Inr (Some (of_nat P, of_nat (c * w), of_nat (min tot (Suc c * w)))))"
proof -
  let ?q = "tot div k" let ?g = "(?q + G - 1) div G" let ?P = "share_groups G C tot k"
  have C: "0 < C" using assms(1) by simp
  have ints: "loop_ints tot k" and sum: "int (?q + G) \<le> INT_MAX" using assms(6) by (simp_all add: loop_fits_def)
  have n: "c_int (int ?q + int G) = Inr (int (?q + G))" "c_int (int (?q + G) - 1) = Inr (int (?q + G - 1))"
    using c_int_nat [OF sum] c_int_nat [of "?q + G - 1"] sum assms(3) by (simp_all add: of_nat_diff algebra_simps)
  have small: "?g + C - 1 < 2 ^ 32" using groups_bound [OF C assms(3,4), of tot] assms(5) by linarith
  have "(of_nat ?g + of_nat C - 1 :: u32) = of_nat (?g + C - 1)" using C by (simp add: of_nat_diff)
  moreover have "unat (drop_bit b (of_nat (?g + C - 1) :: u32)) = ?P"
    by (simp only: unat_drop_bit_eq unat_of_nat_u32 [OF small])
      (simp only: drop_bit_eq_div share_groups_def assms(1))
  ultimately have per: "drop_bit b (of_nat ?g + of_nat C - 1 :: u32) = of_nat ?P" by (metis of_nat_unat ucast_id)
  have "?P * Suc c * k * G \<le> ?P * C * k * G" using assms(7) by (intro mult_le_mono) simp_all
  then have fits: "?P * Suc c * k * G < 2 ^ 32" "?P * c * k * G < 2 ^ 32"
    using share_groups_le [OF C assms(3,4), of tot] assms(5) by (auto simp: algebra_simps)
  have tot: "unat (of_nat tot :: u32) = tot" using assms(5) by (simp add: unat_of_nat_u32)
  have bounds: "(of_nat ?P * of_nat c * of_nat k * of_nat G :: u32) = of_nat (c * (?P * k * G))"
    "(of_nat ?P * (of_nat c + 1) * of_nat k * of_nat G :: u32) = of_nat (Suc c * (?P * k * G))"
    by (simp_all add: algebra_simps)
  have un: "unat (of_nat (c * (?P * k * G)) :: u32) = c * (?P * k * G)"
    "unat (of_nat (Suc c * (?P * k * G)) :: u32) = Suc c * (?P * k * G)"
    using fits by (intro unat_of_nat_u32; simp add: ac_simps)+
  have le: "(of_nat tot :: u32) \<le> of_nat (c * (?P * k * G)) \<longleftrightarrow> tot \<le> c * (?P * k * G)"
    and less: "(of_nat tot :: u32) < of_nat (Suc c * (?P * k * G)) \<longleftrightarrow> tot < Suc c * (?P * k * G)"
    by (simp_all only: word_le_nat_alt word_less_nat_alt un tot)
  show ?thesis
    unfolding cluster_share_def count_tasks_nat [OF assms(4) ints] bnd_Inr n sdiv_nat Let_def of_int_of_nat_eq per bounds le less
    by (simp add: min_def del: of_nat_mult of_nat_Suc mult_Suc)
qed

text \<open>The iterations a cluster enqueues.\<close>

definition share_iters :: "(u32 \<times> u32 \<times> u32) option c_result \<Rightarrow> nat list" where
  "share_iters r = (case r of Inr (Some (per, istart, iend)) \<Rightarrow> [unat istart..<unat iend] | _ \<Rightarrow> [])"

lemma share_iters_nat:
  assumes "C = 2 ^ b" "b < 32" "0 < G" "0 < k" "tot + C * G * k < 2 ^ 32" "loop_fits G tot k" "c < C"
  shows "share_iters (cluster_share G (of_nat C) b (of_nat c) (int tot) (int k)) =
    [min (c * (share_groups G C tot k * k * G)) tot..<min (Suc c * (share_groups G C tot k * k * G)) tot]"
proof -
  let ?w = "share_groups G C tot k * k * G"
  have "tot < 2 ^ 32" using assms(5) by simp
  then have un: "unat (of_nat (min tot (Suc c * ?w)) :: u32) = min tot (Suc c * ?w)"
    by (intro unat_of_nat_u32) (simp add: min_def)
  have "unat (of_nat (c * ?w) :: u32) = c * ?w" if "c * ?w < tot"
    using that \<open>tot < 2 ^ 32\<close> by (intro unat_of_nat_u32) linarith
  then show ?thesis
    unfolding cluster_share_nat [OF assms] share_iters_def Let_def
    using un by (auto simp: min_def not_le simp del: mult_Suc)
qed

text \<open>
  C21: the parallel enqueue splits the iterations. Let the total and the chunk size be values of
  \<open>int\<close>, on \<open>2 ^ b\<close> clusters and with no unsigned product wrapping around. As long as the number of
  tasks plus the group size is an \<open>int\<close> too, the shares of the clusters, one after the other, are
  the iterations from 0 up to the total or up to the capacity of the task groups, whichever is less;
  they are all iterations, each once, whenever the chunk size divides the total. Otherwise the
  addition overflows on every cluster.
\<close>

theorem parallel_loop_shares:
  assumes "b < 32" and "0 < G" and "0 < k" and "tot + 2 ^ b * G * k < 2 ^ 32" and "loop_ints tot k"
  shows "if int (tot div k) + int G \<le> INT_MAX
    then concat (map (\<lambda>c. share_iters (cluster_share G (of_nat (2 ^ b)) b (of_nat c) (int tot) (int k)))
        [0..<2 ^ b]) = [0..<min (2 ^ b * (share_groups G (2 ^ b) tot k * k * G)) tot] \<and>
      (k dvd tot \<longrightarrow> concat (map (\<lambda>c. share_iters (cluster_share G (of_nat (2 ^ b)) b (of_nat c)
        (int tot) (int k))) [0..<2 ^ b]) = [0..<tot])
    else \<forall>c. cluster_share G (of_nat (2 ^ b)) b c (int tot) (int k) = Inl IntOverflow"
proof (cases "loop_fits G tot k")
  case True
  let ?w = "share_groups G (2 ^ b) tot k * k * G"
  have "map (\<lambda>c. share_iters (cluster_share G (of_nat (2 ^ b)) b (of_nat c) (int tot) (int k))) [0..<2 ^ b] =
      map (\<lambda>c. [min (c * ?w) tot..<min (Suc c * ?w) tot]) [0..<2 ^ b]"
    using share_iters_nat [OF refl assms(1-4) True] by (intro map_cong) auto
  then have "concat (map (\<lambda>c. share_iters (cluster_share G (of_nat (2 ^ b)) b (of_nat c) (int tot) (int k)))
      [0..<2 ^ b]) = [0..<min (2 ^ b * ?w) tot]"
    by (simp only: tile_clipped)
  moreover have "min (2 ^ b * ?w) tot = tot" if "k dvd tot"
    using share_groups_enough [OF _ assms(2,3) that, of "2 ^ b"] by (simp add: ac_simps)
  ultimately show ?thesis using True by (simp add: loop_fits_def)
next
  case False
  with cluster_share_overflow [OF assms(3,5) False] assms(5) show ?thesis by (simp add: loop_fits_def)
qed

theorem parallel_loop_shares_witness:
  "concat (map (\<lambda>c. share_iters (cluster_share 8 (of_nat (2 ^ 2)) 2 (of_nat c) (int 100) (int 5)))
     [0..<2 ^ 2]) = [0..<100] \<and>
   cluster_share 8 (of_nat (2 ^ 4)) 4 0 (int 2147483647) (int 1) = Inl IntOverflow"
proof -
  have f: "(2 :: nat) < 32" "0 < (8 :: nat)" "0 < (5 :: nat)" "100 + 2 ^ 2 * 8 * 5 < (2 :: nat) ^ 32" "loop_ints 100 5"
    and d: "5 dvd (100 :: nat)" and c: "int (100 div 5) + int 8 \<le> INT_MAX" by (simp_all add: loop_ints_def INT_MAX_def)
  have "concat (map (\<lambda>c. share_iters (cluster_share 8 (of_nat (2 ^ 2)) 2 (of_nat c) (int 100) (int 5)))
     [0..<2 ^ 2]) = [0..<100]"
    using parallel_loop_shares [OF f, unfolded if_P [OF c]] d by blast
  moreover have "loop_ints 2147483647 1" "\<not> int (2147483647 div 1) + int 8 \<le> INT_MAX"
    by (simp_all add: loop_ints_def INT_MAX_def)
  ultimately show ?thesis using parallel_loop_shares [of 4 8 1 2147483647] by simp
qed

text \<open>
  The parallel enqueue drops iterations. The number of tasks is rounded down, so a total
  smaller than the chunk size gives no cluster any work, and 17 iterations in chunks of 2 lose
  the last one.
\<close>

theorem parallel_loop_drops:
  assumes "b < 32" and "0 < G" and "tot < k" and "tot + 2 ^ b * G * k < 2 ^ 32"
    and "int k \<le> INT_MAX" and "int G \<le> INT_MAX"
  shows "concat (map (\<lambda>c. share_iters (cluster_share G (of_nat (2 ^ b)) b (of_nat c) (int tot) (int k)))
      [0..<2 ^ b]) = [] \<and>
    share_iters (cluster_share 8 1 0 0 17 2) = [0..<16]"
proof -
  have k: "0 < k" using assms(3) by simp
  have fits: "loop_fits G tot k" using assms(3,5,6) by (simp add: loop_fits_def loop_ints_def)
  have "share_groups G (2 ^ b) tot k = 0" using assms by (simp add: share_groups_def)
  then have "share_iters (cluster_share G (of_nat (2 ^ b)) b (of_nat c) (int tot) (int k)) = []"
    if "c < 2 ^ b" for c
    using share_iters_nat [OF refl assms(1,2) k assms(4) fits that] by simp
  moreover have "share_iters (cluster_share 8 1 0 0 17 2) = [0..<16]"
    using share_iters_nat [of 1 0 8 2 17 0] by (simp add: share_groups_def loop_fits_def loop_ints_def INT_MAX_def)
  ultimately show ?thesis by simp
qed

theorem parallel_loop_drops_witness:
  "concat (map (\<lambda>c. share_iters (cluster_share 8 (of_nat (2 ^ 4)) 4 (of_nat c) (int 3) (int 4)))
     [0..<2 ^ 4]) = []"
proof -
  have "(4 :: nat) < 32" "0 < (8 :: nat)" "(3 :: nat) < 4" "3 + 2 ^ 4 * 8 * 4 < (2 :: nat) ^ 32"
    "int 4 \<le> INT_MAX" "int 8 \<le> INT_MAX" by (simp_all add: INT_MAX_def)
  then show ?thesis using parallel_loop_drops [of 4 8 3 4] by blast
qed

text \<open>
  C39: The search for the lowest bit ends exactly on the numbers that have one: on zero the loop of
  the initialisation never returns, on every other number it returns the position of its lowest set
  bit.
\<close>

theorem find_shift_returns: "find_shift n 1 0 = (if n = 0 then None else Some (LEAST k. bit n k))"
proof (cases "n = 0")
  case True
  then show ?thesis by (simp add: find_shift_None)
next
  case False
  then obtain j where j: "bit n j" by (auto simp: bit_eq_iff)
  define k where "k = (LEAST j. bit n j)"
  have k: "bit n k" "\<forall>j<k. \<not> bit n j"
    unfolding k_def using LeastI [of "bit n", OF j] not_less_Least by blast+
  have "find_shift n 1 0 = Some k" using find_shift_from [OF k, of 0] by simp
  then show ?thesis unfolding k_def using False by (simp only: if_False)
qed

end
