(* ===== verification/Rtm_Sw_Queue.thy ===== *)
theory Rtm_Sw_Queue
  imports Rtm_Sw "HOL-Library.Multiset"
begin

text \<open>
  The queues of the software task model: the local task queue of a cluster (a linked list
  through the descriptor pool, under the cluster's ticket lock), the global queue of task
  groups, the enqueue of a cluster's share (rtm-sw-enqueue.c) and the dequeue
  (rtm-sw-dequeue.c). Cache maintenance, prefetches and event counters have no effect on the
  values and are left out.
\<close>

section \<open>Locks and lists\<close>

definition with_ltq_lock :: "nat \<Rightarrow> (rtm_sw \<Rightarrow> ('a \<times> rtm_sw) c_result) \<Rightarrow> rtm_sw \<Rightarrow> ('a \<times> rtm_sw) c_result option" where
  "with_ltq_lock c body s =
     (case rd (sw_tickets s) c of
        Inl e \<Rightarrow> Some (Inl e)
      | Inr l \<Rightarrow>
          (case LOCAL_LOCK_ACQUIRE l of
             None \<Rightarrow> None
           | Some l' \<Rightarrow> Some (bnd (body (s\<lparr>sw_tickets := (sw_tickets s)[c := l']\<rparr>)) (\<lambda>(r, s').
               Inr (r, s'\<lparr>sw_tickets := (sw_tickets s')[c := LOCAL_LOCK_RELEASE (sw_tickets s' ! c)]\<rparr>)))))"

definition set_next :: "nat \<Rightarrow> nat option \<Rightarrow> rtm_sw \<Rightarrow> rtm_sw c_result" where
  "set_next i p s =
     bnd (rd (sw_data s) i) (\<lambda>e. Inr (s\<lparr>sw_data := (sw_data s)[i := e\<lparr>te_next := p\<rparr>]\<rparr>))"

section \<open>Enqueue: rtm-sw-enqueue.c\<close>

text \<open>
  Stage 1: the descriptors of one task group, from \<open>iter\<close> on, with \<open>n\<close> left of the group
  size. The result is the number of descriptors filled, the next iteration and the pool.
\<close>

fun fill_group :: "nat \<Rightarrow> nat \<Rightarrow> nat \<Rightarrow> u32 \<Rightarrow> tq_task_desc \<Rightarrow> u32 \<Rightarrow> u32 \<Rightarrow> tq_entry list \<Rightarrow>
   (nat \<times> u32 \<times> tq_entry list) c_result" where
  "fill_group 0 iter tq_offset k t istart iend data = Inr (iter, istart, data)"
| "fill_group (Suc n) iter tq_offset k t istart iend data =
     (if istart < iend
      then let next = (if iend < istart + k then iend else istart + k)
           in bnd (wr data (tq_offset + iter)
                 \<lparr>te_desc = t\<lparr>td_begin := istart, td_end := next\<rparr>, te_next = Some (tq_offset + iter + 1)\<rparr>)
                (\<lambda>data'. fill_group n (Suc iter) tq_offset k t next iend data')
      else Inr (iter, istart, data))"

text \<open>Insertion of a group at the head of the local queue.\<close>

definition ltq_push :: "nat \<Rightarrow> nat \<Rightarrow> nat \<Rightarrow> rtm_sw \<Rightarrow> rtm_sw c_result" where
  "ltq_push c first lst s =
     bnd (rd (sw_cluster_head s) c) (\<lambda>old.
     bnd (set_next lst old s) (\<lambda>s.
     Inr (s\<lparr>sw_cluster_head := (sw_cluster_head s)[c := Some first]\<rparr>)))"

text \<open>
  The critical section in assembly: the first pointer of the group goes to the entry at the
  tail, the other pointers are stored relative to the start of the whole index array.
\<close>

definition store_slot :: "nat \<Rightarrow> nat \<Rightarrow> nat \<Rightarrow> tq_group list \<Rightarrow> tq_group list c_result" where
  "store_slot row slot p index =
     bnd (rd index row) (\<lambda>g. bnd (wr g slot (Some p)) (\<lambda>g'. Inr (index[row := g'])))"

definition publish_group :: "nat \<Rightarrow> nat \<Rightarrow> rtm_sw \<Rightarrow> rtm_sw c_result" where
  "publish_group tq_offset task_count s =
     bnd (store_slot (unat (sw_tail_index s)) 0 tq_offset (sw_index s)) (\<lambda>index.
     bnd (for_n (task_count - 1) (\<lambda>j. store_slot 0 (Suc j) (tq_offset + Suc j)) index) (\<lambda>index.
     bnd (set_next (tq_offset + task_count - 1) None (s\<lparr>sw_index := index\<rparr>)) (\<lambda>s.
     Inr (s\<lparr>sw_tail_index := fst (atomic_inc (sw_tail_index s))\<rparr>))))"

text \<open>
  What happens to a filled group: it goes to the local queue when that is empty, while the
  count of local enqueues lasts, or in data-parallel mode, and to the global queue otherwise.
\<close>

definition place_group :: "nat \<Rightarrow> nat \<Rightarrow> nat \<Rightarrow> int \<Rightarrow> rtm_sw \<Rightarrow> (int \<times> rtm_sw) c_result option" where
  "place_group c tq_offset task_count local_count s =
     (case with_ltq_lock c (\<lambda>s.
        bnd (rd (sw_cluster_head s) c) (\<lambda>head.
          let empty = (head = None); lc = (if empty then local_count else local_count - 1)
          in if empty \<or> 0 < local_count \<or> sw_datapar_mode s \<noteq> 0
             then bnd (ltq_push c tq_offset (tq_offset + task_count - 1) s) (\<lambda>s. Inr ((True, lc), s))
             else Inr ((False, lc), s))) s of
        None \<Rightarrow> None
      | Some (Inl e) \<Rightarrow> Some (Inl e)
      | Some (Inr ((inserted, lc), s)) \<Rightarrow>
          if inserted then Some (Inr (lc, s))
          else (case spin_lock (sw_enqueue_lock s) of
                  None \<Rightarrow> None
                | Some l \<Rightarrow> Some (bnd (publish_group tq_offset task_count (s\<lparr>sw_enqueue_lock := l\<rparr>)) (\<lambda>s.
                    Inr (lc, s\<lparr>sw_enqueue_lock := spin_unlock (sw_enqueue_lock s)\<rparr>)))))"

partial_function (option) enqueue_groups ::
  "nat \<Rightarrow> nat \<Rightarrow> u32 \<Rightarrow> tq_task_desc \<Rightarrow> nat \<Rightarrow> u32 \<Rightarrow> u32 \<Rightarrow> int \<Rightarrow> rtm_sw \<Rightarrow> rtm_sw c_result option" where
  "enqueue_groups G c k t tq_offset istart iend local_count s =
     (if istart < iend
      then (case fill_group G 0 tq_offset k t istart iend (sw_data s) of
              Inl e \<Rightarrow> Some (Inl e)
            | Inr (task_count, next, data) \<Rightarrow>
                (case place_group c tq_offset task_count local_count (s\<lparr>sw_data := data\<rparr>) of
                   None \<Rightarrow> None
                 | Some (Inl e) \<Rightarrow> Some (Inl e)
                 | Some (Inr (lc, s')) \<Rightarrow> enqueue_groups G c k t (tq_offset + G) next iend lc s'))
      else Some (Inr s))"

text \<open>
  The whole call. \<open>pool_get n h\<close> is the atomic addition of the instruction set on the pool
  index: the delivered and the new value.
\<close>

definition SW_TaskQueue_Loop_PARALLEL ::
  "(u32 \<Rightarrow> u32 \<Rightarrow> u32 \<times> u32) \<Rightarrow> nat \<Rightarrow> nat \<Rightarrow> nat \<Rightarrow> nat \<Rightarrow> int \<Rightarrow> int \<Rightarrow> tq_task_desc \<Rightarrow> rtm_sw \<Rightarrow>
   (tq_ret_type \<times> rtm_sw) c_result option" where
  "SW_TaskQueue_Loop_PARALLEL pool_get TQ G thread c tot_iters iters_per_task tdesc s =
     (if \<not> (c < length (sw_gtq_lock s) \<and> c < length (sw_cluster_enq s) \<and> thread < length (sw_local_sense_enq s))
      then Some (Inl OutOfBounds)
      else
        let has_global_lock = (sw_gtq_lock s ! c = 0);
            s = (if has_global_lock then s\<lparr>sw_gtq_lock := (sw_gtq_lock s)[c := 1]\<rparr> else s);
            s = s\<lparr>sw_local_sense_enq := (sw_local_sense_enq s)[thread := c_not (sw_local_sense_enq s ! thread)]\<rparr>;
            unlock = (\<lambda>s. s\<lparr>sw_gtq_lock := (sw_gtq_lock s)[c := 0]\<rparr>)
        in if \<not> has_global_lock then Some (Inr (TQ_RET_SUCCESS, s))
           else if sw_cluster_enq s ! c = sw_local_sense_enq s ! thread
           then Some (Inr (TQ_RET_SUCCESS, unlock s))
           else let local_count = sw_local_enqueue_count s;
                    s = s\<lparr>sw_cluster_enq := (sw_cluster_enq s)[c := c_not (sw_cluster_enq s ! c)]\<rparr>
                in case cluster_share G (sw_numclusters s) (sw_numclusters_shift s) (of_nat c)
                          tot_iters iters_per_task of
                     Inl e \<Rightarrow> Some (Inl e)
                   | Inr None \<Rightarrow> Some (Inr (TQ_RET_SUCCESS, unlock s))
                   | Inr (Some (per_cluster, istart, iend)) \<Rightarrow>
                       (case pool_get (per_cluster * of_nat G) (sw_head_data s) of (index, head) \<Rightarrow>
                          map_option (\<lambda>r. bnd r (\<lambda>s. Inr (TQ_RET_SUCCESS, unlock s)))
                            (enqueue_groups G c (word_of_int iters_per_task)
                               (tdesc\<lparr>td_begin := 0, td_end := 0\<rparr>) (unat index mod TQ) istart iend local_count
                               (s\<lparr>sw_head_data := head\<rparr>))))"

section \<open>The local queue as a list\<close>

text \<open>\<open>chain data p is\<close>: following \<open>next\<close> from \<open>p\<close> visits the entries \<open>is\<close> and ends in NULL.\<close>

fun chain :: "tq_entry list \<Rightarrow> nat option \<Rightarrow> nat list \<Rightarrow> bool" where
  "chain data p [] \<longleftrightarrow> p = None"
| "chain data p (i # is) \<longleftrightarrow> p = Some i \<and> i < length data \<and> chain data (te_next (data ! i)) is"

lemma chain_update_other: "j \<notin> set is \<Longrightarrow> chain (data[j := e]) p is \<longleftrightarrow> chain data p is"
  by (induction data p "is" rule: chain.induct) (auto simp: nth_list_update)

lemma chain_bound: "chain data p is \<Longrightarrow> i \<in> set is \<Longrightarrow> i < length data"
  by (induction data p "is" rule: chain.induct) auto

lemma chain_cong:
  "(\<And>i. i \<in> set is \<Longrightarrow> i < length data' \<and> data' ! i = data ! i) \<Longrightarrow> chain data p is \<Longrightarrow> chain data' p is"
  by (induction data p "is" rule: chain.induct) auto

lemma chain_run:
  assumes "0 < n" "off + n \<le> length data" "\<And>i. Suc i < n \<Longrightarrow> te_next (data ! (off + i)) = Some (off + i + 1)"
    and "te_next (data ! (off + n - 1)) = q" "chain data q js"
  shows "chain data (Some off) ([off..<off + n] @ js)"
  using assms
proof (induction n arbitrary: off)
  case (Suc n)
  show ?case
  proof (cases "n = 0")
    case True
    with Suc.prems show ?thesis by simp
  next
    case False
    have "te_next (data ! (Suc off + i)) = Some (Suc off + i + 1)" if "Suc i < n" for i
      using Suc.prems(3) [of "Suc i"] that by simp
    then have "chain data (Some (Suc off)) ([Suc off..<Suc off + n] @ js)"
      using Suc.IH [of "Suc off"] Suc.prems False by simp
    moreover have "te_next (data ! off) = Some (Suc off)" using Suc.prems(3) [of 0] False by simp
    moreover have "[off..<off + Suc n] = off # [Suc off..<Suc off + n]"
      by (simp add: upt_conv_Cons del: upt_Suc)
    ultimately show ?thesis using Suc.prems(2) by (simp del: upt_Suc)
  qed
qed simp

text \<open>The tasks of the local queue of cluster \<open>c\<close>, in the order the dequeue takes them.\<close>

definition ltq_is :: "nat \<Rightarrow> rtm_sw \<Rightarrow> nat list \<Rightarrow> bool" where
  "ltq_is c s is \<longleftrightarrow> c < length (sw_cluster_head s) \<and> chain (sw_data s) (sw_cluster_head s ! c) is \<and> distinct is"

lemma ltq_push_is:
  assumes "ltq_is c s is" "0 < n" "off + n \<le> length (sw_data s)" "set is \<inter> {off..<off + n} = {}"
    and "\<And>i. Suc i < n \<Longrightarrow> te_next (sw_data s ! (off + i)) = Some (off + i + 1)"
  shows "\<exists>s'. ltq_push c off (off + n - 1) s = Inr s' \<and> ltq_is c s' ([off..<off + n] @ is) \<and>
    length (sw_data s') = length (sw_data s) \<and>
    (\<forall>i<length (sw_data s). te_desc (sw_data s' ! i) = te_desc (sw_data s ! i)) \<and>
    s' = s\<lparr>sw_data := sw_data s', sw_cluster_head := (sw_cluster_head s)[c := Some off]\<rparr>"
proof -
  let ?l = "off + n - 1" let ?e = "(sw_data s ! ?l)\<lparr>te_next := sw_cluster_head s ! c\<rparr>"
  let ?d = "(sw_data s)[?l := ?e]"
  have l: "?l < length (sw_data s)" "c < length (sw_cluster_head s)" using assms(1-3) by (auto simp: ltq_is_def)
  have "?l \<notin> set is" using assms(2,4) by auto
  then have "chain ?d (sw_cluster_head s ! c) is"
    using assms(1) by (simp add: chain_update_other ltq_is_def)
  then have "chain ?d (Some off) ([off..<off + n] @ is)"
    using assms(2,3,5) l by (intro chain_run) (auto simp: nth_list_update)
  moreover have "distinct ([off..<off + n] @ is)" using assms(1,4) by (auto simp: ltq_is_def)
  ultimately show ?thesis
    using l by (auto simp: ltq_push_def set_next_def c_monad ltq_is_def nth_list_update)
qed

section \<open>Filling a group\<close>

text \<open>The ranges of at most \<open>n\<close> tasks of \<open>k\<close> iterations from \<open>a\<close> up to \<open>b\<close>.\<close>

fun gchunks :: "nat \<Rightarrow> nat \<Rightarrow> nat \<Rightarrow> nat \<Rightarrow> (nat \<times> nat) list" where
  "gchunks 0 k a b = []"
| "gchunks (Suc n) k a b = (if a < b then (a, min (a + k) b) # gchunks n k (min (a + k) b) b else [])"

lemma upt_split: "a \<le> m \<Longrightarrow> m \<le> c \<Longrightarrow> [a..<c] = [a..<m] @ [m..<c]"
  by (metis le_add_diff_inverse upt_add_eq_append)

lemma gchunks_cover:
  "a \<le> b \<Longrightarrow> concat (map (\<lambda>(x, y). [x..<y]) (gchunks n k a b)) = [a..<min (a + n * k) b]"
proof (induction n k a b rule: gchunks.induct)
  case (2 n k a b)
  show ?case
  proof (cases "a < b")
    case True
    let ?m = "min (a + k) b"
    have "min (?m + n * k) b = min (a + Suc n * k) b" by auto
    moreover have "[a..<min (a + Suc n * k) b] = [a..<?m] @ [?m..<min (a + Suc n * k) b]"
      using True by (intro upt_split) auto
    ultimately show ?thesis using 2 True by simp
  qed (use 2 in simp)
qed simp

lemma length_gchunks: "length (gchunks n k a b) \<le> n"
  by (induction n k a b rule: gchunks.induct) auto

definition chunk_entry :: "tq_task_desc \<Rightarrow> nat \<Rightarrow> nat \<times> nat \<Rightarrow> tq_entry" where
  "chunk_entry t i c = \<lparr>te_desc = t\<lparr>td_begin := of_nat (fst c), td_end := of_nat (snd c)\<rparr>, te_next = Some (Suc i)\<rparr>"

lemma fill_group_spec:
  assumes "a \<le> b" "b + k < 2 ^ 32" "off + iter + n \<le> length data"
  shows "\<exists>data'. fill_group n iter off (of_nat k) t (of_nat a) (of_nat b) data =
      Inr (iter + length (gchunks n k a b), of_nat (min (a + n * k) b), data') \<and>
    length data' = length data \<and>
    (\<forall>j<length (gchunks n k a b). data' ! (off + iter + j) = chunk_entry t (off + iter + j) (gchunks n k a b ! j)) \<and>
    (\<forall>i. i < off + iter \<or> off + iter + length (gchunks n k a b) \<le> i \<longrightarrow> data' ! i = data ! i)"
  using assms
proof (induction n arbitrary: iter a data)
  case (Suc n)
  let ?m = "min (a + k) b"
  have lt: "(of_nat a :: u32) < of_nat b \<longleftrightarrow> a < b"
    and clip: "(if of_nat b < (of_nat a + of_nat k :: u32) then of_nat b else of_nat a + of_nat k) = of_nat ?m"
    using Suc.prems(1,2) by (auto simp: word_less_nat_alt unat_of_nat_u32 min_def simp flip: of_nat_add)
  show ?case
  proof (cases "a < b")
    case True
    let ?d = "data[off + iter := chunk_entry t (off + iter) (a, ?m)]"
    obtain data' where d': "fill_group n (Suc iter) off (of_nat k) t (of_nat ?m) (of_nat b) ?d =
        Inr (Suc iter + length (gchunks n k ?m b), of_nat (min (?m + n * k) b), data')"
      "length data' = length ?d"
      "\<forall>j<length (gchunks n k ?m b). data' ! (off + Suc iter + j) = chunk_entry t (off + Suc iter + j) (gchunks n k ?m b ! j)"
      "\<forall>i. i < off + Suc iter \<or> off + Suc iter + length (gchunks n k ?m b) \<le> i \<longrightarrow> data' ! i = ?d ! i"
      using Suc.IH [of ?m "Suc iter" ?d] Suc.prems by auto
    have "min (?m + n * k) b = min (a + Suc n * k) b" by auto
    moreover have "fill_group (Suc n) iter off (of_nat k) t (of_nat a) (of_nat b) data =
        fill_group n (Suc iter) off (of_nat k) t (of_nat ?m) (of_nat b) ?d"
      using True Suc.prems(3) unfolding fill_group.simps lt clip Let_def
      by (simp add: c_monad chunk_entry_def)
    moreover have "data' ! (off + iter + j) = chunk_entry t (off + iter + j) (gchunks (Suc n) k a b ! j)"
      if "j < length (gchunks (Suc n) k a b)" for j
      using d'(3) [rule_format, of "j - 1"] d'(4) [rule_format, of "off + iter"] that True Suc.prems(3)
      by (cases j) auto
    moreover have "data' ! i = data ! i"
      if "i < off + iter \<or> off + iter + length (gchunks (Suc n) k a b) \<le> i" for i
      using d'(4) [rule_format, of i] that True by (auto simp: nth_list_update)
    ultimately show ?thesis using d'(1,2) True by auto
  next
    case False
    then show ?thesis using Suc.prems(1) by (auto simp: lt)
  qed
qed simp

section \<open>Placing a group\<close>

definition ltq_free :: "nat \<Rightarrow> rtm_sw \<Rightarrow> bool" where
  "ltq_free c s \<longleftrightarrow> c < length (sw_tickets s) \<and> ticket_poll (sw_tickets s ! c) = ticket_count (sw_tickets s ! c) + 1"

text \<open>The entries of the local queue are below the block of the pool in use.\<close>

lemma place_group_local:
  assumes "ltq_free c s" "ltq_is c s is" "\<forall>i\<in>set is. i < off" "0 < n" "off + n \<le> length (sw_data s)"
    and "\<And>i. Suc i < n \<Longrightarrow> te_next (sw_data s ! (off + i)) = Some (off + i + 1)"
    and "sw_datapar_mode s \<noteq> 0"
  shows "\<exists>lc' s'. place_group c off n lc s = Some (Inr (lc', s')) \<and> ltq_free c s' \<and>
    ltq_is c s' ([off..<off + n] @ is) \<and> length (sw_data s') = length (sw_data s) \<and>
    (\<forall>i<length (sw_data s). te_desc (sw_data s' ! i) = te_desc (sw_data s ! i)) \<and>
    sw_datapar_mode s' = sw_datapar_mode s \<and> sw_gtq_lock s' = sw_gtq_lock s"
proof -
  let ?l = "sw_tickets s ! c" let ?s = "s\<lparr>sw_tickets := (sw_tickets s)[c := ?l\<lparr>ticket_count := ticket_count ?l + 1\<rparr>]\<rparr>"
  have "ltq_is c ?s is" using assms(2) by (simp add: ltq_is_def)
  moreover have "set is \<inter> {off..<off + n} = {}" using assms(3) by fastforce
  ultimately obtain s1 where s1: "ltq_push c off (off + n - 1) ?s = Inr s1" "ltq_is c s1 ([off..<off + n] @ is)"
    "length (sw_data s1) = length (sw_data s)"
    "\<forall>i<length (sw_data s). te_desc (sw_data s1 ! i) = te_desc (sw_data s ! i)"
    "s1 = ?s\<lparr>sw_data := sw_data s1, sw_cluster_head := (sw_cluster_head s)[c := Some off]\<rparr>"
    using ltq_push_is [of c ?s "is" n off] assms(4-6) by auto
  have t1: "sw_tickets s1 = sw_tickets ?s" and d1: "sw_datapar_mode s1 = sw_datapar_mode s"
    and g1: "sw_gtq_lock s1 = sw_gtq_lock s"
    by (subst s1(5), simp)+
  let ?s2 = "s1\<lparr>sw_tickets := (sw_tickets s1)[c := LOCAL_LOCK_RELEASE (sw_tickets s1 ! c)]\<rparr>"
  have c: "c < length (sw_tickets s)" "c < length (sw_cluster_head s)"
    using assms(1,2) by (auto simp: ltq_free_def ltq_is_def)
  have acq: "LOCAL_LOCK_ACQUIRE ?l = Some (?l\<lparr>ticket_count := ticket_count ?l + 1\<rparr>)"
    using assms(1) by (simp add: LOCAL_LOCK_ACQUIRE_def lock_take_ticket_def lock_poll_def ltq_free_def)
  obtain lc' where "place_group c off n lc s = Some (Inr (lc', ?s2))"
    using c acq s1(1) assms(7)
    by (simp add: place_group_def with_ltq_lock_def c_monad Let_def)
  moreover have "ltq_free c ?s2"
    using assms(1) c by (simp add: ltq_free_def t1 LOCAL_LOCK_RELEASE_def)
  moreover have "ltq_is c ?s2 ([off..<off + n] @ is)" using s1(2) by (simp add: ltq_is_def)
  ultimately show ?thesis using s1(3,4) d1 g1 by (intro exI [of _ lc'] exI [of _ ?s2]) simp
qed

definition task_iters :: "tq_task_desc \<Rightarrow> nat list" where
  "task_iters d = [unat (td_begin d)..<unat (td_end d)]"

lemma task_iters_chunk:
  assumes "snd ch < 2 ^ 32" "fst ch < 2 ^ 32"
  shows "task_iters (te_desc (chunk_entry t i ch)) = [fst ch..<snd ch]"
  using assms by (simp add: task_iters_def chunk_entry_def unat_of_nat_u32)

lemma gchunks_bound: "(x, y) \<in> set (gchunks n k a b) \<Longrightarrow> x \<le> b \<and> y \<le> b"
  by (induction n k a b rule: gchunks.induct) (auto split: if_splits)

lemma groups_step:
  fixes w d :: nat
  assumes "0 < w" "0 < d"
  shows "(d + w - 1) div w = Suc ((d - min w d + w - 1) div w)"
proof (cases "d \<le> w")
  case True
  then have "d + w - 1 = (d - 1) + w * 1" "d - 1 < w" using assms by auto
  then have "(d + w - 1) div w = 1" using assms by (simp only: div_mult_self2) simp
  then show ?thesis using True assms by (simp add: min_def)
next
  case False
  then have "d + w - 1 = (d - w + w - 1) + w * 1" using assms by auto
  then have "(d + w - 1) div w = Suc ((d - w + w - 1) div w)" using assms by (simp only: div_mult_self2)
  with False show ?thesis by (simp add: min_def)
qed

definition groups_needed :: "nat \<Rightarrow> nat \<Rightarrow> nat \<Rightarrow> nat \<Rightarrow> nat" where
  "groups_needed G k a b = (b - a + G * k - 1) div (G * k)"

lemma one_group:
  assumes "0 < k" "0 < G" "a < b" "b + k < 2 ^ 32" "off + G \<le> length (sw_data s)"
    and "ltq_free c s" "ltq_is c s is" "\<forall>i\<in>set is. i < off" "sw_datapar_mode s \<noteq> 0"
  shows "\<exists>data n lc' s'. fill_group G 0 off (of_nat k) t (of_nat a) (of_nat b) (sw_data s) =
      Inr (n, of_nat (min (a + G * k) b), data) \<and>
    place_group c off n lc (s\<lparr>sw_data := data\<rparr>) = Some (Inr (lc', s')) \<and> n \<le> G \<and>
    ltq_free c s' \<and> ltq_is c s' ([off..<off + n] @ is) \<and> length (sw_data s') = length (sw_data s) \<and>
    sw_datapar_mode s' = sw_datapar_mode s \<and> sw_gtq_lock s' = sw_gtq_lock s \<and> (\<forall>i<off. te_desc (sw_data s' ! i) = te_desc (sw_data s ! i)) \<and>
    concat (map (\<lambda>i. task_iters (te_desc (sw_data s' ! i))) [off..<off + n]) = [a..<min (a + G * k) b]"
proof -
  let ?ch = "gchunks G k a b" let ?n = "length ?ch"
  obtain data where d: "fill_group G 0 off (of_nat k) t (of_nat a) (of_nat b) (sw_data s) =
      Inr (?n, of_nat (min (a + G * k) b), data)" "length data = length (sw_data s)"
    "\<forall>j<?n. data ! (off + j) = chunk_entry t (off + j) (?ch ! j)"
    "\<forall>i. i < off \<or> off + ?n \<le> i \<longrightarrow> data ! i = sw_data s ! i"
    using fill_group_spec [of a b k off 0 G "sw_data s" t] assms(3-5) by auto
  have n: "?n \<le> G" "0 < ?n" using length_gchunks [of G k a b] assms(2,3) by (simp, cases G) auto
  have "ltq_is c (s\<lparr>sw_data := data\<rparr>) is"
    using assms(7,8) d(2,4) unfolding ltq_is_def by (auto intro!: chain_cong [of _ data "sw_data s"])
      (metis chain_bound)
  moreover have "te_next (data ! (off + i)) = Some (off + i + 1)" if "Suc i < ?n" for i
    using d(3) that by (simp add: chunk_entry_def)
  moreover have "ltq_free c (s\<lparr>sw_data := data\<rparr>)" using assms(6) by (simp add: ltq_free_def)
  ultimately obtain lc' s' where s': "place_group c off ?n lc (s\<lparr>sw_data := data\<rparr>) = Some (Inr (lc', s'))"
    "ltq_free c s'" "ltq_is c s' ([off..<off + ?n] @ is)" "length (sw_data s') = length data"
    "\<forall>i<length data. te_desc (sw_data s' ! i) = te_desc (data ! i)" "sw_datapar_mode s' = sw_datapar_mode s"
    "sw_gtq_lock s' = sw_gtq_lock s"
    using place_group_local [of c "s\<lparr>sw_data := data\<rparr>" "is" off ?n lc] assms(5,8,9) n d(2) by auto
  have "map (\<lambda>i. task_iters (te_desc (sw_data s' ! i))) [off..<off + ?n] = map (\<lambda>(x, y). [x..<y]) ?ch"
  proof (rule nth_equalityI)
    fix j assume j: "j < length (map (\<lambda>i. task_iters (te_desc (sw_data s' ! i))) [off..<off + ?n])"
    then have jn: "j < ?n" by simp
    then have "?ch ! j \<in> set ?ch" by simp
    then have "fst (?ch ! j) \<le> b \<and> snd (?ch ! j) \<le> b" by (metis gchunks_bound prod.collapse)
    then have "fst (?ch ! j) < 2 ^ 32" "snd (?ch ! j) < 2 ^ 32" using assms(4) by linarith+
    moreover have "te_desc (sw_data s' ! (off + j)) = te_desc (chunk_entry t (off + j) (?ch ! j))"
      using s'(5) d(2,3) jn n(1) assms(5) by simp
    ultimately show "map (\<lambda>i. task_iters (te_desc (sw_data s' ! i))) [off..<off + ?n] ! j = map (\<lambda>(x, y). [x..<y]) ?ch ! j"
      using jn by (simp add: task_iters_chunk split: prod.split)
  qed simp
  then have "concat (map (\<lambda>i. task_iters (te_desc (sw_data s' ! i))) [off..<off + ?n]) = [a..<min (a + G * k) b]"
    using gchunks_cover [of a b G k] assms(3) by simp
  moreover have "\<forall>i<off. te_desc (sw_data s' ! i) = te_desc (sw_data s ! i)"
    using s'(5) d(2,4) assms(5) by simp
  ultimately show ?thesis using d(1,2) s' n(1) by auto
qed

text \<open>The sequence of groups: from any part of the range to its end.\<close>

lemma groups_needed_step:
  assumes "0 < k" "0 < G" "a < b"
  shows "groups_needed G k a b = Suc (groups_needed G k (min (a + G * k) b) b)"
proof -
  have "b - min (a + w) b = (b - a) - min w (b - a)" for w by (auto simp: min_def)
  from this [of "G * k"] have "b - min (a + G * k) b = (b - a) - min (G * k) (b - a)" .
  moreover have "0 < G * k" "0 < b - a" using assms by simp_all
  ultimately show ?thesis using groups_step [of "G * k" "b - a"] unfolding groups_needed_def by (simp only:)
qed

definition ltq_iters :: "rtm_sw \<Rightarrow> nat list \<Rightarrow> nat multiset" where
  "ltq_iters s js = mset (concat (map (\<lambda>i. task_iters (te_desc (sw_data s ! i))) js))"

lemma enqueue_groups_local:
  assumes "0 < k" "0 < G" "a \<le> b" "b + k < 2 ^ 32" "off + G * groups_needed G k a b \<le> length (sw_data s)"
    and "ltq_free c s" "ltq_is c s is" "\<forall>i\<in>set is. i < off" "sw_datapar_mode s \<noteq> 0"
  shows "\<exists>s' js. enqueue_groups G c (of_nat k) t off (of_nat a) (of_nat b) lc s = Some (Inr s') \<and>
    ltq_free c s' \<and> ltq_is c s' (js @ is) \<and> sw_gtq_lock s' = sw_gtq_lock s \<and>
    (\<forall>i<off. te_desc (sw_data s' ! i) = te_desc (sw_data s ! i)) \<and>
    ltq_iters s' js = mset [a..<b]"
  using assms
proof (induction "b - a" arbitrary: a off lc s "is" rule: less_induct)
  case less
  have lt: "(of_nat a :: u32) < of_nat b \<longleftrightarrow> a < b"
    using less.prems(3,4) by (simp add: word_less_nat_alt unat_of_nat_u32)
  show ?case
  proof (cases "a < b")
    case True
    let ?m = "min (a + G * k) b"
    have need: "groups_needed G k a b = Suc (groups_needed G k ?m b)"
      using groups_needed_step less.prems(1,2) True by blast
    obtain data n lc' s1 where s1: "fill_group G 0 off (of_nat k) t (of_nat a) (of_nat b) (sw_data s) =
        Inr (n, of_nat ?m, data)" "place_group c off n lc (s\<lparr>sw_data := data\<rparr>) = Some (Inr (lc', s1))" "n \<le> G"
      "ltq_free c s1" "ltq_is c s1 ([off..<off + n] @ is)" "length (sw_data s1) = length (sw_data s)"
      "sw_datapar_mode s1 = sw_datapar_mode s" "\<forall>i<off. te_desc (sw_data s1 ! i) = te_desc (sw_data s ! i)"
      "concat (map (\<lambda>i. task_iters (te_desc (sw_data s1 ! i))) [off..<off + n]) = [a..<?m]"
      "sw_gtq_lock s1 = sw_gtq_lock s"
      using one_group [of k G a b off s c "is" t lc] less.prems True need by auto
    have "\<forall>i\<in>set ([off..<off + n] @ is). i < off + G" using s1(3) less.prems(8) by fastforce
    moreover have "0 < G * k" using less.prems(1,2) by simp
    then have "b - ?m < b - a" "?m \<le> b" using True by linarith+
    moreover have "off + G + G * groups_needed G k ?m b \<le> length (sw_data s1)"
      using less.prems(5) need s1(6) by simp
    ultimately obtain s' js where s': "enqueue_groups G c (of_nat k) t (off + G) (of_nat ?m) (of_nat b) lc' s1 = Some (Inr s')"
      "ltq_free c s'" "ltq_is c s' (js @ [off..<off + n] @ is)"
      "\<forall>i<off + G. te_desc (sw_data s' ! i) = te_desc (sw_data s1 ! i)" "ltq_iters s' js = mset [?m..<b]"
      "sw_gtq_lock s' = sw_gtq_lock s1"
      using less.hyps [of ?m "off + G" s1 "[off..<off + n] @ is" lc'] less.prems(1,2,4,9) s1(4,5,7) by auto
    have "map (\<lambda>i. task_iters (te_desc (sw_data s' ! i))) [off..<off + n] =
        map (\<lambda>i. task_iters (te_desc (sw_data s1 ! i))) [off..<off + n]"
      using s'(4) s1(3) by auto
    then have "mset (concat (map (\<lambda>i. task_iters (te_desc (sw_data s' ! i))) [off..<off + n])) = mset [a..<?m]"
      using s1(9) by (simp only:)
    then have "ltq_iters s' (js @ [off..<off + n]) = mset [?m..<b] + mset [a..<?m]"
      using s'(5) by (simp only: ltq_iters_def map_append concat_append mset_append)
    also have "\<dots> = mset [a..<b]" using upt_split [of a ?m b] True by (metis add.commute min.cobounded2 min_def mset_append nat_le_linear le_add1 less_or_eq_imp_le)
    finally have "ltq_iters s' (js @ [off..<off + n]) = mset [a..<b]" .
    moreover have "enqueue_groups G c (of_nat k) t off (of_nat a) (of_nat b) lc s = Some (Inr s')"
      using True s1(1,2) s'(1) by (subst enqueue_groups.simps) (simp add: lt)
    moreover have "\<forall>i<off. te_desc (sw_data s' ! i) = te_desc (sw_data s ! i)" using s'(4) s1(8) by simp
    ultimately show ?thesis using s'(2,3,6) s1(10) by (intro exI [of _ s'] exI [of _ "js @ [off..<off + n]"]) simp
  next
    case False
    then show ?thesis using less.prems
      by (subst enqueue_groups.simps) (auto simp: lt ltq_iters_def intro: exI [of _ "[]"])
  qed
qed

lemma groups_needed_le:
  assumes "b - a \<le> P * (G * k)" "0 < G * k"
  shows "groups_needed G k a b \<le> P"
proof -
  have "b - a + G * k - 1 < Suc P * (G * k)" using assms unfolding mult_Suc by linarith
  then have "groups_needed G k a b < Suc P"
    unfolding groups_needed_def by (simp add: less_mult_imp_div_less del: mult_Suc)
  then show ?thesis by simp
qed

text \<open>
  The parallel enqueue in data-parallel mode. The first thread of a cluster to enter a loop
  returns success with the lock of the global queue free again, and what it adds to the front
  of the local queue of its cluster are tasks that together hold every iteration of the
  cluster's share exactly once; the tasks that were there stay behind them. The pool is the
  only resource: the block that the atomic addition delivers must lie in the pool, above the
  tasks of the local queue.
\<close>

lemma parallel_enqueue:
  assumes "ltq_free c s" and "ltq_is c s is" and "\<forall>i\<in>set is. i < unat idx mod TQ"
    and "sw_datapar_mode s \<noteq> 0" and "sw_numclusters s = 2 ^ b" and "sw_numclusters_shift s = b"
    and "b < 32" and "c < 2 ^ b" and "0 < G" and "0 < k" and "tot + 2 ^ b * G * k < 2 ^ 32"
    and "loop_fits G tot k"
    and "c < length (sw_gtq_lock s)" and "sw_gtq_lock s ! c = 0"
    and "c < length (sw_cluster_enq s)" and "thread < length (sw_local_sense_enq s)"
    and "sw_cluster_enq s ! c \<noteq> c_not (sw_local_sense_enq s ! thread)"
    and "pool_get (of_nat (share_groups G (2 ^ b) tot k) * of_nat G) (sw_head_data s) = (idx, head)"
    and "unat idx mod TQ + share_groups G (2 ^ b) tot k * G \<le> length (sw_data s)"
  shows "\<exists>s' js. SW_TaskQueue_Loop_PARALLEL pool_get TQ G thread c (int tot) (int k) t s =
      Some (Inr (TQ_RET_SUCCESS, s')) \<and> ltq_free c s' \<and> ltq_is c s' (js @ is) \<and> sw_gtq_lock s' ! c = 0 \<and>
    ltq_iters s' js = mset (share_iters (cluster_share G (2 ^ b) b (of_nat c) (int tot) (int k)))"
proof -
  let ?P = "share_groups G (2 ^ b) tot k" let ?w = "?P * k * G" let ?off = "unat idx mod TQ"
  let ?s = "s\<lparr>sw_gtq_lock := (sw_gtq_lock s)[c := 1],
     sw_local_sense_enq := (sw_local_sense_enq s)[thread := c_not (sw_local_sense_enq s ! thread)],
     sw_cluster_enq := (sw_cluster_enq s)[c := c_not (sw_cluster_enq s ! c)]\<rparr>"
  have f: "ltq_free c (?s\<lparr>sw_head_data := head\<rparr>)" "ltq_is c (?s\<lparr>sw_head_data := head\<rparr>) is" "ltq_is c ?s is" "ltq_free c ?s"
    using assms(1,2) by (simp_all add: ltq_free_def ltq_is_def)
  have sh: "cluster_share G (2 ^ b) b (of_nat c) (int tot) (int k) =
      (if tot \<le> c * ?w then Inr None else Inr (Some (of_nat ?P, of_nat (c * ?w), of_nat (min tot (Suc c * ?w)))))"
    using cluster_share_nat [OF refl assms(7,9,10,11,12,8)] by (simp add: Let_def)
  have it: "share_iters (cluster_share G (2 ^ b) b (of_nat c) (int tot) (int k)) =
      [min (c * ?w) tot..<min (Suc c * ?w) tot]"
    using share_iters_nat [OF refl assms(7,9,10,11,12,8)] by simp
  have call: "SW_TaskQueue_Loop_PARALLEL pool_get TQ G thread c (int tot) (int k) t s =
      (if tot \<le> c * ?w then Some (Inr (TQ_RET_SUCCESS, ?s\<lparr>sw_gtq_lock := (sw_gtq_lock ?s)[c := 0]\<rparr>))
       else map_option (\<lambda>r. bnd r (\<lambda>s. Inr (TQ_RET_SUCCESS, s\<lparr>sw_gtq_lock := (sw_gtq_lock s)[c := 0]\<rparr>)))
         (enqueue_groups G c (of_nat k) (t\<lparr>td_begin := 0, td_end := 0\<rparr>) ?off (of_nat (c * ?w))
            (of_nat (min tot (Suc c * ?w))) (sw_local_enqueue_count s) (?s\<lparr>sw_head_data := head\<rparr>)))"
    using assms(5,6,13-18) sh
    by (simp add: SW_TaskQueue_Loop_PARALLEL_def Let_def nth_list_update del: of_nat_mult of_nat_Suc mult_Suc)
  show ?thesis
  proof (cases "tot \<le> c * ?w")
    case True
    have "ltq_iters s' [] = mset (share_iters (cluster_share G (2 ^ b) b (of_nat c) (int tot) (int k)))" for s'
      using True by (simp add: it ltq_iters_def min_def)
    then show ?thesis
      using call True f(3,4) assms(13)
      by (intro exI [of _ "?s\<lparr>sw_gtq_lock := (sw_gtq_lock ?s)[c := 0]\<rparr>"] exI [of _ "[]"])
        (simp add: ltq_free_def ltq_is_def)
  next
    case False
    let ?e = "min tot (Suc c * ?w)"
    have G: "groups_needed G k (c * ?w) ?e \<le> ?P"
      using assms(9,10) by (intro groups_needed_le) (auto simp: min_def algebra_simps)
    have "G * groups_needed G k (c * ?w) ?e \<le> ?P * G" using mult_le_mono2 [OF G, of G] by (simp only: mult.commute)
    then have room: "?off + G * groups_needed G k (c * ?w) ?e \<le> length (sw_data s)"
      using assms(19) by linarith
    have "1 * k \<le> 2 ^ b * G * k" using assms(9) by (intro mult_le_mono) simp_all
    moreover have "?e \<le> tot" by simp
    ultimately have small: "?e + k < 2 ^ 32" using assms(11) by linarith
    have le: "c * ?w \<le> ?e" using False by simp
    obtain s1 js where s1: "enqueue_groups G c (of_nat k) (t\<lparr>td_begin := 0, td_end := 0\<rparr>) ?off (of_nat (c * ?w))
        (of_nat ?e) (sw_local_enqueue_count s) (?s\<lparr>sw_head_data := head\<rparr>) = Some (Inr s1)"
      "ltq_free c s1" "ltq_is c s1 (js @ is)" "sw_gtq_lock s1 = sw_gtq_lock (?s\<lparr>sw_head_data := head\<rparr>)"
      "ltq_iters s1 js = mset [c * ?w..<?e]"
      using enqueue_groups_local [OF assms(10,9) le small _ f(1,2) assms(3), where lc = "sw_local_enqueue_count s"
          and t = "t\<lparr>td_begin := 0, td_end := 0\<rparr>"] room assms(4)
      by (simp del: of_nat_mult of_nat_Suc mult_Suc) blast
    have "[c * ?w..<?e] = [min (c * ?w) tot..<min (Suc c * ?w) tot]" using False by (simp add: min.commute)
    then show ?thesis
      using call False s1 it assms(13)
      by (intro exI [of _ "s1\<lparr>sw_gtq_lock := (sw_gtq_lock s1)[c := 0]\<rparr>"] exI [of _ js])
        (simp add: ltq_free_def ltq_is_def ltq_iters_def del: of_nat_mult of_nat_Suc mult_Suc)
  qed
qed

definition sw_one_cluster :: rtm_sw where
  "sw_one_cluster = sw_cold\<lparr>sw_datapar_mode := 1, sw_local_sense_enq := [0], sw_cluster_enq := [0], sw_numclusters := 1,
     sw_gtq_lock := [0], sw_tickets := [\<lparr>ticket_count = 0, ticket_poll = 1\<rparr>],
     sw_data := replicate 8 \<lparr>te_desc = \<lparr>td_v1 = 0, td_v2 = 0, td_begin = 0, td_end = 0\<rparr>, te_next = None\<rparr>\<rparr>"

end
