(* ===== verification/Rtm_Sw_Dequeue.thy ===== *)
theory Rtm_Sw_Dequeue
  imports Rtm_Sw_Queue
begin

text \<open>
  The dequeue of the software task model (rtm-sw-dequeue.c): the fast path that pops the local
  queue of the cluster, the slow path that refills it from the global queue, and the global
  dequeue with the barrier that is implied by an empty queue. \<open>TQ\<close> and \<open>G\<close> are the size of the
  global queue and of a task group (constants of a header outside the repository). A loop that
  waits for another thread has the result \<open>None\<close> when no other thread runs.
\<close>

section \<open>Global queue: global\_swtq\_cluster\_dequeue\<close>

definition TQ_IDX_MOD :: "u32 \<Rightarrow> u32 \<Rightarrow> u32 \<Rightarrow> u32" where
  "TQ_IDX_MOD TQ G idx = idx mod (TQ div G)"

text \<open>Head and tail as they are compared, after the check for wrap-around.\<close>

definition unwrap_indices :: "u32 \<Rightarrow> u32 \<Rightarrow> u32 \<Rightarrow> u32 \<Rightarrow> u32 \<times> u32" where
  "unwrap_indices TQ G head_idx tail_idx =
     (if tail_idx + TQ < head_idx then (TQ_IDX_MOD TQ G head_idx, tail_idx + TQ) else (head_idx, tail_idx))"

type_synonym gtq_result = "tq_ret_type \<times> tq_group option"

text \<open>The count of clusters waiting for the phase of the given sense.\<close>

definition waitcount :: "u32 \<Rightarrow> rtm_sw \<Rightarrow> u32" where
  "waitcount sense s = (if sense = 0 then sw_waitcount0 s else sw_waitcount1 s)"

definition set_waitcount :: "u32 \<Rightarrow> u32 \<Rightarrow> rtm_sw \<Rightarrow> rtm_sw" where
  "set_waitcount sense v s = (if sense = 0 then s\<lparr>sw_waitcount0 := v\<rparr> else s\<lparr>sw_waitcount1 := v\<rparr>)"

text \<open>The cluster leaves the barrier: its threads see the new sense and nobody is counted.\<close>

definition leave_barrier :: "nat \<Rightarrow> rtm_sw \<Rightarrow> rtm_sw" where
  "leave_barrier c s =
     s\<lparr>sw_core_waitcount := (sw_core_waitcount s)[c := 0],
       sw_cluster_core_sense := (sw_cluster_core_sense s)[c := c_not (sw_cluster_core_sense s ! c)]\<rparr>"

text \<open>The provisional entry: once every thread of the cluster waits, the cluster is counted.\<close>

definition enter_barrier :: "nat \<Rightarrow> bool \<Rightarrow> rtm_sw \<Rightarrow> (bool \<times> rtm_sw) c_result option" where
  "enter_barrier c entered s =
     (if entered then Some (Inr (True, s))
      else case with_ltq_lock c (\<lambda>s. Inr (sw_threads_per_cluster s = sw_core_waitcount s ! c, s)) s of
             None \<Rightarrow> None
           | Some (Inl e) \<Rightarrow> Some (Inl e)
           | Some (Inr (pending, s)) \<Rightarrow>
               if pending
               then Some (Inr (True, set_waitcount (sw_cluster_sense s ! c)
                      (fst (atomic_inc (waitcount (sw_cluster_sense s ! c) s))) s))
               else Some (Inr (False, s)))"

partial_function (option) barrier_wait ::
  "u32 \<Rightarrow> u32 \<Rightarrow> nat \<Rightarrow> u32 \<Rightarrow> bool \<Rightarrow> rtm_sw \<Rightarrow> (gtq_result \<times> rtm_sw) c_result option" where
  "barrier_wait TQ G c head_idx entered s =
     (if sw_global_sense s = sw_cluster_sense s ! c then Some (Inr ((TQ_RET_SYNC, None), leave_barrier c s))
      else let tail_idx = sw_tail_index s in
        case unwrap_indices TQ G head_idx tail_idx of (h, t) \<Rightarrow>
          (case enter_barrier c entered s of
             None \<Rightarrow> None
           | Some (Inl e) \<Rightarrow> Some (Inl e)
           | Some (Inr (entered, s)) \<Rightarrow>
               let sense = sw_cluster_sense s ! c in
               if h < t
               then if sw_global_sense s = sense then barrier_wait TQ G c head_idx entered s
                    else let s1 = (if entered then set_waitcount sense (fst (atomic_dec (waitcount sense s))) s else s);
                             s2 = s1\<lparr>sw_cluster_sense := (sw_cluster_sense s1)[c := c_not sense]\<rparr>
                         in Some (bnd (rd (sw_index s2) (unat (TQ_IDX_MOD TQ G h))) (\<lambda>tg. Inr ((TQ_RET_SUCCESS, Some tg), s2)))
               else if h = t + sw_numclusters s - 1 \<and> sw_numclusters s = waitcount sense s
               then Some (Inr ((TQ_RET_SYNC, None), leave_barrier c
                      ((set_waitcount (c_not sense) 0 (s\<lparr>sw_head_index := tail_idx\<rparr>))\<lparr>sw_global_sense := sense\<rparr>)))
               else barrier_wait TQ G c head_idx entered s))"

definition global_swtq_cluster_dequeue ::
  "u32 \<Rightarrow> u32 \<Rightarrow> u32 \<Rightarrow> nat \<Rightarrow> bool \<Rightarrow> rtm_sw \<Rightarrow> (gtq_result \<times> rtm_sw) c_result option" where
  "global_swtq_cluster_dequeue TQ G num_clusters c allow_blocking s =
     (let head_idx = sw_head_index s; tail_idx = sw_head_index s in
      if \<not> allow_blocking \<and> (head_idx = tail_idx \<or>
           head_idx < tail_idx \<and> tail_idx - head_idx < num_clusters * num_clusters)
      then Some (Inr ((TQ_RET_BLOCK, None), s))
      else
        let head_idx = fst (atomic_inc (sw_head_index s)) - 1;
            s = s\<lparr>sw_head_index := snd (atomic_inc (sw_head_index s))\<rparr>
        in case unwrap_indices TQ G head_idx (sw_tail_index s) of (h, t) \<Rightarrow>
          if h < t
          then Some (bnd (rd (sw_index s) (unat (TQ_IDX_MOD TQ G head_idx))) (\<lambda>tg. Inr ((TQ_RET_SUCCESS, Some tg), s)))
          else barrier_wait TQ G c head_idx False
                 (s\<lparr>sw_cluster_sense := (sw_cluster_sense s)[c := c_not (sw_cluster_sense s ! c)]\<rparr>))"

section \<open>Slow path: SW\_TaskQueue\_Dequeue\_SLOW\<close>

text \<open>The walk to the last entry of a fetched group.\<close>

partial_function (option) last_entry :: "tq_entry list \<Rightarrow> nat \<Rightarrow> nat c_result option" where
  "last_entry data i =
     (if i < length data
      then case te_next (data ! i) of None \<Rightarrow> Some (Inr i) | Some j \<Rightarrow> last_entry data j
      else Some (Inl OutOfBounds))"

definition append_group :: "nat \<Rightarrow> tq_group \<Rightarrow> rtm_sw \<Rightarrow> rtm_sw c_result option" where
  "append_group c tgroup s =
     (case rd tgroup 0 of
        Inl e \<Rightarrow> Some (Inl e)
      | Inr None \<Rightarrow> Some (Inl NullDeref)
      | Inr (Some first) \<Rightarrow>
          (case last_entry (sw_data s) first of
             None \<Rightarrow> None
           | Some (Inl e) \<Rightarrow> Some (Inl e)
           | Some (Inr lst) \<Rightarrow>
               map_option (\<lambda>r. bnd r (\<lambda>(_, s). Inr s))
                 (with_ltq_lock c (\<lambda>s. bnd (ltq_push c first lst s) (\<lambda>s. Inr ((), s))) s)))"

text \<open>
  The fetch loop: \<open>n\<close> is what is left of \<open>SWTQ_TASK_GROUP_FETCH\<close>. The count is incremented
  before it is tested against zero, so that blocking is always allowed. The result says whether
  the barrier was reached.
\<close>

fun fetch_groups :: "nat \<Rightarrow> u32 \<Rightarrow> u32 \<Rightarrow> u32 \<Rightarrow> nat \<Rightarrow> rtm_sw \<Rightarrow> (bool \<times> rtm_sw) c_result option" where
  "fetch_groups 0 TQ G num_clusters c s = Some (Inr (False, s))"
| "fetch_groups (Suc n) TQ G num_clusters c s =
     (case global_swtq_cluster_dequeue TQ G num_clusters c True s of
        None \<Rightarrow> None
      | Some (Inl e) \<Rightarrow> Some (Inl e)
      | Some (Inr ((TQ_RET_SYNC, _), s)) \<Rightarrow> Some (Inr (True, s))
      | Some (Inr ((TQ_RET_BLOCK, _), s)) \<Rightarrow> Some (Inr (False, s))
      | Some (Inr ((TQ_RET_SUCCESS, Some tgroup), s)) \<Rightarrow>
          (case append_group c tgroup s of
             None \<Rightarrow> None
           | Some (Inl e) \<Rightarrow> Some (Inl e)
           | Some (Inr s) \<Rightarrow> fetch_groups n TQ G num_clusters c s)
      | Some (Inr _) \<Rightarrow> Some (Inl Aborted))"

text \<open>The pop under the local lock: the head entry is copied and the head moves on.\<close>

definition ltq_pop :: "nat \<Rightarrow> rtm_sw \<Rightarrow> (tq_task_desc option \<times> rtm_sw) c_result" where
  "ltq_pop c s =
     bnd (rd (sw_cluster_head s) c) (\<lambda>head.
     case head of
       None \<Rightarrow> Inr (None, s)
     | Some i \<Rightarrow> bnd (rd (sw_data s) i) (\<lambda>e.
         Inr (Some (te_desc e), s\<lparr>sw_cluster_head := (sw_cluster_head s)[c := te_next e]\<rparr>)))"

definition toggle_sense :: "nat \<Rightarrow> rtm_sw \<Rightarrow> rtm_sw" where
  "toggle_sense thread s = s\<lparr>sw_local_sense := (sw_local_sense s)[thread := c_not (sw_local_sense s ! thread)]\<rparr>"

type_synonym deq_result = "tq_ret_type \<times> tq_task_desc option"

datatype deq_try = DeqSync | DeqTask tq_task_desc | DeqEmpty

text \<open>The part of a round under the local lock.\<close>

definition deq_local :: "nat \<Rightarrow> nat \<Rightarrow> rtm_sw \<Rightarrow> (deq_try \<times> rtm_sw) c_result option" where
  "deq_local thread c =
     with_ltq_lock c (\<lambda>s.
       if sw_local_sense s ! thread \<noteq> sw_cluster_core_sense s ! c then Inr (DeqSync, toggle_sense thread s)
       else bnd (ltq_pop c s) (\<lambda>(t, s).
         case t of
           None \<Rightarrow> Inr (DeqEmpty, s)
         | Some d \<Rightarrow> Inr (DeqTask d, s\<lparr>sw_core_waitcount := (sw_core_waitcount s)[c := sw_core_waitcount s ! c - 1]\<rparr>)))"

text \<open>
  A round with the lock of the global queue, which refills the local queue; the result is
  whether the barrier was reached.
\<close>

definition deq_refill :: "u32 \<Rightarrow> u32 \<Rightarrow> u32 \<Rightarrow> nat \<Rightarrow> nat \<Rightarrow> rtm_sw \<Rightarrow> (bool \<times> rtm_sw) c_result option" where
  "deq_refill TQ G num_clusters thread c s =
     (let s = s\<lparr>sw_gtq_lock := (sw_gtq_lock s)[c := 1]\<rparr>;
          unlock = (\<lambda>s. s\<lparr>sw_gtq_lock := (sw_gtq_lock s)[c := 0]\<rparr>)
      in if sw_local_sense s ! thread \<noteq> sw_cluster_core_sense s ! c
         then Some (Inr (True, unlock (toggle_sense thread s)))
         else if sw_cluster_head s ! c \<noteq> None then Some (Inr (False, unlock s))
         else map_option (\<lambda>r. bnd r (\<lambda>(sync, s).
                Inr (sync, unlock (if sync then toggle_sense thread s else s))))
                (fetch_groups (nat (sw_group_fetch s)) TQ G num_clusters c s))"

partial_function (option) deq_rounds ::
  "u32 \<Rightarrow> u32 \<Rightarrow> u32 \<Rightarrow> nat \<Rightarrow> nat \<Rightarrow> rtm_sw \<Rightarrow> (deq_result \<times> rtm_sw) c_result option" where
  "deq_rounds TQ G num_clusters thread c s =
     (if sw_local_sense s ! thread \<noteq> sw_cluster_core_sense s ! c
      then Some (Inr ((TQ_RET_SYNC, None),
             s\<lparr>sw_local_sense := (sw_local_sense s)[thread := sw_local_sense s ! thread XOR 1]\<rparr>))
      else case deq_local thread c s of
        None \<Rightarrow> None
      | Some (Inl e) \<Rightarrow> Some (Inl e)
      | Some (Inr (t, s)) \<Rightarrow>
         (case t of
            DeqSync \<Rightarrow> Some (Inr ((TQ_RET_SYNC, None), s))
          | DeqTask d \<Rightarrow> Some (Inr ((TQ_RET_SUCCESS, Some d), s))
          | DeqEmpty \<Rightarrow>
             (if sw_gtq_lock s ! c \<noteq> 0 then deq_rounds TQ G num_clusters thread c s
              else case deq_refill TQ G num_clusters thread c s of
                None \<Rightarrow> None
              | Some (Inl e) \<Rightarrow> Some (Inl e)
              | Some (Inr (sync, s)) \<Rightarrow>
                  (if sync then Some (Inr ((TQ_RET_SYNC, None), s)) else deq_rounds TQ G num_clusters thread c s))))"

definition deq_arrays :: "nat \<Rightarrow> nat \<Rightarrow> rtm_sw \<Rightarrow> bool" where
  "deq_arrays thread c s \<longleftrightarrow> thread < length (sw_local_sense s) \<and> c < length (sw_cluster_core_sense s) \<and>
     c < length (sw_core_waitcount s) \<and> c < length (sw_gtq_lock s) \<and> c < length (sw_cluster_head s) \<and>
     c < length (sw_cluster_sense s)"

definition SW_TaskQueue_Dequeue_SLOW ::
  "u32 \<Rightarrow> u32 \<Rightarrow> u32 \<Rightarrow> nat \<Rightarrow> nat \<Rightarrow> rtm_sw \<Rightarrow> (deq_result \<times> rtm_sw) c_result option" where
  "SW_TaskQueue_Dequeue_SLOW TQ G num_clusters thread c s =
     (if \<not> deq_arrays thread c s then Some (Inl OutOfBounds)
      else deq_rounds TQ G num_clusters thread c
             (s\<lparr>sw_core_waitcount := (sw_core_waitcount s)[c := sw_core_waitcount s ! c + 1]\<rparr>))"

section \<open>Fast path: SW\_TaskQueue\_Dequeue\_FAST\<close>

definition SW_TaskQueue_Dequeue_FAST ::
  "u32 \<Rightarrow> u32 \<Rightarrow> u32 \<Rightarrow> nat \<Rightarrow> nat \<Rightarrow> rtm_sw \<Rightarrow> (deq_result \<times> rtm_sw) c_result option" where
  "SW_TaskQueue_Dequeue_FAST TQ G num_clusters thread c s =
     (case with_ltq_lock c (ltq_pop c) s of
        None \<Rightarrow> None
      | Some (Inl e) \<Rightarrow> Some (Inl e)
      | Some (Inr (Some d, s)) \<Rightarrow> Some (Inr ((TQ_RET_SUCCESS, Some d), s))
      | Some (Inr (None, s)) \<Rightarrow> SW_TaskQueue_Dequeue_SLOW TQ G num_clusters thread c s)"

section \<open>The local queue under its lock\<close>

text \<open>What an acquire and a release of the free lock of cluster \<open>c\<close> leave: both counters moved.\<close>

definition tick :: "nat \<Rightarrow> rtm_sw \<Rightarrow> rtm_sw" where
  "tick c s = s\<lparr>sw_tickets := (sw_tickets s)[c := \<lparr>ticket_count = ticket_count (sw_tickets s ! c) + 1,
     ticket_poll = ticket_poll (sw_tickets s ! c) + 1\<rparr>]\<rparr>"

lemma ticket_both: "l\<lparr>ticket_count := a, ticket_poll := b\<rparr> = \<lparr>ticket_count = a, ticket_poll = b\<rparr>"
  by (cases l) simp

lemma ltq_free_tick [simp]: "ltq_free c s \<Longrightarrow> ltq_free c (tick c s)"
  by (simp add: ltq_free_def tick_def)

lemma tick_sel [simp]:
  "sw_data (tick c s) = sw_data s" "sw_cluster_head (tick c s) = sw_cluster_head s"
  "sw_local_sense (tick c s) = sw_local_sense s" "sw_cluster_core_sense (tick c s) = sw_cluster_core_sense s"
  "sw_core_waitcount (tick c s) = sw_core_waitcount s" "sw_gtq_lock (tick c s) = sw_gtq_lock s"
  "sw_group_fetch (tick c s) = sw_group_fetch s" "sw_head_index (tick c s) = sw_head_index s"
  "sw_tail_index (tick c s) = sw_tail_index s" "sw_index (tick c s) = sw_index s"
  "sw_cluster_sense (tick c s) = sw_cluster_sense s" "sw_global_sense (tick c s) = sw_global_sense s"
  "sw_numclusters (tick c s) = sw_numclusters s" "sw_waitcount0 (tick c s) = sw_waitcount0 s"
  "sw_waitcount1 (tick c s) = sw_waitcount1 s" "sw_threads_per_cluster (tick c s) = sw_threads_per_cluster s"
  by (simp_all add: tick_def)

lemma ltq_is_tick [simp]: "ltq_is c (tick d s) is \<longleftrightarrow> ltq_is c s is"
  by (simp add: ltq_is_def)

lemma ltq_free_cong: "sw_tickets s' = sw_tickets s \<Longrightarrow> ltq_free c s' \<longleftrightarrow> ltq_free c s"
  by (simp add: ltq_free_def)

lemma with_ltq_lock_frame:
  assumes "ltq_free c s"
    and "\<And>ts. body (s\<lparr>sw_tickets := ts\<rparr>) = bnd (body s) (\<lambda>(r, s'). Inr (r, s'\<lparr>sw_tickets := ts\<rparr>))"
    and "body s = Inr (r, s')" "sw_tickets s' = sw_tickets s"
  shows "with_ltq_lock c body s = Some (Inr (r, tick c s'))"
proof -
  let ?l = "sw_tickets s ! c" let ?t = "(sw_tickets s)[c := ?l\<lparr>ticket_count := ticket_count ?l + 1\<rparr>]"
  have c: "c < length (sw_tickets s)" using assms(1) by (simp add: ltq_free_def)
  have "LOCAL_LOCK_ACQUIRE ?l = Some (?l\<lparr>ticket_count := ticket_count ?l + 1\<rparr>)"
    using assms(1) by (simp add: LOCAL_LOCK_ACQUIRE_def lock_take_ticket_def lock_poll_def ltq_free_def)
  moreover have "body (s\<lparr>sw_tickets := ?t\<rparr>) = Inr (r, s'\<lparr>sw_tickets := ?t\<rparr>)" using assms(2) [of ?t] assms(3) by (simp add: c_monad)
  ultimately show ?thesis
    using c assms(4) by (simp add: with_ltq_lock_def c_monad tick_def LOCAL_LOCK_RELEASE_def ticket_both)
qed

lemma ltq_pop_frame:
  "ltq_pop c (s\<lparr>sw_tickets := ts\<rparr>) = bnd (ltq_pop c s) (\<lambda>(r, s'). Inr (r, s'\<lparr>sw_tickets := ts\<rparr>))"
  by (auto simp: ltq_pop_def c_monad rd_def split: option.split)

lemma ltq_pop_empty: "ltq_is c s [] \<Longrightarrow> ltq_pop c s = Inr (None, s)"
  by (simp add: ltq_pop_def ltq_is_def rd_def c_monad)








section \<open>Refill from the global queue\<close>





lemma unwrap_same: "unat tail + unat TQ < 2 ^ 32 \<Longrightarrow> unat head \<le> unat tail + unat TQ \<Longrightarrow> unwrap_indices TQ G head tail = (head, tail)"
  by (simp add: unwrap_indices_def word_less_nat_alt unat_word_ariths)

definition senses_agree :: "nat \<Rightarrow> nat \<Rightarrow> rtm_sw \<Rightarrow> bool" where
  "senses_agree thread c s \<longleftrightarrow> sw_local_sense s ! thread = sw_cluster_core_sense s ! c"

lemma deq_local_empty:
  assumes "ltq_free c s" "ltq_is c s []" "senses_agree thread c s"
  shows "deq_local thread c s = Some (Inr (DeqEmpty, tick c s))"
  using assms unfolding deq_local_def senses_agree_def
  by (intro with_ltq_lock_frame) (auto simp: ltq_pop_frame ltq_pop_empty c_monad)


lemma fast_empty:
  assumes "ltq_free c s" "ltq_is c s []" "deq_arrays thread c s"
  shows "SW_TaskQueue_Dequeue_FAST TQ G nc thread c s = deq_rounds TQ G nc thread c
    ((tick c s)\<lparr>sw_core_waitcount := (sw_core_waitcount s)[c := sw_core_waitcount s ! c + 1]\<rparr>)"
proof -
  have "with_ltq_lock c (ltq_pop c) s = Some (Inr (None, tick c s))"
    using assms by (intro with_ltq_lock_frame) (simp_all add: ltq_pop_frame ltq_pop_empty)
  moreover have "deq_arrays thread c (tick c s)" using assms(3) by (simp add: deq_arrays_def)
  ultimately show ?thesis by (simp add: SW_TaskQueue_Dequeue_FAST_def SW_TaskQueue_Dequeue_SLOW_def)
qed

lemma deq_rounds_refill:
  assumes "ltq_free c s" "ltq_is c s []" "senses_agree thread c s" "sw_gtq_lock s ! c = 0"
    and "deq_refill TQ G nc thread c (tick c s) = Some (Inr (sync, s'))"
  shows "deq_rounds TQ G nc thread c s =
    (if sync then Some (Inr ((TQ_RET_SYNC, None), s')) else deq_rounds TQ G nc thread c s')"
  using assms(3-5) deq_local_empty [OF assms(1-3)]
  by (subst deq_rounds.simps) (simp add: senses_agree_def)









section \<open>The barrier of an empty queue\<close>

lemma enter_barrier_full:
  assumes "ltq_free c s" "sw_threads_per_cluster s = sw_core_waitcount s ! c"
  shows "enter_barrier c False s = Some (Inr (True, set_waitcount (sw_cluster_sense s ! c)
    (waitcount (sw_cluster_sense s ! c) s + 1) (tick c s)))"
proof -
  let ?body = "\<lambda>s. Inr (sw_threads_per_cluster s = sw_core_waitcount s ! c, s)"
  have "with_ltq_lock c ?body s = Some (Inr (True, tick c s))"
    using assms by (intro with_ltq_lock_frame) (simp_all add: c_monad)
  then show ?thesis by (simp add: enter_barrier_def waitcount_def atomic_inc_def)
qed

lemma set_waitcount_sel [simp]:
  "sw_numclusters (set_waitcount b v s) = sw_numclusters s"
  "sw_cluster_sense (set_waitcount b v s) = sw_cluster_sense s"
  "sw_cluster_core_sense (set_waitcount b v s) = sw_cluster_core_sense s"
  "sw_core_waitcount (set_waitcount b v s) = sw_core_waitcount s"
  "sw_local_sense (set_waitcount b v s) = sw_local_sense s"
  "sw_gtq_lock (set_waitcount b v s) = sw_gtq_lock s"
  "sw_cluster_head (set_waitcount b v s) = sw_cluster_head s"
  "sw_data (set_waitcount b v s) = sw_data s"
  "sw_tail_index (set_waitcount b v s) = sw_tail_index s"
  "sw_head_index (set_waitcount b v s) = sw_head_index s"
  "sw_tickets (set_waitcount b v s) = sw_tickets s"
  by (simp_all add: set_waitcount_def)

lemma waitcount_set [simp]:
  "waitcount b (set_waitcount b v s) = v"
  "waitcount (c_not b) (set_waitcount b v s) = waitcount (c_not b) s"
  "waitcount b (set_waitcount (c_not b) v s) = waitcount b s"
  by (simp_all add: waitcount_def set_waitcount_def c_not_def)

lemma barrier_wait_last:
  assumes "ltq_free c s" "sw_threads_per_cluster s = sw_core_waitcount s ! c"
    and "sw_global_sense s \<noteq> sw_cluster_sense s ! c" "0 < sw_numclusters s"
    and "waitcount (sw_cluster_sense s ! c) s = sw_numclusters s - 1"
    and "unat (sw_tail_index s) + unat (sw_numclusters s) + unat TQ < 2 ^ 32" "sw_numclusters s \<le> TQ"
  shows "\<exists>s'. barrier_wait TQ G c (sw_tail_index s + sw_numclusters s - 1) False s = Some (Inr ((TQ_RET_SYNC, None), s')) \<and>
    sw_tickets s' = sw_tickets (tick c s) \<and> sw_head_index s' = sw_tail_index s \<and> sw_tail_index s' = sw_tail_index s \<and>
    sw_global_sense s' = sw_cluster_sense s ! c \<and> sw_cluster_sense s' = sw_cluster_sense s \<and>
    waitcount (c_not (sw_cluster_sense s ! c)) s' = 0 \<and> sw_core_waitcount s' = (sw_core_waitcount s)[c := 0] \<and>
    sw_cluster_core_sense s' = (sw_cluster_core_sense s)[c := c_not (sw_cluster_core_sense s ! c)] \<and>
    sw_local_sense s' = sw_local_sense s \<and> sw_gtq_lock s' = sw_gtq_lock s \<and>
    sw_cluster_head s' = sw_cluster_head s \<and> sw_data s' = sw_data s"
proof -
  let ?b = "sw_cluster_sense s ! c" let ?h = "sw_tail_index s + sw_numclusters s - 1"
  let ?s = "set_waitcount ?b (waitcount ?b s + 1) (tick c s)"
  have n: "1 \<le> sw_numclusters s" using assms(4) by (simp add: word_le_nat_alt word_less_nat_alt)
  have "unat (sw_tail_index s + sw_numclusters s) = unat (sw_tail_index s) + unat (sw_numclusters s)"
    using assms(6) by (simp add: unat_word_ariths)
  then have h: "unat ?h = unat (sw_tail_index s) + unat (sw_numclusters s) - 1"
    using n by (subst unat_sub) (auto simp: word_le_nat_alt)
  have un: "unwrap_indices TQ G ?h (sw_tail_index s) = (?h, sw_tail_index s)"
    using h assms(6,7) by (intro unwrap_same) (auto simp: word_le_nat_alt)
  have nlt: "\<not> ?h < sw_tail_index s" using h n by (simp add: word_less_nat_alt word_le_nat_alt)
  let ?f = "leave_barrier c ((set_waitcount (c_not ?b) 0 (?s\<lparr>sw_head_index := sw_tail_index s\<rparr>))\<lparr>sw_global_sense := ?b\<rparr>)"
  have "barrier_wait TQ G c ?h False s = Some (Inr ((TQ_RET_SYNC, None), ?f))"
    using assms(3,5) un nlt enter_barrier_full [OF assms(1,2)] by (subst barrier_wait.simps) (simp add: Let_def)
  moreover have "waitcount (c_not ?b) ?f = 0" by (simp add: leave_barrier_def waitcount_def set_waitcount_def)
  ultimately show ?thesis by (intro exI [of _ ?f]) (simp add: leave_barrier_def)
qed

text \<open>
  The state in which the last cluster arrives: every other cluster has taken an index past the
  tail and is counted, and every other thread of this cluster waits.
\<close>

definition last_arrival :: "nat \<Rightarrow> rtm_sw \<Rightarrow> bool" where
  "last_arrival c s \<longleftrightarrow> 0 < sw_numclusters s \<and> sw_head_index s = sw_tail_index s + sw_numclusters s - 1 \<and>
     sw_threads_per_cluster s = sw_core_waitcount s ! c + 1 \<and> sw_global_sense s = sw_cluster_sense s ! c \<and>
     waitcount (c_not (sw_cluster_sense s ! c)) s = sw_numclusters s - 1"

lemma global_dequeue_last:
  assumes "ltq_free c s" "c < length (sw_cluster_sense s)" "0 < sw_numclusters s"
    and "sw_head_index s = sw_tail_index s + sw_numclusters s - 1"
    and "sw_threads_per_cluster s = sw_core_waitcount s ! c" "sw_global_sense s = sw_cluster_sense s ! c"
    and "waitcount (c_not (sw_cluster_sense s ! c)) s = sw_numclusters s - 1"
    and "unat (sw_tail_index s) + unat (sw_numclusters s) + unat TQ < 2 ^ 32" "sw_numclusters s \<le> TQ"
  shows "\<exists>s'. global_swtq_cluster_dequeue TQ G nc c True s = Some (Inr ((TQ_RET_SYNC, None), s')) \<and>
    sw_tickets s' = sw_tickets (tick c s) \<and> sw_head_index s' = sw_tail_index s \<and> sw_tail_index s' = sw_tail_index s \<and>
    sw_global_sense s' = c_not (sw_cluster_sense s ! c) \<and>
    sw_cluster_sense s' = (sw_cluster_sense s)[c := c_not (sw_cluster_sense s ! c)] \<and>
    waitcount (c_not (c_not (sw_cluster_sense s ! c))) s' = 0 \<and> sw_core_waitcount s' = (sw_core_waitcount s)[c := 0] \<and>
    sw_cluster_core_sense s' = (sw_cluster_core_sense s)[c := c_not (sw_cluster_core_sense s ! c)] \<and>
    sw_local_sense s' = sw_local_sense s \<and> sw_gtq_lock s' = sw_gtq_lock s \<and>
    sw_cluster_head s' = sw_cluster_head s \<and> sw_data s' = sw_data s"
proof -
  let ?h = "sw_tail_index s + sw_numclusters s - 1"
  let ?s = "s\<lparr>sw_head_index := ?h + 1, sw_cluster_sense := (sw_cluster_sense s)[c := c_not (sw_cluster_sense s ! c)]\<rparr>"
  have n: "1 \<le> sw_numclusters s" using assms(3) by (simp add: word_le_nat_alt word_less_nat_alt)
  have "unat (sw_tail_index s + sw_numclusters s) = unat (sw_tail_index s) + unat (sw_numclusters s)"
    using assms(8) by (simp add: unat_word_ariths)
  then have h: "unat ?h = unat (sw_tail_index s) + unat (sw_numclusters s) - 1"
    using n by (subst unat_sub) (auto simp: word_le_nat_alt)
  have un: "unwrap_indices TQ G ?h (sw_tail_index s) = (?h, sw_tail_index s)"
    using h assms(8,9) by (intro unwrap_same) (auto simp: word_le_nat_alt)
  have nlt: "\<not> ?h < sw_tail_index s" using h n by (simp add: word_less_nat_alt word_le_nat_alt)
  have "global_swtq_cluster_dequeue TQ G nc c True s = barrier_wait TQ G c ?h False ?s"
    using un nlt assms(4) by (simp add: global_swtq_cluster_dequeue_def atomic_inc_def Let_def)
  moreover have "ltq_free c ?s" using assms(1) ltq_free_cong [of ?s s c] by simp
  moreover have "sw_tickets (tick c ?s) = sw_tickets (tick c s)" by (simp add: tick_def)
  moreover have "waitcount (sw_cluster_sense ?s ! c) ?s = sw_numclusters ?s - 1"
    using assms(2,7) by (simp add: waitcount_def split: if_splits)
  moreover have "sw_global_sense ?s \<noteq> sw_cluster_sense ?s ! c" using assms(2,6) by (simp add: c_not_def)
  ultimately show ?thesis
    using barrier_wait_last [of c ?s TQ G] assms(2,3,5,8,9) by simp
qed

text \<open>
  C13: the barrier of an empty queue opens. The last thread of the last cluster to find the
  queue empty returns the synchronisation code: the global sense is flipped, the head of the
  queue is back at its tail, the counts for the next phase are zero and both locks are free.
  Every other waiting thread of its cluster, and every other waiting cluster, then returns the
  synchronisation code in its next round.
\<close>

theorem empty_queue_barrier:
  assumes "ltq_free c s" and "ltq_is c s []" and "deq_arrays thread c s" and "senses_agree thread c s"
    and "sw_gtq_lock s ! c = 0" and "0 < sw_group_fetch s" and "last_arrival c s"
    and "unat (sw_tail_index s) + unat (sw_numclusters s) + unat TQ < 2 ^ 32" and "sw_numclusters s \<le> TQ"
    and "sw_cluster_core_sense s ! c \<le> 1"
  shows "\<exists>s'. SW_TaskQueue_Dequeue_FAST TQ G nc thread c s = Some (Inr ((TQ_RET_SYNC, None), s')) \<and>
    ltq_free c s' \<and> ltq_is c s' [] \<and> sw_gtq_lock s' ! c = 0 \<and> senses_agree thread c s' \<and>
    sw_head_index s' = sw_tail_index s' \<and> sw_tail_index s' = sw_tail_index s \<and>
    sw_global_sense s' = c_not (sw_global_sense s) \<and> sw_cluster_sense s' ! c = sw_global_sense s' \<and>
    waitcount (c_not (sw_global_sense s')) s' = 0 \<and> sw_core_waitcount s' ! c = 0 \<and>
    (\<forall>i<length (sw_local_sense s). i \<noteq> thread \<and> senses_agree i c s \<longrightarrow>
      (\<exists>s''. deq_rounds TQ G nc i c s' = Some (Inr ((TQ_RET_SYNC, None), s'')) \<and> senses_agree i c s'')) \<and>
    (\<forall>d h e. d \<noteq> c \<and> sw_cluster_sense s ! d = sw_global_sense s' \<longrightarrow>
      barrier_wait TQ G d h e s' = Some (Inr ((TQ_RET_SYNC, None), leave_barrier d s')))"
proof -
  let ?b = "sw_cluster_sense s ! c" let ?l = "c_not (sw_cluster_core_sense s ! c)"
  let ?s = "(tick c s)\<lparr>sw_core_waitcount := (sw_core_waitcount s)[c := sw_core_waitcount s ! c + 1]\<rparr>"
  let ?t = "(tick c ?s)\<lparr>sw_gtq_lock := (sw_gtq_lock s)[c := 1]\<rparr>"
  have len: "c < length (sw_cluster_sense s)" "c < length (sw_core_waitcount s)" "c < length (sw_cluster_core_sense s)"
    "thread < length (sw_local_sense s)" "c < length (sw_gtq_lock s)" using assms(3) by (simp_all add: deq_arrays_def)
  have f: "ltq_free c ?s" "ltq_is c ?s []" "senses_agree thread c ?s"
    using assms(1,2,4) ltq_free_cong [of ?s "tick c s" c] by (simp_all add: ltq_is_def senses_agree_def)
  have ft: "ltq_free c ?t" using f(1) ltq_free_cong [of ?t "tick c ?s" c] by simp
  have wc: "waitcount b ?t = waitcount b s" for b by (simp add: waitcount_def)
  obtain u where u: "global_swtq_cluster_dequeue TQ G nc c True ?t = Some (Inr ((TQ_RET_SYNC, None), u))"
    "sw_tickets u = sw_tickets (tick c ?t)" "sw_head_index u = sw_tail_index s" "sw_tail_index u = sw_tail_index s"
    "sw_global_sense u = c_not ?b" "sw_cluster_sense u = (sw_cluster_sense s)[c := c_not ?b]"
    "waitcount (c_not (c_not ?b)) u = 0" "sw_core_waitcount u = (sw_core_waitcount s)[c := 0]"
    "sw_cluster_core_sense u = (sw_cluster_core_sense s)[c := ?l]" "sw_local_sense u = sw_local_sense s"
    "sw_gtq_lock u = (sw_gtq_lock s)[c := 1]" "sw_cluster_head u = sw_cluster_head s" "sw_data u = sw_data s"
    using global_dequeue_last [OF ft, of TQ G nc] assms(7-9) len wc [of "c_not ?b"]
    unfolding last_arrival_def by auto
  let ?v = "(toggle_sense thread u)\<lparr>sw_gtq_lock := (sw_gtq_lock u)[c := 0]\<rparr>"
  obtain n where n: "nat (sw_group_fetch s) = Suc n" using assms(6) by (cases "nat (sw_group_fetch s)") auto
  have empty: "sw_cluster_head s ! c = None" using assms(2) by (simp add: ltq_is_def)
  have "fetch_groups (nat (sw_group_fetch s)) TQ G nc c ?t = Some (Inr (True, u))" using n u(1) by simp
  then have "deq_refill TQ G nc thread c (tick c ?s) = Some (Inr (True, ?v))"
    using assms(4) empty unfolding deq_refill_def senses_agree_def Let_def by (simp add: c_monad toggle_sense_def)
  then have call: "SW_TaskQueue_Dequeue_FAST TQ G nc thread c s = Some (Inr ((TQ_RET_SYNC, None), ?v))"
    using fast_empty [OF assms(1-3)] deq_rounds_refill [OF f] assms(5) by simp
  have "sw_tickets ?v = sw_tickets (tick c ?t)" using u(2) by (simp add: toggle_sense_def)
  then have free: "ltq_free c ?v" using ft ltq_free_cong [of ?v "tick c ?t" c] by simp
  have core: "sw_cluster_core_sense s ! c = 0 \<or> sw_cluster_core_sense s ! c = 1"
    using assms(10) by (auto simp: word_le_nat_alt le_Suc_eq unat_eq_0 intro: word_unat_eq_iff [THEN iffD2])
  have other: "\<exists>s''. deq_rounds TQ G nc i c ?v = Some (Inr ((TQ_RET_SYNC, None), s'')) \<and> senses_agree i c s''"
    if "i < length (sw_local_sense s)" "i \<noteq> thread" "senses_agree i c s" for i
    using that core len u(9,10)
    by (subst deq_rounds.simps) (auto simp: senses_agree_def toggle_sense_def)
  have cluster: "barrier_wait TQ G d h e ?v = Some (Inr ((TQ_RET_SYNC, None), leave_barrier d ?v))"
    if "d \<noteq> c" "sw_cluster_sense s ! d = sw_global_sense ?v" for d h e
    using that u(5,6) by (subst barrier_wait.simps) (simp add: toggle_sense_def)
  have wv: "waitcount b ?v = waitcount b u" for b by (simp add: waitcount_def toggle_sense_def)
  have "sw_global_sense s = ?b" using assms(7) by (simp add: last_arrival_def)
  then have v: "ltq_is c ?v []" "sw_gtq_lock ?v ! c = 0" "senses_agree thread c ?v"
    "sw_head_index ?v = sw_tail_index ?v" "sw_tail_index ?v = sw_tail_index s" "sw_global_sense ?v = c_not (sw_global_sense s)"
    "sw_cluster_sense ?v ! c = sw_global_sense ?v" "sw_core_waitcount ?v ! c = 0"
    using u(3-13) len assms(2,4) by (simp_all add: toggle_sense_def senses_agree_def ltq_is_def)
  have "sw_global_sense ?v = c_not ?b" using u(5) by (simp add: toggle_sense_def)
  then have w: "waitcount (c_not (sw_global_sense ?v)) ?v = 0" using wv u(7) by (simp only:)
  show ?thesis by (rule exI [of _ ?v], intro conjI call free v w) (use other cluster in blast)+
qed

definition sw_last_thread :: rtm_sw where
  "sw_last_thread = sw_cold\<lparr>sw_gtq_lock := [0, 1], sw_tickets := [\<lparr>ticket_count = 0, ticket_poll = 1\<rparr>, \<lparr>ticket_count = 0, ticket_poll = 1\<rparr>],
     sw_cluster_head := [None, None], sw_head_index := 6, sw_tail_index := 5, sw_numclusters := 2,
     sw_threads_per_cluster := 4, sw_core_waitcount := [3, 4], sw_global_sense := 0, sw_cluster_sense := [0, 1],
     sw_waitcount0 := 0, sw_waitcount1 := 1, sw_local_sense := replicate 8 0, sw_cluster_core_sense := [0, 0]\<rparr>"

theorem empty_queue_barrier_witness:
  "\<exists>s'. SW_TaskQueue_Dequeue_FAST 16 2 2 3 0 sw_last_thread = Some (Inr ((TQ_RET_SYNC, None), s')) \<and>
    sw_head_index s' = 5 \<and> sw_global_sense s' = 1 \<and>
    barrier_wait 16 2 1 5 True s' = Some (Inr ((TQ_RET_SYNC, None), leave_barrier 1 s'))"
proof -
  have f: "ltq_free 0 sw_last_thread" "ltq_is 0 sw_last_thread []" "deq_arrays 3 0 sw_last_thread"
    "senses_agree 3 0 sw_last_thread" "sw_gtq_lock sw_last_thread ! 0 = 0" "0 < sw_group_fetch sw_last_thread"
    "last_arrival 0 sw_last_thread"
    "unat (sw_tail_index sw_last_thread) + unat (sw_numclusters sw_last_thread) + unat (16 :: u32) < 2 ^ 32"
    "sw_numclusters sw_last_thread \<le> 16" "sw_cluster_core_sense sw_last_thread ! 0 \<le> 1"
    by (simp_all add: sw_last_thread_def sw_cold_def ltq_free_def ltq_is_def deq_arrays_def senses_agree_def
        last_arrival_def waitcount_def)
  have "sw_tail_index sw_last_thread = 5" "sw_global_sense sw_last_thread = 0" "sw_cluster_sense sw_last_thread ! 1 = 1"
    by (simp_all add: sw_last_thread_def)
  then show ?thesis using empty_queue_barrier [OF f, of 2 2] by auto
qed

text \<open>
  The non-blocking variant never dequeues: it reads the head index twice where it means to
  read head and tail, so that it always finds the queue empty.
\<close>

lemma nonblocking_never_dequeues:
  "global_swtq_cluster_dequeue TQ G nc c False s = Some (Inr ((TQ_RET_BLOCK, None), s))"
  by (simp add: global_swtq_cluster_dequeue_def Let_def)

section \<open>Publishing a group\<close>

lemma store_slot_ok:
  "row < length index \<Longrightarrow> slot < length (index ! row) \<Longrightarrow>
   store_slot row slot p index = Inr (index[row := (index ! row)[slot := Some p]])"
  by (simp add: store_slot_def rd_def wr_def c_monad)

lemma store_slots_first:
  assumes "0 < length index" "n < length (index ! 0)"
  shows "\<exists>g. for_n n (\<lambda>j. store_slot 0 (Suc j) (off + Suc j)) index = Inr (index[0 := g]) \<and>
    length g = length (index ! 0) \<and>
    (\<forall>j<length (index ! 0). g ! j = (if 0 < j \<and> j \<le> n then Some (off + j) else index ! 0 ! j))"
  using assms(2)
proof (induction n)
  case (Suc n)
  then obtain g where g: "for_n n (\<lambda>j. store_slot 0 (Suc j) (off + Suc j)) index = Inr (index[0 := g])"
    "length g = length (index ! 0)"
    "\<forall>j<length (index ! 0). g ! j = (if 0 < j \<and> j \<le> n then Some (off + j) else index ! 0 ! j)"
    by auto
  then have "for_n (Suc n) (\<lambda>j. store_slot 0 (Suc j) (off + Suc j)) index = Inr (index[0 := g[Suc n := Some (off + Suc n)]])"
    using assms(1) Suc.prems by (simp add: c_monad store_slot_ok)
  then show ?case using g(2,3) Suc.prems
    by (intro exI [of _ "g[Suc n := Some (off + Suc n)]"]) (auto simp: nth_list_update le_Suc_eq)
qed (auto intro: exI [of _ "index ! 0"])

text \<open>
  what the enqueue publishes in the global queue. The group at the tail gets its first
  task pointer and the tail moves on, and the tasks of the group form a list from that pointer
  that ends in NULL, so that the dequeue finds them all. The other pointers of the group are
  not stored there: they overwrite the pointers of group 0, whatever the tail is.
\<close>

theorem publish_group_effect:
  assumes "unat (sw_tail_index s) < length (sw_index s)" and "0 < unat (sw_tail_index s)"
    and "0 < length (sw_index s ! unat (sw_tail_index s))" and "n \<le> length (sw_index s ! 0)" and "0 < n"
    and "off + n \<le> length (sw_data s)"
    and "\<forall>i. Suc i < n \<longrightarrow> te_next (sw_data s ! (off + i)) = Some (off + i + 1)"
  shows "\<exists>s'. publish_group off n s = Inr s' \<and> sw_tail_index s' = sw_tail_index s + 1 \<and>
    chain (sw_data s') (Some off) [off..<off + n] \<and>
    sw_index s' ! unat (sw_tail_index s) = (sw_index s ! unat (sw_tail_index s))[0 := Some off] \<and>
    (\<forall>j. 0 < j \<and> j < n \<longrightarrow> sw_index s' ! 0 ! j = Some (off + j))"
proof -
  let ?r = "unat (sw_tail_index s)" let ?ix = "(sw_index s)[?r := (sw_index s ! ?r)[0 := Some off]]"
  let ?l = "off + n - 1" let ?d = "(sw_data s)[?l := (sw_data s ! ?l)\<lparr>te_next := None\<rparr>]"
  have ix: "0 < length ?ix" "n - 1 < length (?ix ! 0)" using assms(1,2,4,5) by (auto simp: nth_list_update)
  obtain g where g: "for_n (n - 1) (\<lambda>j. store_slot 0 (Suc j) (off + Suc j)) ?ix = Inr (?ix[0 := g])"
    "\<forall>j<length (?ix ! 0). g ! j = (if 0 < j \<and> j \<le> n - 1 then Some (off + j) else ?ix ! 0 ! j)"
    using store_slots_first [OF ix, of off] by auto
  let ?s = "s\<lparr>sw_index := ?ix[0 := g], sw_data := ?d, sw_tail_index := sw_tail_index s + 1\<rparr>"
  have "?l < length (sw_data s)" using assms(5,6) by simp
  then have "publish_group off n s = Inr ?s"
    using assms(1,3) g(1) by (simp add: publish_group_def store_slot_ok set_next_def rd_def c_monad atomic_inc_def)
  moreover have "chain ?d (Some off) ([off..<off + n] @ [])"
    using assms(5-7) by (intro chain_run [where q = None]) (auto simp: nth_list_update)
  moreover have "?ix[0 := g] ! ?r = (sw_index s ! ?r)[0 := Some off]" using assms(1,2) by simp
  moreover have "?ix[0 := g] ! 0 ! j = Some (off + j)" if "0 < j" "j < n" for j
  proof -
    have "j < length (?ix ! 0)" "j \<le> n - 1" using that assms(2,4) by simp_all
    then show ?thesis using g(2) that(1) ix(1) by simp
  qed
  ultimately show ?thesis by (intro exI [of _ ?s]) simp
qed

definition sw_two_groups :: rtm_sw where
  "sw_two_groups = sw_cold\<lparr>sw_tail_index := 1, sw_index := [[Some 0, Some 1], [None, None]],
     sw_data := map (\<lambda>i. \<lparr>te_desc = \<lparr>td_v1 = 0, td_v2 = 0, td_begin = 0, td_end = 0\<rparr>, te_next = Some (i + 1)\<rparr>) [0..<4]\<rparr>"

theorem publish_group_effect_witness:
  "\<exists>s'. publish_group 2 2 sw_two_groups = Inr s' \<and> sw_index s' ! 1 = [Some 2, None] \<and> sw_index s' ! 0 ! 1 = Some 3"
proof -
  have f: "unat (sw_tail_index sw_two_groups) < length (sw_index sw_two_groups)" "0 < unat (sw_tail_index sw_two_groups)"
    "0 < length (sw_index sw_two_groups ! unat (sw_tail_index sw_two_groups))" "2 \<le> length (sw_index sw_two_groups ! 0)"
    "(0 :: nat) < 2" "2 + 2 \<le> length (sw_data sw_two_groups)"
    "\<forall>i. Suc i < 2 \<longrightarrow> te_next (sw_data sw_two_groups ! (2 + i)) = Some (2 + i + 1)"
    by (simp_all add: sw_two_groups_def)
  obtain s' where "publish_group 2 2 sw_two_groups = Inr s'"
    "sw_index s' ! unat (sw_tail_index sw_two_groups) = (sw_index sw_two_groups ! unat (sw_tail_index sw_two_groups))[0 := Some 2]"
    "\<forall>j. 0 < j \<and> j < 2 \<longrightarrow> sw_index s' ! 0 ! j = Some (2 + j)"
    using publish_group_effect [OF f] by blast
  then show ?thesis by (auto simp: sw_two_groups_def)
qed

end
