(* ===== verification/Stencil_Blocks.thy ===== *)
theory Stencil_Blocks
  imports Prelude "HOL-Library.Signed_Division"
begin

text \<open>
  How the stencil benchmark (benchmarks/stencil/stencil.c) divides the grid among the threads:
  the choice of the sizes of the micro blocks in \<open>main\<close>, the bounds of every thread
  (\<open>calculateBounds\<close>), and the one-dimensional division \<open>calculateBlockBounds\<close>. The numbers are
  32-bit words, a division by zero and an access outside of an array are faults, \<open>RigelAbort\<close>
  is the fault \<open>Aborted\<close>. What is printed and flushed is left out.
\<close>

section \<open>Sizes of the micro blocks: main\<close>

definition udiv :: "u32 \<Rightarrow> u32 \<Rightarrow> u32 c_result" where
  "udiv a b = (if b = 0 then Inl DivByZero else Inr (a div b))"

definition umod :: "u32 \<Rightarrow> u32 \<Rightarrow> u32 c_result" where
  "umod a b = (if b = 0 then Inl DivByZero else Inr (a mod b))"

definition abort_if :: "bool \<Rightarrow> 'a c_result \<Rightarrow> 'a c_result" where
  "abort_if c r = (if c then Inl Aborted else r)"

text \<open>
  The pattern of the branches with a second dimension: what is left of the division goes to
  the second dimension and, should that be too small, to the third. The result are the block
  sizes in the second and in the third dimension.
\<close>

definition split_rest :: "u32 \<Rightarrow> u32 \<Rightarrow> u32 \<Rightarrow> (u32 \<times> u32) c_result" where
  "split_rest numDivsLeft second third =
     bnd (umod second numDivsLeft) (\<lambda>r.
     abort_if (r \<noteq> 0)
       (if numDivsLeft \<le> second then bnd (udiv second numDivsLeft) (\<lambda>m. Inr (m, third))
        else bnd (udiv numDivsLeft second) (\<lambda>n.
             abort_if (third < n)
               (bnd (umod third n) (\<lambda>r. abort_if (r \<noteq> 0)
               (bnd (udiv third n) (\<lambda>m. Inr (1, m))))))))"

definition micro_x_first :: "u32 \<Rightarrow> u32 \<Rightarrow> u32 \<times> u32 \<times> u32 \<Rightarrow> (u32 \<times> u32 \<times> u32) c_result" where
  "micro_x_first blockDim2 threads macro = (case macro of (mx, my, mz) \<Rightarrow>
     if threads \<le> mx
     then bnd (umod mx threads) (\<lambda>r. abort_if (r \<noteq> 0) (bnd (udiv mx threads) (\<lambda>m. Inr (m, my, mz))))
     else if blockDim2 = 1
     then bnd (udiv threads mx) (\<lambda>n. bnd (split_rest n my mz) (\<lambda>(y, z). Inr (1, y, z)))
     else bnd (udiv threads mx) (\<lambda>n. bnd (split_rest n mz my) (\<lambda>(z, y). Inr (1, y, z))))"

definition micro_y_first :: "u32 \<Rightarrow> u32 \<Rightarrow> u32 \<times> u32 \<times> u32 \<Rightarrow> (u32 \<times> u32 \<times> u32) c_result" where
  "micro_y_first blockDim2 threads macro = (case macro of (mx, my, mz) \<Rightarrow>
     if threads \<le> my
     then bnd (umod my threads) (\<lambda>r. abort_if (r \<noteq> 0) (bnd (udiv my threads) (\<lambda>m. Inr (mx, m, mz))))
     else if blockDim2 = 0
     then bnd (udiv threads my) (\<lambda>n. bnd (split_rest n mx mz) (\<lambda>(x, z). Inr (x, 1, z)))
     else bnd (udiv threads my) (\<lambda>n. bnd (split_rest n mz mx) (\<lambda>(z, x). Inr (x, 1, z))))"

definition micro_z_first :: "u32 \<Rightarrow> u32 \<Rightarrow> u32 \<times> u32 \<times> u32 \<Rightarrow> (u32 \<times> u32 \<times> u32) c_result" where
  "micro_z_first blockDim2 threads macro = (case macro of (mx, my, mz) \<Rightarrow>
     if threads \<le> mz
     then bnd (umod mz threads) (\<lambda>r. abort_if (r \<noteq> 0) (bnd (udiv mz threads) (\<lambda>m. Inr (mx, my, m))))
     else if blockDim2 = 0
     then bnd (udiv threads mz) (\<lambda>n. bnd (split_rest n mx my) (\<lambda>(x, y). Inr (x, y, 1)))
     else bnd (udiv threads mz) (\<lambda>n. bnd (split_rest n my mx) (\<lambda>(y, x). Inr (x, y, 1))))"

definition micro_blocks :: "u32 \<Rightarrow> u32 \<Rightarrow> u32 \<Rightarrow> u32 \<times> u32 \<times> u32 \<Rightarrow> (u32 \<times> u32 \<times> u32) c_result" where
  "micro_blocks blockDim1 blockDim2 threads macro =
     (if blockDim1 = 0 then micro_x_first blockDim2 threads macro
      else if blockDim1 = 1 then micro_y_first blockDim2 threads macro
      else if blockDim1 = 2 then micro_z_first blockDim2 threads macro
      else Inl Aborted)"

text \<open>The size of a macro block in one dimension.\<close>

definition macro_block :: "u32 \<Rightarrow> u32 \<Rightarrow> u32 c_result" where
  "macro_block n blocks = bnd (umod (n - 2) blocks) (\<lambda>r. abort_if (r \<noteq> 0) (udiv (n - 2) blocks))"

section \<open>Bounds of the threads: calculateBounds\<close>

record stencil_bounds =
  s_xpos :: "u32 list"
  s_ypos :: "u32 list"
  s_zpos :: "u32 list"
  s_xmin :: "u32 list"
  s_xmax :: "u32 list"
  s_ymin :: "u32 list"
  s_ymax :: "u32 list"
  s_zmin :: "u32 list"
  s_zmax :: "u32 list"

definition next_pos :: "int \<Rightarrow> int \<Rightarrow> int \<times> int \<times> int \<Rightarrow> int \<times> int \<times> int" where
  "next_pos xDivs yDivs p = (case p of (x, y, z) \<Rightarrow>
     if xDivs \<le> x + 1 then if yDivs \<le> y + 1 then (0, 0, z + 1) else (0, y + 1, z) else (x + 1, y, z))"

definition put_pos :: "int \<Rightarrow> int \<Rightarrow> nat \<Rightarrow> (int \<times> int \<times> int) \<times> stencil_bounds \<Rightarrow>
    ((int \<times> int \<times> int) \<times> stencil_bounds) c_result" where
  "put_pos xDivs yDivs i st = (case st of ((x, y, z), s) \<Rightarrow>
     bnd (wr (s_xpos s) i (word_of_int x)) (\<lambda>xs.
     bnd (wr (s_ypos s) i (word_of_int y)) (\<lambda>ys.
     bnd (wr (s_zpos s) i (word_of_int z)) (\<lambda>zs.
     Inr (next_pos xDivs yDivs (x, y, z), s\<lparr>s_xpos := xs, s_ypos := ys, s_zpos := zs\<rparr>)))))"

definition put_range :: "u32 list \<Rightarrow> int \<Rightarrow> nat \<Rightarrow> u32 list \<times> u32 list \<Rightarrow> (u32 list \<times> u32 list) c_result" where
  "put_range pos divSize i mm =
     bnd (rd pos i) (\<lambda>p.
     bnd (wr (fst mm) i (p * word_of_int divSize)) (\<lambda>mins.
     bnd (wr (snd mm) i ((p + 1) * word_of_int divSize)) (\<lambda>maxs. Inr (mins, maxs))))"

definition put_bounds :: "int \<Rightarrow> int \<Rightarrow> int \<Rightarrow> nat \<Rightarrow> stencil_bounds \<Rightarrow> stencil_bounds c_result" where
  "put_bounds xDivSize yDivSize zDivSize i s =
     bnd (put_range (s_xpos s) xDivSize i (s_xmin s, s_xmax s)) (\<lambda>(x0, x1).
     bnd (put_range (s_ypos s) yDivSize i (s_ymin s, s_ymax s)) (\<lambda>(y0, y1).
     bnd (put_range (s_zpos s) zDivSize i (s_zmin s, s_zmax s)) (\<lambda>(z0, z1).
     Inr (s\<lparr>s_xmin := x0, s_xmax := x1, s_ymin := y0, s_ymax := y1, s_zmin := z0, s_zmax := z1\<rparr>))))"

definition calculateBounds ::
  "int \<Rightarrow> int \<Rightarrow> int \<Rightarrow> int \<Rightarrow> int \<Rightarrow> int \<Rightarrow> int \<Rightarrow> stencil_bounds \<Rightarrow> stencil_bounds c_result" where
  "calculateBounds xDivs xDivSize yDivs yDivSize zDivs zDivSize numThreads s =
     bnd (for_n (nat numThreads) (put_pos xDivs yDivs) ((0, 0, 0), s)) (\<lambda>(_, s).
     for_n (nat numThreads) (put_bounds xDivSize yDivSize zDivSize) s)"

section \<open>Setup: main\<close>

record stencil_conf =
  c_nx :: u32
  c_ny :: u32
  c_nz :: u32
  c_nxblocks :: u32
  c_nyblocks :: u32
  c_nzblocks :: u32
  c_macro :: "u32 \<times> u32 \<times> u32"
  c_micro :: "u32 \<times> u32 \<times> u32"

definition MAX_SUPPORTED_THREADS :: nat where
  "MAX_SUPPORTED_THREADS = 8192"

text \<open>The divisions of one dimension as \<open>main\<close> passes them on: their number and their size.\<close>

definition stencil_setup :: "u32 \<times> u32 \<times> u32 \<Rightarrow> u32 \<times> u32 \<times> u32 \<Rightarrow> u32 \<Rightarrow> u32 \<Rightarrow> u32 \<Rightarrow> stencil_bounds \<Rightarrow>
    (stencil_conf \<times> stencil_bounds) c_result" where
  "stencil_setup n blocks blockDim1 blockDim2 threads s =
     (case (n, blocks) of ((nx, ny, nz), (bx, by, bz)) \<Rightarrow>
      bnd (macro_block nx bx) (\<lambda>mx. bnd (macro_block ny by) (\<lambda>my. bnd (macro_block nz bz) (\<lambda>mz.
      bnd (micro_blocks blockDim1 blockDim2 threads (mx, my, mz)) (\<lambda>(ux, uy, uz).
      bnd (udiv mx ux) (\<lambda>dx. bnd (udiv my uy) (\<lambda>dy. bnd (udiv mz uz) (\<lambda>dz.
      abort_if (dx * dy * dz \<noteq> threads)
        (bnd (calculateBounds (sint dx) (sint ux) (sint dy) (sint uy) (sint dz) (sint uz) (sint threads) s) (\<lambda>s.
         abort_if (of_nat MAX_SUPPORTED_THREADS < threads)
           (Inr (\<lparr>c_nx = nx, c_ny = ny, c_nz = nz, c_nxblocks = bx, c_nyblocks = by, c_nzblocks = bz,
              c_macro = (mx, my, mz), c_micro = (ux, uy, uz)\<rparr>, s))))))))))))"

section \<open>One-dimensional division: calculateBlockBounds\<close>

text \<open>The loop \<open>while (remaining > 0)\<close> that hands out what the division leaves.\<close>

fun hand_out :: "nat \<Rightarrow> nat \<Rightarrow> u32 list \<Rightarrow> u32 list c_result" where
  "hand_out 0 idx sizes = Inr sizes"
| "hand_out (Suc remaining) idx sizes =
     bnd (rd sizes idx) (\<lambda>v. bnd (wr sizes idx (v + 1)) (hand_out remaining (Suc idx)))"

definition put_block :: "u32 list \<Rightarrow> nat \<Rightarrow> u32 \<times> u32 list \<times> u32 list \<Rightarrow> (u32 \<times> u32 list \<times> u32 list) c_result" where
  "put_block sizes i st = (case st of (counter, mins, maxs) \<Rightarrow>
     bnd (wr mins i counter) (\<lambda>mins.
     bnd (rd sizes i) (\<lambda>v.
     bnd (wr maxs i (counter + v)) (\<lambda>maxs. Inr (counter + v, mins, maxs)))))"

definition calculateBlockBounds :: "int \<Rightarrow> int \<Rightarrow> u32 list \<Rightarrow> u32 list \<Rightarrow> u32 list \<Rightarrow>
    (u32 list \<times> u32 list \<times> u32 list) c_result" where
  "calculateBlockBounds sz numThreads sizes minArray maxArray =
     (if numThreads = 0 then Inl DivByZero
      else let remaining = sz - 2; minimum = remaining sdiv numThreads in
       bnd (for_n (unat (word_of_int numThreads :: u32)) (\<lambda>i xs. wr xs i (word_of_int minimum)) sizes) (\<lambda>sizes.
       bnd (hand_out (nat (remaining - minimum * numThreads)) 0 sizes) (\<lambda>sizes.
       bnd (for_n (unat (word_of_int numThreads :: u32)) (put_block sizes) (1, minArray, maxArray)) (\<lambda>(_, mins, maxs).
       Inr (sizes, mins, maxs)))))"

section \<open>What the choice of the blocks gives\<close>

lemmas block_defs = udiv_def umod_def abort_if_def

lemma small_mod: "a < b \<Longrightarrow> a mod b = a" for a b :: u32
  by (simp add: word_unat_eq_iff unat_mod_distrib word_less_nat_alt)

lemma split_rest_Inr:
  assumes "split_rest n second third = Inr (a, b)"
  shows "n \<noteq> 0 \<and> n \<le> second \<and> second mod n = 0 \<and> a = second div n \<and> b = third"
proof -
  have n: "n \<noteq> 0" "second mod n = 0" using assms by (auto simp: split_rest_def block_defs bnd_eq_Inr split: if_splits)
  have "n \<le> second"
  proof (rule ccontr)
    assume gt: "\<not> n \<le> second"
    then have "second = 0" using n(2) small_mod [of second n] by simp
    with gt n show False using assms by (simp add: split_rest_def block_defs c_monad)
  qed
  with n assms show ?thesis by (simp add: split_rest_def block_defs c_monad)
qed

text \<open>The divisions of a dimension: nothing, everything among the threads, or single cells.\<close>

lemma quotient_of_quotient:
  fixes m n :: u32
  assumes "n \<noteq> 0" "n \<le> m" "m mod n = 0"
  shows "m div n \<noteq> 0" "m div (m div n) = n" "unat (m div n) dvd unat m"
proof -
  have n: "0 < unat n" "unat n \<le> unat m" using assms(1,2) by (simp_all add: word_le_nat_alt unat_gt_0)
  have "unat m mod unat n = 0" using assms(3) by (metis unat_0 unat_mod_distrib)
  then have m: "unat m = unat n * (unat m div unat n)" by auto
  then have q: "0 < unat m div unat n" using n by (metis div_greater_zero_iff)
  then show "m div n \<noteq> 0" by (metis unat_0 unat_div_distrib less_irrefl)
  have "unat m div (unat m div unat n) = unat n" using m q by (metis nonzero_mult_div_cancel_right less_irrefl)
  then show "m div (m div n) = n" by (simp add: word_unat_eq_iff unat_div_distrib)
  show "unat (m div n) dvd unat m" using m by (metis dvd_triv_right unat_div_distrib)
qed

definition good_split :: "u32 \<Rightarrow> u32 \<times> u32 \<times> u32 \<Rightarrow> u32 \<times> u32 \<times> u32 \<Rightarrow> bool" where
  "good_split threads m u \<longleftrightarrow> (case (m, u) of ((mx, my, mz), (ux, uy, uz)) \<Rightarrow>
     unat ux dvd unat mx \<and> unat uy dvd unat my \<and> unat uz dvd unat mz \<and> (ux = mx \<or> uy = my \<or> uz = mz) \<and>
     (ux \<noteq> 0 \<and> uy \<noteq> 0 \<and> uz \<noteq> 0 \<longrightarrow>
       unat (mx div ux) * unat (my div uy) * unat (mz div uz) \<le> unat threads))"

lemma self_word_div: "m div m = 1" if "m \<noteq> 0" for m :: u32
proof -
  have "unat m \<noteq> 0" using that by (metis unat_eq_0)
  then have "unat (m div m) = unat (1 :: u32)" unfolding unat_div_distrib unat_1 by (rule div_self)
  then show ?thesis by (rule word_unat_eq_iff [THEN iffD2])
qed

lemma one_word_div: "m div 1 = m" for m :: u32
  by (simp add: word_unat_eq_iff unat_div_distrib)

text \<open>The two outcomes of a branch, for its first, second and third dimension.\<close>

lemma split_one:
  assumes "threads \<le> m" "bnd (umod m threads) (\<lambda>r. abort_if (r \<noteq> 0) (bnd (udiv m threads) f)) = Inr u"
  shows "\<exists>v. f v = Inr u \<and> v \<noteq> 0 \<and> unat v dvd unat m \<and> m div v = threads"
proof -
  have t: "threads \<noteq> 0" using assms(2) by (cases "threads = 0") (simp_all add: umod_def)
  then have r: "m mod threads = 0"
    using assms(2) by (cases "m mod threads = 0") (simp_all add: umod_def abort_if_def)
  then have "f (m div threads) = Inr u" using assms(2) t by (simp add: umod_def udiv_def abort_if_def)
  then show ?thesis using quotient_of_quotient [OF t assms(1) r] by blast
qed

lemma split_two:
  assumes "bnd (udiv threads first) (\<lambda>n. bnd (split_rest n second third) f) = Inr u"
  shows "\<exists>v. f (v, third) = Inr u \<and> v \<noteq> 0 \<and> unat v dvd unat second \<and>
    unat first * unat (second div v) \<le> unat threads"
proof -
  obtain a b where f: "split_rest (threads div first) second third = Inr (a, b)" "f (a, b) = Inr u"
    using assms by (auto simp: block_defs bnd_eq_Inr split: if_splits)
  let ?n = "threads div first"
  have n: "?n \<noteq> 0" "?n \<le> second" "second mod ?n = 0" "a = second div ?n" "b = third"
    using split_rest_Inr [OF f(1)] by auto
  note q = quotient_of_quotient [OF n(1-3)]
  have "unat first * unat ?n \<le> unat threads" by (simp add: unat_div_distrib)
  with f(2) n(4,5) q show ?thesis by (intro exI [of _ a]) simp
qed

lemma prod3_1: "unat a * unat (1 :: u32) * unat (1 :: u32) = unat a" "unat (1 :: u32) * unat a * unat (1 :: u32) = unat a"
  "unat (1 :: u32) * unat (1 :: u32) * unat a = unat a" for a :: u32
  by simp_all

lemma micro_x_first_good:
  assumes "micro_x_first b2 threads (mx, my, mz) = Inr u"
  shows "good_split threads (mx, my, mz) u"
proof (cases "threads \<le> mx")
  case True
  then show ?thesis using split_one [OF True, of "\<lambda>m. Inr (m, my, mz)" u] assms
    by (auto simp: micro_x_first_def good_split_def self_word_div)
next
  case False
  then show ?thesis
    using assms split_two [of threads mx my mz "\<lambda>(y, z). Inr (1, y, z)" u]
      split_two [of threads mx mz my "\<lambda>(z, y). Inr (1, y, z)" u]
    by (auto simp: micro_x_first_def good_split_def self_word_div one_word_div split: if_splits)
qed

lemma micro_y_first_good:
  assumes "micro_y_first b2 threads (mx, my, mz) = Inr u"
  shows "good_split threads (mx, my, mz) u"
proof (cases "threads \<le> my")
  case True
  then show ?thesis using split_one [OF True, of "\<lambda>m. Inr (mx, m, mz)" u] assms
    by (auto simp: micro_y_first_def good_split_def self_word_div)
next
  case False
  then show ?thesis
    using assms split_two [of threads my mx mz "\<lambda>(x, z). Inr (x, 1, z)" u]
      split_two [of threads my mz mx "\<lambda>(z, x). Inr (x, 1, z)" u]
    by (auto simp: micro_y_first_def good_split_def self_word_div one_word_div mult.commute split: if_splits)
qed

lemma micro_z_first_good:
  assumes "micro_z_first b2 threads (mx, my, mz) = Inr u"
  shows "good_split threads (mx, my, mz) u"
proof (cases "threads \<le> mz")
  case True
  then show ?thesis using split_one [OF True, of "\<lambda>m. Inr (mx, my, m)" u] assms
    by (auto simp: micro_z_first_def good_split_def self_word_div)
next
  case False
  then show ?thesis
    using assms split_two [of threads mz mx my "\<lambda>(x, y). Inr (x, y, 1)" u]
      split_two [of threads mz my mx "\<lambda>(y, x). Inr (x, y, 1)" u]
    by (auto simp: micro_z_first_def good_split_def self_word_div one_word_div mult.commute split: if_splits)
qed

lemma micro_blocks_good:
  "micro_blocks b1 b2 threads (mx, my, mz) = Inr u \<Longrightarrow> good_split threads (mx, my, mz) u"
  by (auto simp: micro_blocks_def intro: micro_x_first_good micro_y_first_good micro_z_first_good split: if_splits)

text \<open>
  a macro block is never divided in all three dimensions. Whenever the choice of the micro
  blocks succeeds, one dimension is left whole: the branches for a third dimension cannot be
  reached, because the test for an even division of the second dimension comes before the test
  for its size. A block of two by two by two cells is not divided among eight threads, whatever
  the order of the dimensions.
\<close>

theorem never_three_dimensions:
  "(micro_blocks b1 b2 threads (mx, my, mz) = Inr (ux, uy, uz) \<longrightarrow> ux = mx \<or> uy = my \<or> uz = mz) \<and>
   micro_blocks b1 b2 8 (2, 2, 2) = Inl Aborted"
proof
  show "micro_blocks b1 b2 threads (mx, my, mz) = Inr (ux, uy, uz) \<longrightarrow> ux = mx \<or> uy = my \<or> uz = mz"
    using micro_blocks_good by (fastforce simp: good_split_def)
  show "micro_blocks b1 b2 8 (2, 2, 2) = Inl Aborted"
    by (simp add: micro_blocks_def micro_x_first_def micro_y_first_def micro_z_first_def split_rest_def block_defs c_monad)
qed

theorem never_three_dimensions_witness:
  "micro_blocks 0 1 8 (2, 4, 6) = Inr (1, 1, 6) \<and> (1 = (2 :: u32) \<or> 1 = (4 :: u32) \<or> 6 = (6 :: u32))"
proof -
  have "micro_blocks 0 1 8 (2, 4, 6) = Inr (1, 1, 6)"
    by (simp add: micro_blocks_def micro_x_first_def split_rest_def block_defs c_monad)
  then show ?thesis using never_three_dimensions [of 0 1 8 2 4 6 1 1 6] by blast
qed

section \<open>What calculateBounds computes\<close>

text \<open>The position of a thread by division, as the comment in the source gives it.\<close>

definition pos_of :: "nat \<Rightarrow> nat \<Rightarrow> nat \<Rightarrow> nat \<times> nat \<times> nat" where
  "pos_of dx dy i = (i mod dx, i div dx mod dy, i div dx div dy)"

fun int3 :: "nat \<times> nat \<times> nat \<Rightarrow> int \<times> int \<times> int" where
  "int3 (x, y, z) = (int x, int y, int z)"

lemma next_pos_of:
  assumes "0 < dx" "0 < dy"
  shows "next_pos (int dx) (int dy) (int3 (pos_of dx dy i)) = int3 (pos_of dx dy (Suc i))"
proof (cases "Suc (i mod dx) = dx")
  case x: True
  then have "Suc i mod dx = 0" "Suc i div dx = Suc (i div dx)" by (simp_all add: mod_Suc div_Suc)
  moreover have "Suc (i div dx) mod dy = 0 \<and> Suc (i div dx) div dy = Suc (i div dx div dy)"
    if "Suc (i div dx mod dy) = dy" using that by (simp add: mod_Suc div_Suc)
  moreover have "Suc (i div dx) mod dy = Suc (i div dx mod dy) \<and> Suc (i div dx) div dy = i div dx div dy"
    if "Suc (i div dx mod dy) \<noteq> dy" using that by (simp add: mod_Suc div_Suc)
  moreover have "int dy \<le> int (i div dx mod dy) + 1 \<longleftrightarrow> Suc (i div dx mod dy) = dy"
    using mod_less_divisor [OF assms(2), of "i div dx"] by linarith
  ultimately show ?thesis using x by (auto simp: next_pos_def pos_of_def)
next
  case False
  then have "Suc i mod dx = Suc (i mod dx)" "Suc i div dx = i div dx" by (simp_all add: mod_Suc div_Suc)
  moreover have "\<not> int dx \<le> int (i mod dx) + 1"
    using False mod_less_divisor [OF assms(1), of i] by linarith
  ultimately show ?thesis by (simp add: next_pos_def pos_of_def)
qed

text \<open>All arrays of the bounds have room for \<open>n\<close> threads.\<close>

definition bounds_room :: "nat \<Rightarrow> stencil_bounds \<Rightarrow> bool" where
  "bounds_room n s \<longleftrightarrow> n \<le> length (s_xpos s) \<and> n \<le> length (s_ypos s) \<and> n \<le> length (s_zpos s) \<and>
     n \<le> length (s_xmin s) \<and> n \<le> length (s_xmax s) \<and> n \<le> length (s_ymin s) \<and> n \<le> length (s_ymax s) \<and>
     n \<le> length (s_zmin s) \<and> n \<le> length (s_zmax s)"

definition pos_at :: "nat \<Rightarrow> stencil_bounds \<Rightarrow> u32 \<times> u32 \<times> u32" where
  "pos_at i s = (s_xpos s ! i, s_ypos s ! i, s_zpos s ! i)"

fun word3 :: "nat \<times> nat \<times> nat \<Rightarrow> u32 \<times> u32 \<times> u32" where
  "word3 (x, y, z) = (of_nat x, of_nat y, of_nat z)"

lemma put_pos_all:
  assumes "0 < dx" "0 < dy" "bounds_room m s" "n \<le> m"
  shows "\<exists>s'. for_n n (put_pos (int dx) (int dy)) ((0, 0, 0), s) = Inr (int3 (pos_of dx dy n), s') \<and>
    bounds_room m s' \<and> (\<forall>i<n. pos_at i s' = word3 (pos_of dx dy i))"
  using assms(4)
proof (induction n)
  case 0
  then show ?case using assms(1,3) by (auto simp: pos_of_def)
next
  case (Suc n)
  then obtain s' where s': "for_n n (put_pos (int dx) (int dy)) ((0, 0, 0), s) = Inr (int3 (pos_of dx dy n), s')"
    "bounds_room m s'" "\<forall>i<n. pos_at i s' = word3 (pos_of dx dy i)"
    by auto
  obtain x y z where p: "pos_of dx dy n = (x, y, z)" by (cases "pos_of dx dy n")
  let ?s = "s'\<lparr>s_xpos := (s_xpos s')[n := of_nat x], s_ypos := (s_ypos s')[n := of_nat y], s_zpos := (s_zpos s')[n := of_nat z]\<rparr>"
  have len: "n < length (s_xpos s')" "n < length (s_ypos s')" "n < length (s_zpos s')"
    using s'(2) Suc.prems by (auto simp: bounds_room_def)
  have "put_pos (int dx) (int dy) n (int3 (pos_of dx dy n), s') = Inr (int3 (pos_of dx dy (Suc n)), ?s)"
    using len next_pos_of [OF assms(1,2), of n] by (simp add: put_pos_def p c_monad)
  moreover have "bounds_room m ?s" using s'(2) by (simp add: bounds_room_def)
  moreover have "pos_at i ?s = word3 (pos_of dx dy i)" if "i < Suc n" for i
    using s'(3) that len by (cases "i = n") (auto simp: pos_at_def p)
  ultimately show ?case using s'(1) by (auto simp: c_monad)
qed

definition box_at :: "nat \<Rightarrow> stencil_bounds \<Rightarrow> (u32 \<times> u32) \<times> (u32 \<times> u32) \<times> (u32 \<times> u32)" where
  "box_at i s = ((s_xmin s ! i, s_xmax s ! i), (s_ymin s ! i, s_ymax s ! i), (s_zmin s ! i, s_zmax s ! i))"

definition range_of :: "u32 \<Rightarrow> int \<Rightarrow> u32 \<times> u32" where
  "range_of p w = (p * word_of_int w, (p + 1) * word_of_int w)"

lemma put_range_ok:
  "i < length pos \<Longrightarrow> i < length mins \<Longrightarrow> i < length maxs \<Longrightarrow>
   put_range pos w i (mins, maxs) = Inr (mins[i := fst (range_of (pos ! i) w)], maxs[i := snd (range_of (pos ! i) w)])"
  by (simp add: put_range_def range_of_def c_monad)

lemma put_bounds_all:
  assumes "bounds_room m s" "n \<le> m"
  shows "\<exists>s'. for_n n (put_bounds wx wy wz) s = Inr s' \<and> bounds_room m s' \<and>
    s_xpos s' = s_xpos s \<and> s_ypos s' = s_ypos s \<and> s_zpos s' = s_zpos s \<and>
    (\<forall>i<n. box_at i s' = (range_of (s_xpos s ! i) wx, range_of (s_ypos s ! i) wy, range_of (s_zpos s ! i) wz))"
  using assms(2)
proof (induction n)
  case 0
  then show ?case using assms(1) by simp
next
  case (Suc n)
  then obtain t where t: "for_n n (put_bounds wx wy wz) s = Inr t" "bounds_room m t"
    "s_xpos t = s_xpos s" "s_ypos t = s_ypos s" "s_zpos t = s_zpos s"
    "\<forall>i<n. box_at i t = (range_of (s_xpos s ! i) wx, range_of (s_ypos s ! i) wy, range_of (s_zpos s ! i) wz)"
    by auto
  have len: "n < length (s_xpos t)" "n < length (s_ypos t)" "n < length (s_zpos t)" "n < length (s_xmin t)"
    "n < length (s_xmax t)" "n < length (s_ymin t)" "n < length (s_ymax t)" "n < length (s_zmin t)" "n < length (s_zmax t)"
    using t(2) Suc.prems by (auto simp: bounds_room_def)
  obtain u where u: "put_bounds wx wy wz n t = Inr u" "bounds_room m u"
    "s_xpos u = s_xpos s" "s_ypos u = s_ypos s" "s_zpos u = s_zpos s"
    "box_at n u = (range_of (s_xpos s ! n) wx, range_of (s_ypos s ! n) wy, range_of (s_zpos s ! n) wz)"
    "\<forall>i. i \<noteq> n \<longrightarrow> box_at i u = box_at i t"
    using len t(2-5) by (simp add: put_bounds_def put_range_ok c_monad bounds_room_def box_at_def)
  have "box_at i u = (range_of (s_xpos s ! i) wx, range_of (s_ypos s ! i) wy, range_of (s_zpos s ! i) wz)" if "i < Suc n" for i
    using t(6) u(6,7) that by (cases "i = n") auto
  then show ?case using t(1) u by (simp add: c_monad)
qed

lemma calculateBounds_ok:
  assumes "0 < dx" "0 < dy" "bounds_room n s"
  shows "\<exists>s'. calculateBounds (int dx) wx (int dy) wy dz wz (int n) s = Inr s' \<and>
    (\<forall>i<n. case pos_of dx dy i of (x, y, z) \<Rightarrow>
       box_at i s' = (range_of (of_nat x) wx, range_of (of_nat y) wy, range_of (of_nat z) wz))"
proof -
  obtain t where t: "for_n n (put_pos (int dx) (int dy)) ((0, 0, 0), s) = Inr (int3 (pos_of dx dy n), t)"
    "bounds_room n t" "\<forall>i<n. pos_at i t = word3 (pos_of dx dy i)"
    using put_pos_all [OF assms, of n] by auto
  obtain u where u: "for_n n (put_bounds wx wy wz) t = Inr u"
    "\<forall>i<n. box_at i u = (range_of (s_xpos t ! i) wx, range_of (s_ypos t ! i) wy, range_of (s_zpos t ! i) wz)"
    using put_bounds_all [OF t(2), of n wx wy wz] by auto
  have "case pos_of dx dy i of (x, y, z) \<Rightarrow>
       box_at i u = (range_of (of_nat x) wx, range_of (of_nat y) wy, range_of (of_nat z) wz)" if "i < n" for i
    using t(3) u(2) that by (auto simp: pos_at_def split: prod.splits)
  then show ?thesis using t(1) u(1) by (simp add: calculateBounds_def c_monad)
qed

section \<open>The threads tile a macro block\<close>

lemma pos_of_inverse: "pos_of dx dy i = (x, y, z) \<Longrightarrow> i = x + dx * (y + dy * z)"
  by (auto simp: pos_of_def)

lemma pos_of_position:
  assumes "x < dx" "y < dy"
  shows "pos_of dx dy (x + dx * (y + dy * z)) = (x, y, z)"
proof -
  have "(x + dx * (y + dy * z)) div dx = y + dy * z" "(x + dx * (y + dy * z)) mod dx = x"
    using assms(1) by simp_all
  then show ?thesis using assms(2) by (simp add: pos_of_def)
qed

lemma position_less:
  fixes x y z :: nat
  assumes "x < dx" "y < dy" "z < dz"
  shows "x + dx * (y + dy * z) < dx * dy * dz"
proof -
  have "y + dy * z < dy * Suc z" using assms(2) by simp
  also have "\<dots> \<le> dy * dz" using assms(3) by (intro mult_le_mono2) simp
  finally have "Suc (y + dy * z) \<le> dy * dz" by simp
  then have "dx * Suc (y + dy * z) \<le> dx * (dy * dz)" by (rule mult_le_mono2)
  then show ?thesis using assms(1) by (simp add: mult.assoc)
qed

lemma pos_of_unique:
  assumes "x < dx" "y < dy" "z < dz"
  shows "\<exists>!i. i < dx * dy * dz \<and> pos_of dx dy i = (x, y, z)"
  using position_less [OF assms] pos_of_position [OF assms(1,2)] pos_of_inverse by metis

lemma in_range_iff: "0 < w \<Longrightarrow> p * w \<le> x \<and> x < (p + 1) * w \<longleftrightarrow> p = x div w" for p w x :: nat
  by (metis Suc_eq_plus1 div_nat_eqI dividend_less_div_times div_times_less_eq_dividend mult.commute mult_Suc)

definition in_range :: "nat \<Rightarrow> u32 \<times> u32 \<Rightarrow> bool" where
  "in_range x r \<longleftrightarrow> unat (fst r) \<le> x \<and> x < unat (snd r)"

text \<open>The cells of a macro block that a thread computes, counted from the corner of the block.\<close>

definition in_box :: "nat \<times> nat \<times> nat \<Rightarrow> nat \<Rightarrow> stencil_bounds \<Rightarrow> bool" where
  "in_box cell i s \<longleftrightarrow> (case (cell, box_at i s) of ((x, y, z), (rx, ry, rz)) \<Rightarrow>
     in_range x rx \<and> in_range y ry \<and> in_range z rz)"

lemma unat_range_of:
  fixes u m :: u32
  assumes "unat u dvd unat m" "u \<noteq> 0" "p < unat (m div u)"
  shows "unat (of_nat p * u) = p * unat u" "unat ((of_nat p + 1) * u) = (p + 1) * unat u"
proof -
  have m: "unat m = unat (m div u) * unat u" using assms(1) by (simp add: unat_div_distrib)
  have "(p + 1) * unat u \<le> unat m" using assms(3) unfolding m by (intro mult_le_mono1) simp
  then have b: "(p + 1) * unat u < 2 ^ 32" using unat_u32_less [of m] by simp
  have "p * unat u \<le> (p + 1) * unat u" by simp
  then have "p * unat u < 2 ^ 32" using b by (rule le_less_trans)
  moreover have "of_nat p * u = of_nat (p * unat u)" "(of_nat p + 1) * u = of_nat ((p + 1) * unat u)"
    by (simp_all add: algebra_simps)
  ultimately show "unat (of_nat p * u) = p * unat u" "unat ((of_nat p + 1) * u) = (p + 1) * unat u"
    using b by (simp_all only: unat_of_nat_u32)
qed

lemma in_range_of:
  fixes u m :: u32
  assumes "unat u dvd unat m" "u \<noteq> 0" "p < unat (m div u)"
  shows "in_range x (range_of (of_nat p) (sint u)) \<longleftrightarrow> p = x div unat u"
proof -
  have "0 < unat u" using assms(2) by (simp add: unat_gt_0)
  moreover have "range_of (of_nat p) (sint u) = (of_nat p * u, (of_nat p + 1) * u)" by (simp add: range_of_def)
  ultimately show ?thesis using in_range_iff unat_range_of [OF assms] by (simp add: in_range_def)
qed

lemma less_div_word:
  fixes u m :: u32
  assumes "unat u dvd unat m" "x < unat m"
  shows "x div unat u < unat (m div u)"
  using assms by (simp add: unat_div_distrib div_less_iff_less_mult less_mult_imp_div_less)

lemma macro_block_Inr: "macro_block n b = Inr m \<Longrightarrow> b \<noteq> 0 \<and> unat b * unat m = unat (n - 2)"
proof -
  assume m: "macro_block n b = Inr m"
  have b: "b \<noteq> 0" using m by (cases "b = 0") (simp_all add: macro_block_def umod_def)
  have r: "(n - 2) mod b = 0" using m b by (cases "(n - 2) mod b = 0") (simp_all add: macro_block_def umod_def abort_if_def)
  have "m = (n - 2) div b" using m b r by (simp add: macro_block_def umod_def udiv_def abort_if_def)
  then have "unat m = unat (n - 2) div unat b" by (simp only: unat_div_distrib)
  moreover have "unat (n - 2) mod unat b = 0" using r by (metis unat_0 unat_mod_distrib)
  ultimately show ?thesis using b by auto
qed

text \<open>A successful setup: the sizes and the counts of the divisions in every dimension.\<close>

definition setup_ok :: "u32 \<Rightarrow> stencil_conf \<Rightarrow> bool" where
  "setup_ok threads cf \<longleftrightarrow> (case (c_macro cf, c_micro cf) of ((mx, my, mz), (ux, uy, uz)) \<Rightarrow>
     unat ux dvd unat mx \<and> unat uy dvd unat my \<and> unat uz dvd unat mz \<and> ux \<noteq> 0 \<and> uy \<noteq> 0 \<and> uz \<noteq> 0 \<and>
     unat (mx div ux) * unat (my div uy) * unat (mz div uz) = unat threads \<and>
     unat threads \<le> MAX_SUPPORTED_THREADS \<and>
     unat (c_nxblocks cf) * unat mx = unat (c_nx cf - 2) \<and> unat (c_nyblocks cf) * unat my = unat (c_ny cf - 2) \<and>
     unat (c_nzblocks cf) * unat mz = unat (c_nz cf - 2))"

lemma stencil_setup_steps:
  assumes "stencil_setup (nx, ny, nz) (bx, by, bz) b1 b2 threads s = Inr (cf, s')"
  shows "\<exists>mx my mz ux uy uz. macro_block nx bx = Inr mx \<and> macro_block ny by = Inr my \<and> macro_block nz bz = Inr mz \<and>
    micro_blocks b1 b2 threads (mx, my, mz) = Inr (ux, uy, uz) \<and> ux \<noteq> 0 \<and> uy \<noteq> 0 \<and> uz \<noteq> 0 \<and>
    mx div ux * (my div uy) * (mz div uz) = threads \<and>
    calculateBounds (sint (mx div ux)) (sint ux) (sint (my div uy)) (sint uy) (sint (mz div uz)) (sint uz) (sint threads) s = Inr s' \<and>
    threads \<le> of_nat MAX_SUPPORTED_THREADS \<and>
    cf = \<lparr>c_nx = nx, c_ny = ny, c_nz = nz, c_nxblocks = bx, c_nyblocks = by, c_nzblocks = bz,
      c_macro = (mx, my, mz), c_micro = (ux, uy, uz)\<rparr>"
  using assms
  by (auto simp: stencil_setup_def bnd_eq_Inr udiv_def abort_if_def not_less split: if_splits)

lemma factors_of_positive:
  fixes a b c n :: nat
  assumes "a * b * c = n" "0 < n"
  shows "0 < a" "0 < b" "0 < c" "a \<le> n" "b \<le> n"
proof -
  show "0 < a" "0 < b" "0 < c" using assms by auto
  have "a dvd n" "b dvd n" using assms(1) by auto
  then show "a \<le> n" "b \<le> n" using assms(2) by (simp_all add: dvd_imp_le)
qed

lemma stencil_setup_ok:
  assumes "stencil_setup (nx, ny, nz) (bx, by, bz) b1 b2 threads s = Inr (cf, s')"
    and "bounds_room MAX_SUPPORTED_THREADS s"
  shows "setup_ok threads cf \<and> c_nx cf = nx \<and> c_ny cf = ny \<and> c_nz cf = nz \<and>
    (case (c_macro cf, c_micro cf) of ((mx, my, mz), (ux, uy, uz)) \<Rightarrow>
     \<forall>i<unat threads. case pos_of (unat (mx div ux)) (unat (my div uy)) i of (x, y, z) \<Rightarrow>
       box_at i s' = (range_of (of_nat x) (sint ux), range_of (of_nat y) (sint uy), range_of (of_nat z) (sint uz)))"
proof -
  obtain mx my mz ux uy uz where st: "macro_block nx bx = Inr mx" "macro_block ny by = Inr my" "macro_block nz bz = Inr mz"
    "micro_blocks b1 b2 threads (mx, my, mz) = Inr (ux, uy, uz)" "ux \<noteq> 0" "uy \<noteq> 0" "uz \<noteq> 0"
    "mx div ux * (my div uy) * (mz div uz) = threads"
    "calculateBounds (sint (mx div ux)) (sint ux) (sint (my div uy)) (sint uy) (sint (mz div uz)) (sint uz) (sint threads) s = Inr s'"
    "threads \<le> of_nat MAX_SUPPORTED_THREADS"
    "cf = \<lparr>c_nx = nx, c_ny = ny, c_nz = nz, c_nxblocks = bx, c_nyblocks = by, c_nzblocks = bz,
      c_macro = (mx, my, mz), c_micro = (ux, uy, uz)\<rparr>"
    using stencil_setup_steps [OF assms(1)] by blast
  let ?dx = "unat (mx div ux)" let ?dy = "unat (my div uy)" let ?dz = "unat (mz div uz)"
  have good: "good_split threads (mx, my, mz) (ux, uy, uz)" using micro_blocks_good [OF st(4)] .
  then have le: "?dx * ?dy * ?dz \<le> unat threads" using st(5-7) by (simp add: good_split_def)
  have "unat threads = unat (of_nat (?dx * ?dy * ?dz) :: u32)" unfolding st(8) [symmetric] by simp
  also have "\<dots> = ?dx * ?dy * ?dz"
    using le unat_u32_less [of threads] by (intro unat_of_nat_u32) simp
  finally have prod: "?dx * ?dy * ?dz = unat threads" by simp
  have t: "unat threads \<le> MAX_SUPPORTED_THREADS"
    using st(10) by (simp add: word_le_nat_alt MAX_SUPPORTED_THREADS_def)
  have "threads \<noteq> 0"
  proof
    assume "threads = 0"
    then show False using st(4)
      by (simp add: micro_blocks_def micro_x_first_def micro_y_first_def micro_z_first_def umod_def split: if_splits)
  qed
  then have "0 < unat threads" by (simp add: unat_gt_0)
  note pos = factors_of_positive [OF prod this]
  have room: "bounds_room (unat threads) s" using assms(2) t by (auto simp: bounds_room_def)
  have "sint (mx div ux) = int ?dx" "sint (my div uy) = int ?dy" "sint threads = int (unat threads)"
    using pos(4,5) t by (simp_all add: sint_small MAX_SUPPORTED_THREADS_def)
  then have "\<forall>i<unat threads. case pos_of ?dx ?dy i of (x, y, z) \<Rightarrow>
       box_at i s' = (range_of (of_nat x) (sint ux), range_of (of_nat y) (sint uy), range_of (of_nat z) (sint uz))"
    using calculateBounds_ok [OF pos(1,2) room, of "sint ux" "sint uy" "sint (mz div uz)" "sint uz"] st(9) by simp
  moreover have "setup_ok threads cf"
    using good prod t st(5-7) macro_block_Inr [OF st(1)] macro_block_Inr [OF st(2)] macro_block_Inr [OF st(3)]
    by (simp add: setup_ok_def good_split_def st(11))
  ultimately show ?thesis by (simp add: st(11))
qed

lemma boxes_tile:
  assumes "setup_ok threads cf" "c_macro cf = (mx, my, mz)" "c_micro cf = (ux, uy, uz)"
    and "\<forall>i<unat threads. case pos_of (unat (mx div ux)) (unat (my div uy)) i of (x, y, z) \<Rightarrow>
       box_at i s = (range_of (of_nat x) (sint ux), range_of (of_nat y) (sint uy), range_of (of_nat z) (sint uz))"
    and "x < unat mx" "y < unat my" "z < unat mz"
  shows "\<exists>!i. i < unat threads \<and> in_box (x, y, z) i s"
proof -
  let ?dx = "unat (mx div ux)" let ?dy = "unat (my div uy)" let ?dz = "unat (mz div uz)"
  have d: "unat ux dvd unat mx" "unat uy dvd unat my" "unat uz dvd unat mz" "ux \<noteq> 0" "uy \<noteq> 0" "uz \<noteq> 0"
    "?dx * ?dy * ?dz = unat threads"
    using assms(1-3) by (simp_all add: setup_ok_def)
  let ?p = "(x div unat ux, y div unat uy, z div unat uz)"
  have lt: "x div unat ux < ?dx" "y div unat uy < ?dy" "z div unat uz < ?dz"
    using less_div_word d(1-3) assms(5-7) by blast+
  have "in_box (x, y, z) i s \<longleftrightarrow> pos_of ?dx ?dy i = ?p" if "i < unat threads" for i
  proof -
    obtain p q r where p: "pos_of ?dx ?dy i = (p, q, r)" by (cases "pos_of ?dx ?dy i")
    have "i < ?dx * ?dy * ?dz" using that d(7) by simp
    then have "0 < ?dx" "0 < ?dy" "r < ?dz" using p
      by (auto simp: pos_of_def intro: ccontr) (metis div_mult2_eq less_mult_imp_div_less mult.commute)
    then have pqr: "p < ?dx" "q < ?dy" "r < ?dz" using p by (auto simp: pos_of_def)
    have "box_at i s = (range_of (of_nat p) (sint ux), range_of (of_nat q) (sint uy), range_of (of_nat r) (sint uz))"
      using assms(4) that p by (auto split: prod.splits)
    then show ?thesis
      using in_range_of [OF d(1,4) pqr(1)] in_range_of [OF d(2,5) pqr(2)] in_range_of [OF d(3,6) pqr(3)]
      by (simp add: in_box_def p)
  qed
  then show ?thesis using pos_of_unique [OF lt] d(7) by (metis (no_types, lifting))
qed

text \<open>
  C20: the threads of the stencil tile a macro block. When the setup of \<open>main\<close> does not abort,
  every cell of a macro block lies in the bounds of exactly one thread, and the macro blocks
  divide the inner part of the grid evenly.
\<close>

theorem stencil_setup_tiles:
  assumes "stencil_setup (nx, ny, nz) (bx, by, bz) b1 b2 threads s = Inr (cf, s')"
    and "bounds_room MAX_SUPPORTED_THREADS s" and "c_macro cf = (mx, my, mz)"
    and "x < unat mx" and "y < unat my" and "z < unat mz"
  shows "(\<exists>!i. i < unat threads \<and> in_box (x, y, z) i s') \<and>
    unat bx * unat mx = unat (nx - 2) \<and> unat by * unat my = unat (ny - 2) \<and> unat bz * unat mz = unat (nz - 2)"
proof -
  obtain ux uy uz where u: "c_micro cf = (ux, uy, uz)" by (cases "c_micro cf")
  have ok: "setup_ok threads cf" "\<forall>i<unat threads. case pos_of (unat (mx div ux)) (unat (my div uy)) i of (x, y, z) \<Rightarrow>
       box_at i s' = (range_of (of_nat x) (sint ux), range_of (of_nat y) (sint uy), range_of (of_nat z) (sint uz))"
    using stencil_setup_ok [OF assms(1,2)] by (simp_all add: assms(3) u)
  have "c_nxblocks cf = bx" "c_nyblocks cf = by" "c_nzblocks cf = bz" "c_nx cf = nx" "c_ny cf = ny" "c_nz cf = nz"
    using stencil_setup_steps [OF assms(1)] by auto
  then show ?thesis using boxes_tile [OF ok(1) assms(3) u ok(2) assms(4-6)] ok(1) by (simp add: setup_ok_def assms(3) u)
qed

definition zero_bounds :: stencil_bounds where
  "zero_bounds = (let z = replicate MAX_SUPPORTED_THREADS 0 in
     \<lparr>s_xpos = z, s_ypos = z, s_zpos = z, s_xmin = z, s_xmax = z, s_ymin = z, s_ymax = z, s_zmin = z, s_zmax = z\<rparr>)"

lemma zero_bounds_room: "n \<le> MAX_SUPPORTED_THREADS \<Longrightarrow> bounds_room n zero_bounds"
  by (simp add: bounds_room_def zero_bounds_def Let_def)

lemma small_setup:
  "\<exists>cf s'. stencil_setup (6, 6, 6) (2, 2, 1) 0 1 2 zero_bounds = Inr (cf, s') \<and> c_macro cf = (2, 2, 4) \<and>
     c_micro cf = (1, 2, 4)"
proof -
  have "bounds_room 2 zero_bounds" by (rule zero_bounds_room) (simp add: MAX_SUPPORTED_THREADS_def)
  then obtain s' where "calculateBounds 2 1 1 2 1 4 2 zero_bounds = Inr s'"
    using calculateBounds_ok [of 2 1 2 zero_bounds 1 2 1 4] by auto
  then show ?thesis
    by (simp add: stencil_setup_def macro_block_def micro_blocks_def micro_x_first_def block_defs c_monad
        MAX_SUPPORTED_THREADS_def)
qed

theorem stencil_setup_tiles_witness:
  "\<exists>cf s'. stencil_setup (6, 6, 6) (2, 2, 1) 0 1 2 zero_bounds = Inr (cf, s') \<and>
     (\<exists>!i. i < 2 \<and> in_box (1, 0, 3) i s')"
proof -
  obtain cf s' where cf: "stencil_setup (6, 6, 6) (2, 2, 1) 0 1 2 zero_bounds = Inr (cf, s')" "c_macro cf = (2, 2, 4)"
    using small_setup by blast
  have "bounds_room MAX_SUPPORTED_THREADS zero_bounds" by (rule zero_bounds_room) simp
  then have "\<exists>!i. i < unat (2 :: u32) \<and> in_box (1, 0, 3) i s'"
    using stencil_setup_tiles [OF cf(1) _ cf(2), of 1 0 3] by simp
  then show ?thesis using cf(1) by auto
qed

section \<open>The one-dimensional division\<close>

lemma hand_out_ok:
  "idx + k \<le> length xs \<Longrightarrow> \<exists>ys. hand_out k idx xs = Inr ys \<and> length ys = length xs \<and>
     (\<forall>i<length xs. ys ! i = xs ! i + (if idx \<le> i \<and> i < idx + k then 1 else 0))"
proof (induction k arbitrary: idx xs)
  case (Suc k)
  let ?xs = "xs[idx := xs ! idx + 1]"
  obtain ys where ys: "hand_out k (Suc idx) ?xs = Inr ys" "length ys = length xs"
    "\<forall>i<length xs. ys ! i = ?xs ! i + (if Suc idx \<le> i \<and> i < Suc idx + k then 1 else 0)"
    using Suc.IH [of "Suc idx" ?xs] Suc.prems by auto
  have "hand_out (Suc k) idx xs = Inr ys" using ys(1) Suc.prems by (simp add: c_monad)
  moreover have "ys ! i = xs ! i + (if idx \<le> i \<and> i < idx + Suc k then 1 else 0)" if "i < length xs" for i
    using ys(3) that by (cases "i = idx") (auto simp: nth_list_update)
  ultimately show ?case using ys(2) by blast
qed simp

text \<open>The start of block \<open>i\<close>: the first \<open>r\<close> blocks are one longer than \<open>q\<close>.\<close>

definition block_start :: "nat \<Rightarrow> nat \<Rightarrow> nat \<Rightarrow> nat" where
  "block_start q r i = 1 + i * q + min i r"

lemma block_start_Suc: "block_start q r (Suc i) = block_start q r i + q + (if i < r then 1 else 0)"
  by (auto simp: block_start_def min_def)

lemma put_block_all:
  assumes "n \<le> length sizes" "n \<le> length mins" "n \<le> length maxs"
    and "\<forall>i<n. sizes ! i = of_nat q + (if i < r then 1 else 0)"
  shows "\<exists>mins' maxs'. for_n n (put_block sizes) (1, mins, maxs) = Inr (of_nat (block_start q r n), mins', maxs') \<and>
    length mins' = length mins \<and> length maxs' = length maxs \<and>
    (\<forall>i<n. mins' ! i = of_nat (block_start q r i) \<and> maxs' ! i = of_nat (block_start q r (Suc i)))"
  using assms
proof (induction n)
  case 0
  then show ?case by (simp add: block_start_def)
next
  case (Suc n)
  then obtain a b where ab: "for_n n (put_block sizes) (1, mins, maxs) = Inr (of_nat (block_start q r n), a, b)"
    "length a = length mins" "length b = length maxs"
    "\<forall>i<n. a ! i = of_nat (block_start q r i) \<and> b ! i = of_nat (block_start q r (Suc i))"
    by auto
  have "of_nat (block_start q r n) + sizes ! n = (of_nat (block_start q r (Suc n)) :: u32)"
    using Suc.prems(4) by (simp add: block_start_Suc)
  then have "put_block sizes n (of_nat (block_start q r n), a, b) =
      Inr (of_nat (block_start q r (Suc n)), a[n := of_nat (block_start q r n)], b[n := of_nat (block_start q r (Suc n))])"
    using Suc.prems(1-3) ab(2,3) by (simp add: put_block_def c_monad)
  then show ?case using ab Suc.prems(2,3) by (auto simp: c_monad nth_list_update less_Suc_eq)
qed

lemma calculateBlockBounds_ok:
  assumes "0 < n" "n < 2 ^ 32" "n \<le> length sizes" "n \<le> length mins" "n \<le> length maxs" "2 \<le> sz"
  defines "q \<equiv> (sz - 2) div n" and "r \<equiv> (sz - 2) mod n"
  shows "\<exists>sizes' mins' maxs'. calculateBlockBounds (int sz) (int n) sizes mins maxs = Inr (sizes', mins', maxs') \<and>
    (\<forall>i<n. mins' ! i = of_nat (block_start q r i) \<and> maxs' ! i = of_nat (block_start q r (Suc i)))"
proof -
  have sd: "(int sz - 2) sdiv int n = int q"
  proof -
    have "int sz - 2 = int (sz - 2)" using assms(6) by (simp add: of_nat_diff)
    moreover have "int (sz - 2) sdiv int n = int q"
      using assms(1) by (cases "sz - 2 = 0") (simp_all add: signed_divide_int_def q_def zdiv_int)
    ultimately show ?thesis by (simp only:)
  qed
  have nn: "unat (of_nat n :: u32) = n" using unat_of_nat_u32 [OF assms(2)] .
  have rem: "nat (int sz - 2 - int q * int n) = r"
  proof -
    have "int (sz - 2) = int q * int n + int r" unfolding q_def r_def by (metis div_mult_mod_eq of_nat_add of_nat_mult)
    then show ?thesis using assms(6) by (simp add: of_nat_diff)
  qed
  let ?s0 = "replicate n (of_nat q) @ drop n sizes"
  have fill: "for_n n (\<lambda>i xs. wr xs i (word_of_int (int q))) sizes = Inr ?s0" using for_n_fill [OF assms(3)] by simp
  have "r < n" using assms(1) by (simp add: r_def)
  then obtain s1 where s1: "hand_out r 0 ?s0 = Inr s1" "length s1 = length ?s0"
    "\<forall>i<length ?s0. s1 ! i = ?s0 ! i + (if i < r then 1 else 0)"
    using hand_out_ok [of 0 r ?s0] assms(3) by auto
  have "\<forall>i<n. s1 ! i = of_nat q + (if i < r then 1 else 0)" using s1(3) assms(3) by (simp add: nth_append)
  moreover have "n \<le> length s1" using s1(2) assms(3) by simp
  ultimately obtain a b where "for_n n (put_block s1) (1, mins, maxs) = Inr (of_nat (block_start q r n), a, b)"
    "\<forall>i<n. a ! i = of_nat (block_start q r i) \<and> b ! i = of_nat (block_start q r (Suc i))"
    using put_block_all [of n s1 mins maxs q r] assms(4,5) by blast
  then show ?thesis using assms(1) fill s1(1) by (simp add: calculateBlockBounds_def Let_def sd nn rem c_monad)
qed

text \<open>
  \<open>calculateBlockBounds\<close> cuts the inner part of a dimension into consecutive blocks of
  nearly equal size: the first starts at 1, each starts where its predecessor ends, the last
  ends at the size less one, and the sizes differ by at most one.
\<close>

theorem block_bounds_consecutive:
  assumes "0 < n" and "n \<le> length sizes" and "n \<le> length mins" and "n \<le> length maxs"
    and "n < 2 ^ 32" and "2 \<le> sz" and "sz < 2 ^ 31"
  shows "\<exists>sizes' mins' maxs'. calculateBlockBounds (int sz) (int n) sizes mins maxs = Inr (sizes', mins', maxs') \<and>
    unat (mins' ! 0) = 1 \<and> unat (maxs' ! (n - 1)) = sz - 1 \<and>
    (\<forall>i. Suc i < n \<longrightarrow> mins' ! Suc i = maxs' ! i) \<and>
    (\<forall>i<n. unat (maxs' ! i) - unat (mins' ! i) \<in> {(sz - 2) div n, (sz - 2) div n + 1})"
proof -
  let ?q = "(sz - 2) div n" let ?r = "(sz - 2) mod n" let ?s = "block_start ?q ?r"
  obtain s' a b where ab: "calculateBlockBounds (int sz) (int n) sizes mins maxs = Inr (s', a, b)"
    "\<forall>i<n. a ! i = of_nat (?s i) \<and> b ! i = of_nat (?s (Suc i))"
    using calculateBlockBounds_ok [OF assms(1,5,2-4,6)] by blast
  have r: "?r < n" using assms(1) by simp
  have "n * ?q + ?r = sz - 2" by simp
  then have last: "?s n = sz - 1" using r assms(6) by (simp add: block_start_def mult.commute)
  have mono: "?s i \<le> ?s n" if "i \<le> n" for i
    using that by (simp add: block_start_def add_mono mult_le_mono1 min.coboundedI1)
  have un: "unat (of_nat (?s i) :: u32) = ?s i" if "i \<le> n" for i
    using mono [OF that] last assms(7) by (intro unat_of_nat_u32) simp
  have "?s (Suc i) - ?s i \<in> {?q, ?q + 1}" for i by (simp add: block_start_Suc)
  then have sizes: "unat (b ! i) - unat (a ! i) \<in> {?q, ?q + 1}" if "i < n" for i using ab(2) un that by simp
  have first: "unat (a ! 0) = 1" using ab(2) un [of 0] assms(1) by (simp add: block_start_def)
  have final: "unat (b ! (n - 1)) = sz - 1" using ab(2) un [of n] last assms(1) by simp
  show ?thesis using ab sizes first final by auto
qed

theorem block_bounds_consecutive_witness:
  "\<exists>sizes' mins' maxs'. calculateBlockBounds (int 12) (int 4) [0, 0, 0, 0] [0, 0, 0, 0] [0, 0, 0, 0] = Inr (sizes', mins', maxs') \<and>
     unat (mins' ! 0) = 1 \<and> unat (maxs' ! 3) = 11"
  using block_bounds_consecutive [of 4 "[0, 0, 0, 0]" "[0, 0, 0, 0]" "[0, 0, 0, 0]" 12] by auto

end
