(* ===== verification/Stencil_Sweep.thy ===== *)
theory Stencil_Sweep
  imports Stencil_Blocks "HOL-Library.Multiset"
begin

text \<open>
  The computation of the stencil benchmark: one time step over a box (\<open>stencil_1ts\<close>), the cache
  maintenance around it (stencil\_blocked.c), what a thread does between two barriers and the
  sequence of the time steps (\<open>main\<close> of stencil.c). The arithmetic of \<open>float\<close> is an argument:
  the theorems hold for every meaning of its four operations. The values in memory are those of
  a coherent memory; that the maintenance covers the lines a thread stores to is a theorem.
\<close>

section \<open>One time step over a box: stencil\_blocked.c\<close>

record 'f float_ops =
  f_add :: "'f \<Rightarrow> 'f \<Rightarrow> 'f"
  f_sub :: "'f \<Rightarrow> 'f \<Rightarrow> 'f"
  f_mul :: "'f \<Rightarrow> 'f \<Rightarrow> 'f"
  f_div :: "'f \<Rightarrow> 'f \<Rightarrow> 'f"
  f_six :: 'f

type_synonym cell = "int \<times> int \<times> int"

definition Index3D :: "u32 \<Rightarrow> u32 \<Rightarrow> int \<Rightarrow> int \<Rightarrow> int \<Rightarrow> u32" where
  "Index3D nx ny i j k = word_of_int i + nx * (word_of_int j + ny * word_of_int k)"

definition cell_value :: "'f float_ops \<Rightarrow> u32 \<Rightarrow> u32 \<Rightarrow> 'f list \<Rightarrow> cell \<Rightarrow> 'f c_result" where
  "cell_value fo nx ny cur c = (case c of (i, j, k) \<Rightarrow>
     let get = (\<lambda>i j k. rd cur (unat (Index3D nx ny i j k))) in
     bnd (rd cur 0) (\<lambda>fac.
     bnd (get i j (k + 1)) (\<lambda>v1. bnd (get i j (k - 1)) (\<lambda>v2.
     bnd (get i (j + 1) k) (\<lambda>v3. bnd (get i (j - 1) k) (\<lambda>v4.
     bnd (get (i + 1) j k) (\<lambda>v5. bnd (get (i - 1) j k) (\<lambda>v6.
     bnd (get i j k) (\<lambda>v.
     Inr (f_sub fo (f_add fo (f_add fo (f_add fo (f_add fo (f_add fo v1 v2) v3) v4) v5) v6)
            (f_div fo (f_mul fo (f_six fo) v) (f_mul fo fac fac))))))))))))"

definition stencil_cell :: "'f float_ops \<Rightarrow> u32 \<Rightarrow> u32 \<Rightarrow> 'f list \<Rightarrow> cell \<Rightarrow> 'f list \<Rightarrow> 'f list c_result" where
  "stencil_cell fo nx ny cur c nxt =
     bnd (cell_value fo nx ny cur c) (\<lambda>v.
       case c of (i, j, k) \<Rightarrow> wr nxt (unat (Index3D nx ny i j k)) v)"

record box =
  b_xlow :: int
  b_xhigh :: int
  b_ylow :: int
  b_yhigh :: int
  b_zlow :: int
  b_zhigh :: int

definition stencil_1ts :: "'f float_ops \<Rightarrow> u32 \<Rightarrow> u32 \<Rightarrow> 'f list \<Rightarrow> box \<Rightarrow> 'f list \<Rightarrow> 'f list c_result" where
  "stencil_1ts fo nx ny cur b nxt =
     bnd (rd cur 0) (\<lambda>fac.
     if b_xlow b < 0 \<or> b_xhigh b < 0 \<or> b_ylow b < 0 \<or> b_yhigh b < 0 \<or> b_zlow b < 0 \<or> b_zhigh b < 0
     then Inl AssertFailed
     else for_list [b_zlow b..b_zhigh b - 1] (\<lambda>k.
          for_list [b_ylow b..b_yhigh b - 1] (\<lambda>j.
          for_list [b_xlow b..b_xhigh b - 1] (\<lambda>i. stencil_cell fo nx ny cur (i, j, k)))) nxt)"

text \<open>
  The walk over a row by cache lines: every eighth element from \<open>addr\<close> on below \<open>end\<close>, then
  \<open>end\<close> itself. The result are the elements whose lines are written back or invalidated.
\<close>

function line_walk :: "nat \<Rightarrow> nat \<Rightarrow> nat list" where
  "line_walk addr final = (if addr < final then addr # line_walk (addr + 8) final else [final])"
  by auto
termination by (relation "measure (\<lambda>(addr, final). final - addr)") auto

declare line_walk.simps [simp del]

definition stencil_1ts_writeback :: "u32 \<Rightarrow> u32 \<Rightarrow> box \<Rightarrow> nat list" where
  "stencil_1ts_writeback nx ny b =
     concat (map (\<lambda>k. concat (map (\<lambda>j.
       let addr = unat (Index3D nx ny (b_xlow b) j k) in line_walk addr (addr + nat (b_xhigh b - b_xlow b)))
       [b_ylow b..b_yhigh b - 1])) [b_zlow b..b_zhigh b - 1])"

definition stencil_1ts_invalidate :: "u32 \<Rightarrow> u32 \<Rightarrow> box \<Rightarrow> nat list" where
  "stencil_1ts_invalidate nx ny b =
     concat (map (\<lambda>k. concat (map (\<lambda>j.
       let addr = unat (Index3D nx ny (b_xlow b - 1) j k) in line_walk addr (addr + nat (b_xhigh b - b_xlow b) + 2))
       [b_ylow b - 1..b_yhigh b])) [b_zlow b - 1..b_zhigh b])"

section \<open>Write-back strategy: common.h\<close>

record tcmm_flags =
  TCMM_INV_LAZY :: bool
  TCMM_INV_EAGER :: bool
  TCMM_WRB_LAZY :: bool
  TCMM_WRB_EAGER :: bool

definition RTM_SetWritebackStrategy :: "int \<Rightarrow> tcmm_flags c_result" where
  "RTM_SetWritebackStrategy rtm_strat =
     (if rtm_strat = 0
      then Inr \<lparr>TCMM_INV_LAZY = True, TCMM_INV_EAGER = False, TCMM_WRB_LAZY = True, TCMM_WRB_EAGER = False\<rparr>
      else if rtm_strat = 1
      then Inr \<lparr>TCMM_INV_LAZY = True, TCMM_INV_EAGER = False, TCMM_WRB_LAZY = False, TCMM_WRB_EAGER = True\<rparr>
      else if rtm_strat = 2
      then Inr \<lparr>TCMM_INV_LAZY = False, TCMM_INV_EAGER = True, TCMM_WRB_LAZY = True, TCMM_WRB_EAGER = False\<rparr>
      else if rtm_strat = 3
      then Inr \<lparr>TCMM_INV_LAZY = False, TCMM_INV_EAGER = True, TCMM_WRB_LAZY = False, TCMM_WRB_EAGER = True\<rparr>
      else if rtm_strat = 4
      then Inr \<lparr>TCMM_INV_LAZY = False, TCMM_INV_EAGER = False, TCMM_WRB_LAZY = False, TCMM_WRB_EAGER = False\<rparr>
      else Inl AssertFailed)"

section \<open>A thread between two barriers: main of stencil.c\<close>

text \<open>The box of a thread in the macro block \<open>(j, k, l)\<close>: corner of the block plus the bounds.\<close>

definition thread_box :: "stencil_conf \<Rightarrow> stencil_bounds \<Rightarrow> nat \<Rightarrow> nat \<Rightarrow> nat \<Rightarrow> nat \<Rightarrow> box" where
  "thread_box cf s thread l k j = (case c_macro cf of (mx, my, mz) \<Rightarrow>
     let zfloor = of_nat l * mz + 1; yfloor = of_nat k * my + 1; xfloor = of_nat j * mx + 1
     in \<lparr>b_xlow = sint (xfloor + s_xmin s ! thread), b_xhigh = sint (xfloor + s_xmax s ! thread),
         b_ylow = sint (yfloor + s_ymin s ! thread), b_yhigh = sint (yfloor + s_ymax s ! thread),
         b_zlow = sint (zfloor + s_zmin s ! thread), b_zhigh = sint (zfloor + s_zmax s ! thread)\<rparr>)"

definition thread_boxes :: "stencil_conf \<Rightarrow> stencil_bounds \<Rightarrow> nat \<Rightarrow> box list" where
  "thread_boxes cf s thread =
     concat (map (\<lambda>l. concat (map (\<lambda>k. map (\<lambda>j. thread_box cf s thread l k j) [0..<unat (c_nxblocks cf)])
       [0..<unat (c_nyblocks cf)])) [0..<unat (c_nzblocks cf)])"

datatype phase_op = OpStencil box | OpWriteback box | OpInvalidate box

definition phase_ops :: "tcmm_flags \<Rightarrow> bool \<Rightarrow> box list \<Rightarrow> phase_op list" where
  "phase_ops fl incoherent bs =
     concat (map (\<lambda>b. OpStencil b # (if TCMM_WRB_EAGER fl \<and> \<not> incoherent then [OpWriteback b] else []) @
       (if TCMM_INV_EAGER fl \<and> \<not> incoherent then [OpInvalidate b] else [])) bs) @
     (if \<not> incoherent \<and> (TCMM_WRB_LAZY fl \<or> TCMM_INV_LAZY fl)
      then concat (map (\<lambda>b. (if TCMM_WRB_LAZY fl then [OpWriteback b] else []) @
             (if TCMM_INV_LAZY fl then [OpInvalidate b] else [])) bs)
      else [])"

primrec phase_op_run :: "'f float_ops \<Rightarrow> u32 \<Rightarrow> u32 \<Rightarrow> 'f list \<Rightarrow> phase_op \<Rightarrow> 'f list \<Rightarrow> 'f list c_result" where
  "phase_op_run fo nx ny cur (OpStencil b) nxt = stencil_1ts fo nx ny cur b nxt"
| "phase_op_run fo nx ny cur (OpWriteback b) nxt = Inr nxt"
| "phase_op_run fo nx ny cur (OpInvalidate b) nxt = Inr nxt"

definition thread_phase :: "'f float_ops \<Rightarrow> tcmm_flags \<Rightarrow> bool \<Rightarrow> stencil_conf \<Rightarrow> stencil_bounds \<Rightarrow> nat \<Rightarrow>
    'f list \<Rightarrow> 'f list \<Rightarrow> 'f list c_result" where
  "thread_phase fo fl incoherent cf s thread cur nxt =
     for_list (phase_ops fl incoherent (thread_boxes cf s thread)) (phase_op_run fo (c_nx cf) (c_ny cf) cur) nxt"

text \<open>
  The sequence of the phases between barriers, from time step \<open>i\<close> on: \<open>True\<close> reads \<open>A0\<close> and
  stores to \<open>Anext\<close>, \<open>False\<close> the other way.
\<close>

function phases :: "nat \<Rightarrow> nat \<Rightarrow> bool list" where
  "phases timesteps i =
     (if i < timesteps then True # (if i + 1 = timesteps then [] else False # phases timesteps (i + 2)) else [])"
  by auto
termination by (relation "measure (\<lambda>(t, i). t - i)") auto

declare phases.simps [simp del]

section \<open>The reference: one Jacobi step\<close>

fun lin :: "nat \<Rightarrow> nat \<Rightarrow> nat \<times> nat \<times> nat \<Rightarrow> nat" where
  "lin X Y (x, y, z) = x + X * (y + Y * z)"

fun inner :: "nat \<Rightarrow> nat \<Rightarrow> nat \<Rightarrow> nat \<times> nat \<times> nat \<Rightarrow> bool" where
  "inner X Y Z (x, y, z) \<longleftrightarrow> 0 < x \<and> x + 1 < X \<and> 0 < y \<and> y + 1 < Y \<and> 0 < z \<and> z + 1 < Z"

fun jac_val :: "'f float_ops \<Rightarrow> nat \<Rightarrow> nat \<Rightarrow> 'f list \<Rightarrow> nat \<times> nat \<times> nat \<Rightarrow> 'f" where
  "jac_val fo X Y a (x, y, z) =
     f_sub fo (f_add fo (f_add fo (f_add fo (f_add fo (f_add fo
       (a ! lin X Y (x, y, z + 1)) (a ! lin X Y (x, y, z - 1))) (a ! lin X Y (x, y + 1, z)))
       (a ! lin X Y (x, y - 1, z))) (a ! lin X Y (x + 1, y, z))) (a ! lin X Y (x - 1, y, z)))
       (f_div fo (f_mul fo (f_six fo) (a ! lin X Y (x, y, z))) (f_mul fo (a ! 0) (a ! 0)))"

definition jacobi :: "'f float_ops \<Rightarrow> nat \<Rightarrow> nat \<Rightarrow> nat \<Rightarrow> 'f list \<Rightarrow> 'f list" where
  "jacobi fo X Y Z a = map (\<lambda>n. if inner X Y Z (pos_of X Y n) then jac_val fo X Y a (pos_of X Y n) else a ! n) [0..<X * Y * Z]"

text \<open>The grid fits the index arithmetic.\<close>

definition grid :: "u32 \<Rightarrow> u32 \<Rightarrow> nat \<Rightarrow> bool" where
  "grid nx ny Z \<longleftrightarrow> unat nx * unat ny * Z < 2 ^ 32"

lemma Index3D_nat:
  assumes "grid nx ny Z" "x < unat nx" "y < unat ny" "z < Z"
  shows "unat (Index3D nx ny (int x) (int y) (int z)) = lin (unat nx) (unat ny) (x, y, z)"
proof -
  have "lin (unat nx) (unat ny) (x, y, z) < 2 ^ 32"
    using position_less [OF assms(2-4)] assms(1) by (simp add: grid_def)
  moreover have "Index3D nx ny (int x) (int y) (int z) = of_nat (lin (unat nx) (unat ny) (x, y, z))"
    by (simp add: Index3D_def)
  ultimately show ?thesis by (simp only: unat_of_nat_u32)
qed

lemma lin_less:
  "x < X \<Longrightarrow> y < Y \<Longrightarrow> z < Z \<Longrightarrow> lin X Y (x, y, z) < X * Y * Z"
  using position_less by simp

lemma rd_cell:
  assumes "grid nx ny Z" "length a = unat nx * unat ny * Z" "x < unat nx" "y < unat ny" "z < Z"
  shows "rd a (unat (Index3D nx ny (int x) (int y) (int z))) = Inr (a ! lin (unat nx) (unat ny) (x, y, z))"
  using assms(2) lin_less [OF assms(3-5)] by (simp only: Index3D_nat [OF assms(1,3-5)] rd_in)

lemma stencil_cell_ok:
  assumes "grid nx ny Z" "length a = unat nx * unat ny * Z" "length b = length a" "inner (unat nx) (unat ny) Z c"
  shows "stencil_cell fo nx ny a (int3 c) b = Inr (b[lin (unat nx) (unat ny) c := jac_val fo (unat nx) (unat ny) a c])"
proof -
  obtain x y z where c: "c = (x, y, z)" by (cases c)
  have in1: "0 < x" "x + 1 < unat nx" "0 < y" "y + 1 < unat ny" "0 < z" "z + 1 < Z" using assms(4) c by simp_all
  have ints: "int x + 1 = int (x + 1)" "int y + 1 = int (y + 1)" "int z + 1 = int (z + 1)"
    "int x - 1 = int (x - 1)" "int y - 1 = int (y - 1)" "int z - 1 = int (z - 1)"
    using in1 by (simp_all add: of_nat_diff)
  note r = rd_cell [OF assms(1,2)]
  have l: "x < unat nx" "y < unat ny" "z < Z" "x - 1 < unat nx" "y - 1 < unat ny" "z - 1 < Z" using in1 by auto
  have "lin (unat nx) (unat ny) c < length a" using lin_less [OF l(1-3)] assms(2) c by simp
  then have len: "rd a 0 = Inr (a ! 0)" "lin (unat nx) (unat ny) (x, y, z) < length b"
    using assms(3) c by (auto simp: rd_def)
  have "cell_value fo nx ny a (int x, int y, int z) = Inr (jac_val fo (unat nx) (unat ny) a (x, y, z))"
    unfolding cell_value_def Let_def prod.case ints
    by (simp only: r [OF l(1,2) in1(6)] r [OF l(1,2,6)] r [OF l(1) in1(4) l(3)] r [OF l(1,5,3)] r [OF in1(2) l(2,3)]
        r [OF l(4,2,3)] r [OF l(1-3)] len(1) bnd_Inr jac_val.simps)
  then show ?thesis
    using len(2) by (simp add: stencil_cell_def c c_monad Index3D_nat [OF assms(1) l(1-3)] del: lin.simps jac_val.simps)
qed

lemma pos_of_lin: "inner X Y Z c \<Longrightarrow> pos_of X Y (lin X Y c) = c"
  using pos_of_position by (cases c) auto

text \<open>Any sequence of cell updates leaves the new value in the updated cells and nothing else.\<close>

lemma cells_run:
  assumes "grid nx ny Z" "length a = unat nx * unat ny * Z" "length b = length a"
    and "\<forall>c\<in>set cs. inner (unat nx) (unat ny) Z c"
  shows "\<exists>b'. for_list (map int3 cs) (stencil_cell fo nx ny a) b = Inr b' \<and> length b' = length a \<and>
    (\<forall>n<length a. b' ! n = (if n \<in> lin (unat nx) (unat ny) ` set cs
      then jac_val fo (unat nx) (unat ny) a (pos_of (unat nx) (unat ny) n) else b ! n))"
  using assms(3,4)
proof (induction cs arbitrary: b)
  case (Cons c cs)
  let ?l = "lin (unat nx) (unat ny)" let ?b = "b[?l c := jac_val fo (unat nx) (unat ny) a c]"
  have c: "inner (unat nx) (unat ny) Z c" using Cons.prems(2) by simp
  obtain b' where b': "for_list (map int3 cs) (stencil_cell fo nx ny a) ?b = Inr b'" "length b' = length a"
    "\<forall>n<length a. b' ! n = (if n \<in> ?l ` set cs then jac_val fo (unat nx) (unat ny) a (pos_of (unat nx) (unat ny) n) else ?b ! n)"
    using Cons.IH [of ?b] Cons.prems by auto
  have "for_list (map int3 (c # cs)) (stencil_cell fo nx ny a) b = Inr b'"
    using stencil_cell_ok [OF assms(1,2) Cons.prems(1) c, of fo] b'(1) by (simp add: c_monad)
  moreover have "b' ! n = (if n \<in> ?l ` set (c # cs) then jac_val fo (unat nx) (unat ny) a (pos_of (unat nx) (unat ny) n) else b ! n)"
    if "n < length a" for n
    using b'(3) that pos_of_lin [OF c] Cons.prems(1) by (auto simp: nth_list_update)
  ultimately show ?case using b'(2) by auto
qed simp

lemma inner_lin: "n < X * Y * Z \<Longrightarrow> inner X Y Z (pos_of X Y n) \<Longrightarrow> n = lin X Y (pos_of X Y n)"
  using pos_of_inverse [of X Y n] by (cases "pos_of X Y n") auto

text \<open>The edges of two grids agree.\<close>

definition same_edge :: "nat \<Rightarrow> nat \<Rightarrow> nat \<Rightarrow> 'f list \<Rightarrow> 'f list \<Rightarrow> bool" where
  "same_edge X Y Z a b \<longleftrightarrow> length a = X * Y * Z \<and> length b = X * Y * Z \<and>
     (\<forall>n<X * Y * Z. \<not> inner X Y Z (pos_of X Y n) \<longrightarrow> a ! n = b ! n)"

lemma phase_is_jacobi:
  assumes "grid nx ny Z" "same_edge (unat nx) (unat ny) Z a b" "set cs = {c. inner (unat nx) (unat ny) Z c}"
  shows "for_list (map int3 cs) (stencil_cell fo nx ny a) b = Inr (jacobi fo (unat nx) (unat ny) Z a)"
proof -
  let ?X = "unat nx" let ?Y = "unat ny"
  have len: "length a = ?X * ?Y * Z" "length b = length a" using assms(2) by (simp_all add: same_edge_def)
  obtain b' where b': "for_list (map int3 cs) (stencil_cell fo nx ny a) b = Inr b'" "length b' = length a"
    "\<forall>n<length a. b' ! n = (if n \<in> lin ?X ?Y ` set cs then jac_val fo ?X ?Y a (pos_of ?X ?Y n) else b ! n)"
    using cells_run [OF assms(1) len, of cs fo] assms(3) by auto
  have "n \<in> lin ?X ?Y ` set cs \<longleftrightarrow> inner ?X ?Y Z (pos_of ?X ?Y n)" if "n < ?X * ?Y * Z" for n
  proof
    assume "n \<in> lin ?X ?Y ` set cs"
    then obtain c where "inner ?X ?Y Z c" "n = lin ?X ?Y c" using assms(3) by auto
    then show "inner ?X ?Y Z (pos_of ?X ?Y n)" by (simp only: pos_of_lin)
  next
    assume "inner ?X ?Y Z (pos_of ?X ?Y n)"
    then have "n = lin ?X ?Y (pos_of ?X ?Y n)" "pos_of ?X ?Y n \<in> set cs" using inner_lin [OF that] assms(3) by auto
    then show "n \<in> lin ?X ?Y ` set cs" by (rule image_eqI)
  qed
  then have "b' = jacobi fo ?X ?Y Z a"
    using b'(2,3) len(1) assms(2) by (intro nth_equalityI) (auto simp: jacobi_def same_edge_def)
  then show ?thesis using b'(1) by simp
qed

lemma jacobi_edge: "same_edge X Y Z a b \<Longrightarrow> same_edge X Y Z (jacobi fo X Y Z a) b"
  by (auto simp: same_edge_def jacobi_def)

lemma same_edge_refl: "same_edge X Y Z a b \<Longrightarrow> same_edge X Y Z a a"
  by (auto simp: same_edge_def)

section \<open>The cells of a thread\<close>

definition box_cells :: "box \<Rightarrow> cell list" where
  "box_cells b = concat (map (\<lambda>k. concat (map (\<lambda>j. map (\<lambda>i. (i, j, k)) [b_xlow b..b_xhigh b - 1])
     [b_ylow b..b_yhigh b - 1])) [b_zlow b..b_zhigh b - 1])"

definition thread_cells :: "stencil_conf \<Rightarrow> stencil_bounds \<Rightarrow> nat \<Rightarrow> cell list" where
  "thread_cells cf s thread = concat (map box_cells (thread_boxes cf s thread))"

definition box_nonneg :: "box \<Rightarrow> bool" where
  "box_nonneg b \<longleftrightarrow> 0 \<le> b_xlow b \<and> 0 \<le> b_xhigh b \<and> 0 \<le> b_ylow b \<and> 0 \<le> b_yhigh b \<and> 0 \<le> b_zlow b \<and> 0 \<le> b_zhigh b"

lemma stencil_1ts_cells:
  assumes "0 < length cur" "box_nonneg b"
  shows "stencil_1ts fo nx ny cur b nxt = for_list (box_cells b) (stencil_cell fo nx ny cur) nxt"
proof -
  have x: "for_list (map (\<lambda>i. (i, j, k)) xs) f = for_list xs (\<lambda>i. f (i, j, k))" for xs j k and f :: "cell \<Rightarrow> 'a list \<Rightarrow> 'a list c_result"
    by (rule ext) (rule for_list_map)
  have y: "for_list (concat (map (\<lambda>j. map (\<lambda>i. (i, j, k)) xs) ys)) f = for_list ys (\<lambda>j. for_list xs (\<lambda>i. f (i, j, k)))"
    for xs ys k and f :: "cell \<Rightarrow> 'a list \<Rightarrow> 'a list c_result"
    by (rule ext) (simp only: for_list_concat x)
  show ?thesis using assms
    by (simp add: stencil_1ts_def box_cells_def box_nonneg_def for_list_concat y c_monad not_less)
qed

lemma for_list_skip: "\<forall>x\<in>set xs. \<forall>s. f x s = Inr s \<Longrightarrow> for_list xs f s = Inr s"
  by (induction xs) (simp_all add: c_monad)

lemma thread_phase_cells:
  assumes "0 < length cur" "\<forall>b\<in>set (thread_boxes cf s thread). box_nonneg b"
  shows "thread_phase fo fl incoherent cf s thread cur nxt =
    for_list (thread_cells cf s thread) (stencil_cell fo (c_nx cf) (c_ny cf) cur) nxt"
proof -
  let ?r = "phase_op_run fo (c_nx cf) (c_ny cf) cur" let ?bs = "thread_boxes cf s thread"
  let ?eager = "\<lambda>b. (if TCMM_WRB_EAGER fl \<and> \<not> incoherent then [OpWriteback b] else []) @
       (if TCMM_INV_EAGER fl \<and> \<not> incoherent then [OpInvalidate b] else [])"
  let ?lazy = "concat (map (\<lambda>b. (if TCMM_WRB_LAZY fl then [OpWriteback b] else []) @
             (if TCMM_INV_LAZY fl then [OpInvalidate b] else [])) ?bs)"
  have "for_list ?lazy ?r v = Inr v" for v by (rule for_list_skip) auto
  then have tail: "for_list (if \<not> incoherent \<and> (TCMM_WRB_LAZY fl \<or> TCMM_INV_LAZY fl) then ?lazy else []) ?r = Inr"
    by (intro ext) simp
  have "for_list (?eager b) ?r v = Inr v" for b v by (rule for_list_skip) auto
  then have eager: "for_list (?eager b) ?r = Inr" for b by (intro ext)
  have "for_list (OpStencil b # ?eager b) ?r v = stencil_1ts fo (c_nx cf) (c_ny cf) cur b v" for b v
    unfolding for_list.simps eager bnd_Inr_right by simp
  then have "for_list (concat (map (\<lambda>b. OpStencil b # ?eager b) ?bs)) ?r nxt =
      for_list ?bs (stencil_1ts fo (c_nx cf) (c_ny cf) cur) nxt"
    unfolding for_list_concat by (intro for_list_cong) blast
  also have "\<dots> = for_list ?bs (\<lambda>b. for_list (box_cells b) (stencil_cell fo (c_nx cf) (c_ny cf) cur)) nxt"
    using stencil_1ts_cells [OF assms(1)] assms(2) by (intro for_list_cong) blast
  finally show ?thesis
    by (simp only: thread_phase_def phase_ops_def thread_cells_def for_list_append tail bnd_Inr_right for_list_concat)
qed

text \<open>One dimension: the blocks of all threads in all macro blocks are the inner range.\<close>

lemma dim_cover:
  fixes B d u X x :: nat
  assumes "B * (d * u) = X - 2" "0 < u"
  shows "(\<exists>j<B. \<exists>p<d. j * (d * u) + 1 + p * u \<le> x \<and> x < j * (d * u) + 1 + (p + 1) * u) \<longleftrightarrow> 0 < x \<and> x + 1 < X"
proof
  assume "\<exists>j<B. \<exists>p<d. j * (d * u) + 1 + p * u \<le> x \<and> x < j * (d * u) + 1 + (p + 1) * u"
  then obtain j p where j: "j < B" "p < d" "j * (d * u) + 1 + p * u \<le> x" "x < j * (d * u) + 1 + (p + 1) * u" by blast
  have "(p + 1) * u \<le> d * u" using j(2) by (intro mult_le_mono1) simp
  moreover have "Suc j * (d * u) \<le> B * (d * u)" using j(1) by (intro mult_le_mono1) simp
  ultimately show "0 < x \<and> x + 1 < X" using j(3,4) assms(1) by simp
next
  assume x: "0 < x \<and> x + 1 < X"
  let ?m = "d * u" let ?j = "(x - 1) div ?m" let ?p = "(x - 1) mod ?m div u"
  have lt: "x - 1 < B * ?m" using x assms(1) by linarith
  then have m: "0 < ?m" by (metis mult_0_right neq0_conv not_less0)
  have "?j < B" using lt by (simp add: less_mult_imp_div_less)
  moreover have "?p < d" using m by (simp add: less_mult_imp_div_less)
  moreover have "x - 1 = ?j * ?m + (x - 1) mod ?m" by (rule div_mult_mod_eq [symmetric])
  moreover have "?p * u \<le> (x - 1) mod ?m" by (rule div_times_less_eq_dividend)
  moreover have "(x - 1) mod ?m < (?p + 1) * u" using dividend_less_div_times [OF assms(2), of "(x - 1) mod ?m"] by simp
  ultimately show "\<exists>j<B. \<exists>p<d. j * ?m + 1 + p * u \<le> x \<and> x < j * ?m + 1 + (p + 1) * u"
    using x by (intro exI [of _ ?j] exI [of _ ?p] conjI) linarith+
qed

lemma sint_of_nat: "n < 2 ^ 31 \<Longrightarrow> sint (of_nat n :: u32) = int n"
  using sint_small [of "of_nat n"] unat_of_nat_u32 [of n] by simp

lemma sint_corner:
  fixes m u :: u32
  assumes "j * unat m + 1 + p * unat u < 2 ^ 31"
  shows "sint (of_nat j * m + 1 + of_nat p * u) = int (j * unat m + 1 + p * unat u)"
proof -
  have "of_nat j * m + 1 + of_nat p * u = of_nat (j * unat m + 1 + p * unat u)" by simp
  then show ?thesis using sint_of_nat [OF assms] by (simp only:)
qed

lemma block_end:
  fixes B m d u X j p :: nat
  assumes "B * m = X - 2" "m = d * u" "j < B" "p < d" "X < 2 ^ 31"
  shows "j * m + 1 + (p + 1) * u < 2 ^ 31" "j * m + 1 + p * u < 2 ^ 31"
proof -
  have "(p + 1) * u \<le> d * u" using assms(4) by (intro mult_le_mono1) simp
  moreover have "Suc j * m \<le> B * m" using assms(3) by (intro mult_le_mono1) simp
  ultimately show b: "j * m + 1 + (p + 1) * u < 2 ^ 31" using assms(1,2,5) by simp
  have "p * u \<le> (p + 1) * u" by simp
  then show "j * m + 1 + p * u < 2 ^ 31" using b by linarith
qed

lemma pos_of_bounds:
  assumes "i < dx * dy * dz" "pos_of dx dy i = (p, q, r)"
  shows "p < dx \<and> q < dy \<and> r < dz"
proof -
  have "0 < dx" "0 < dy" using assms(1) by (auto intro: ccontr)
  moreover have "i div (dx * dy) < dz" using assms(1) by (simp add: less_mult_imp_div_less mult.commute)
  ultimately show ?thesis using assms(2) by (auto simp: pos_of_def div_mult2_eq)
qed

text \<open>The setup as the sweep uses it: the grid is at most \<open>2\<^sup>3\<^sup>1\<close> wide.\<close>

definition ready :: "u32 \<Rightarrow> stencil_conf \<Rightarrow> stencil_bounds \<Rightarrow> bool" where
  "ready threads cf s \<longleftrightarrow> setup_ok threads cf \<and>
     2 \<le> unat (c_nx cf) \<and> unat (c_nx cf) < 2 ^ 31 \<and> 2 \<le> unat (c_ny cf) \<and> unat (c_ny cf) < 2 ^ 31 \<and>
     2 \<le> unat (c_nz cf) \<and> unat (c_nz cf) < 2 ^ 31 \<and>
     (case (c_macro cf, c_micro cf) of ((mx, my, mz), (ux, uy, uz)) \<Rightarrow>
     \<forall>i<unat threads. case pos_of (unat (mx div ux)) (unat (my div uy)) i of (x, y, z) \<Rightarrow>
       box_at i s = (range_of (of_nat x) (sint ux), range_of (of_nat y) (sint uy), range_of (of_nat z) (sint uz)))"

lemma unat_minus_2: "2 \<le> unat n \<Longrightarrow> unat (n - 2) = unat n - 2" for n :: u32
  by (simp add: unat_sub word_le_nat_alt)

lemma thread_box_nat:
  assumes "ready threads cf s" "c_macro cf = (mx, my, mz)" "c_micro cf = (ux, uy, uz)"
    and "t < unat threads" "pos_of (unat (mx div ux)) (unat (my div uy)) t = (p, q, r)"
    and "j < unat (c_nxblocks cf)" "k < unat (c_nyblocks cf)" "l < unat (c_nzblocks cf)"
  shows "thread_box cf s t l k j =
    \<lparr>b_xlow = int (j * unat mx + 1 + p * unat ux), b_xhigh = int (j * unat mx + 1 + (p + 1) * unat ux),
     b_ylow = int (k * unat my + 1 + q * unat uy), b_yhigh = int (k * unat my + 1 + (q + 1) * unat uy),
     b_zlow = int (l * unat mz + 1 + r * unat uz), b_zhigh = int (l * unat mz + 1 + (r + 1) * unat uz)\<rparr>"
proof -
  let ?dx = "unat (mx div ux)" let ?dy = "unat (my div uy)" let ?dz = "unat (mz div uz)"
  have ok: "unat ux dvd unat mx" "unat uy dvd unat my" "unat uz dvd unat mz" "?dx * ?dy * ?dz = unat threads"
    "unat (c_nxblocks cf) * unat mx = unat (c_nx cf) - 2" "unat (c_nyblocks cf) * unat my = unat (c_ny cf) - 2"
    "unat (c_nzblocks cf) * unat mz = unat (c_nz cf) - 2"
    using assms(1-3) by (simp_all add: ready_def setup_ok_def unat_minus_2)
  have m: "unat mx = ?dx * unat ux" "unat my = ?dy * unat uy" "unat mz = ?dz * unat uz"
    using ok(1-3) by (simp_all add: unat_div_distrib)
  have w: "unat (c_nx cf) < 2 ^ 31" "unat (c_ny cf) < 2 ^ 31" "unat (c_nz cf) < 2 ^ 31" using assms(1) by (simp_all add: ready_def)
  have pqr: "p < ?dx" "q < ?dy" "r < ?dz" using pos_of_bounds [of t ?dx ?dy ?dz p q r] assms(4,5) ok(4) by simp_all
  note b = block_end [OF ok(5) m(1) assms(6) pqr(1) w(1)] block_end [OF ok(6) m(2) assms(7) pqr(2) w(2)]
    block_end [OF ok(7) m(3) assms(8) pqr(3) w(3)]
  have "box_at t s = (range_of (of_nat p) (sint ux), range_of (of_nat q) (sint uy), range_of (of_nat r) (sint uz))"
    using assms(1-5) unfolding ready_def by auto
  then have box: "s_xmin s ! t = of_nat p * ux" "s_xmax s ! t = of_nat (p + 1) * ux"
    "s_ymin s ! t = of_nat q * uy" "s_ymax s ! t = of_nat (q + 1) * uy"
    "s_zmin s ! t = of_nat r * uz" "s_zmax s ! t = of_nat (r + 1) * uz"
    by (simp_all add: box_at_def range_of_def add.commute)
  show ?thesis
    unfolding thread_box_def assms(2) prod.case Let_def box
    by (simp only: sint_corner [OF b(1)] sint_corner [OF b(2)] sint_corner [OF b(3)] sint_corner [OF b(4)]
        sint_corner [OF b(5)] sint_corner [OF b(6)])
qed

lemma mem_thread_boxes:
  "b \<in> set (thread_boxes cf s t) \<longleftrightarrow>
   (\<exists>l<unat (c_nzblocks cf). \<exists>k<unat (c_nyblocks cf). \<exists>j<unat (c_nxblocks cf). b = thread_box cf s t l k j)"
proof -
  have "b \<in> set (thread_boxes cf s t) \<longleftrightarrow> (\<exists>l\<in>{0..<unat (c_nzblocks cf)}. \<exists>k\<in>{0..<unat (c_nyblocks cf)}.
      b \<in> thread_box cf s t l k ` {0..<unat (c_nxblocks cf)})"
    by (simp add: thread_boxes_def)
  then show ?thesis by (simp only: image_iff Bex_def atLeastLessThan_iff) blast
qed

lemma mem_thread_cells:
  "c \<in> set (thread_cells cf s t) \<longleftrightarrow> (\<exists>l<unat (c_nzblocks cf). \<exists>k<unat (c_nyblocks cf). \<exists>j<unat (c_nxblocks cf).
     c \<in> set (box_cells (thread_box cf s t l k j)))"
proof -
  have "c \<in> set (thread_cells cf s t) \<longleftrightarrow> (\<exists>b. b \<in> set (thread_boxes cf s t) \<and> c \<in> set (box_cells b))"
    by (auto simp: thread_cells_def)
  then show ?thesis unfolding mem_thread_boxes by blast
qed

lemma mem_box_cells:
  "(i, j, k) \<in> set (box_cells b) \<longleftrightarrow>
   b_xlow b \<le> i \<and> i < b_xhigh b \<and> b_ylow b \<le> j \<and> j < b_yhigh b \<and> b_zlow b \<le> k \<and> k < b_zhigh b"
  by (auto simp: box_cells_def image_iff)

text \<open>Together the threads store to the inner cells of the grid, and to no other.\<close>

lemma thread_cell_iff:
  assumes "ready threads cf s" "c_macro cf = (mx, my, mz)" "c_micro cf = (ux, uy, uz)"
    and "t < unat threads" "pos_of (unat (mx div ux)) (unat (my div uy)) t = (p, q, r)"
  shows "(int x, int y, int z) \<in> set (thread_cells cf s t) \<longleftrightarrow>
    (\<exists>l<unat (c_nzblocks cf). l * unat mz + 1 + r * unat uz \<le> z \<and> z < l * unat mz + 1 + (r + 1) * unat uz) \<and>
    (\<exists>k<unat (c_nyblocks cf). k * unat my + 1 + q * unat uy \<le> y \<and> y < k * unat my + 1 + (q + 1) * unat uy) \<and>
    (\<exists>j<unat (c_nxblocks cf). j * unat mx + 1 + p * unat ux \<le> x \<and> x < j * unat mx + 1 + (p + 1) * unat ux)"
proof -
  have "(int x, int y, int z) \<in> set (box_cells (thread_box cf s t l k j)) \<longleftrightarrow>
    (l * unat mz + 1 + r * unat uz \<le> z \<and> z < l * unat mz + 1 + (r + 1) * unat uz) \<and>
    (k * unat my + 1 + q * unat uy \<le> y \<and> y < k * unat my + 1 + (q + 1) * unat uy) \<and>
    (j * unat mx + 1 + p * unat ux \<le> x \<and> x < j * unat mx + 1 + (p + 1) * unat ux)"
    if "l < unat (c_nzblocks cf)" "k < unat (c_nyblocks cf)" "j < unat (c_nxblocks cf)" for l k j
    unfolding thread_box_nat [OF assms that(3,2,1)] mem_box_cells box.simps of_nat_le_iff of_nat_less_iff by blast
  then show ?thesis unfolding mem_thread_cells by blast
qed

lemma thread_boxes_nonneg:
  assumes "ready threads cf s" "t < unat threads"
  shows "\<forall>b\<in>set (thread_boxes cf s t). box_nonneg b"
proof -
  obtain mx my mz ux uy uz where m: "c_macro cf = (mx, my, mz)" "c_micro cf = (ux, uy, uz)"
    by (cases "c_macro cf", cases "c_micro cf")
  obtain p q r where pos: "pos_of (unat (mx div ux)) (unat (my div uy)) t = (p, q, r)"
    by (cases "pos_of (unat (mx div ux)) (unat (my div uy)) t")
  show ?thesis using thread_box_nat [OF assms(1) m assms(2) pos] by (auto simp: mem_thread_boxes box_nonneg_def)
qed

lemma thread_cell_nonneg:
  assumes "ready threads cf s" "t < unat threads" "(i, j, k) \<in> set (thread_cells cf s t)"
  shows "0 \<le> i \<and> 0 \<le> j \<and> 0 \<le> k"
proof -
  obtain b where b: "b \<in> set (thread_boxes cf s t)" "(i, j, k) \<in> set (box_cells b)"
    using assms(3) by (auto simp: thread_cells_def)
  then have "box_nonneg b" using thread_boxes_nonneg [OF assms(1,2)] by blast
  then show ?thesis using b(2) by (auto simp: mem_box_cells box_nonneg_def)
qed

lemma all_cells_nat:
  assumes "ready threads cf s"
  shows "(\<exists>t<unat threads. (int x, int y, int z) \<in> set (thread_cells cf s t)) \<longleftrightarrow>
    inner (unat (c_nx cf)) (unat (c_ny cf)) (unat (c_nz cf)) (x, y, z)"
proof -
  obtain mx my mz ux uy uz where m: "c_macro cf = (mx, my, mz)" "c_micro cf = (ux, uy, uz)"
    by (cases "c_macro cf", cases "c_micro cf")
  let ?dx = "unat (mx div ux)" let ?dy = "unat (my div uy)" let ?dz = "unat (mz div uz)"
  let ?in = "\<lambda>B m u p x. \<exists>j<unat B. j * unat m + 1 + p * unat u \<le> x \<and> x < j * unat m + 1 + (p + 1) * unat u"
  have ok: "unat ux dvd unat mx" "unat uy dvd unat my" "unat uz dvd unat mz" "?dx * ?dy * ?dz = unat threads"
    "0 < unat ux" "0 < unat uy" "0 < unat uz"
    "unat (c_nxblocks cf) * unat mx = unat (c_nx cf) - 2" "unat (c_nyblocks cf) * unat my = unat (c_ny cf) - 2"
    "unat (c_nzblocks cf) * unat mz = unat (c_nz cf) - 2"
    using assms m by (simp_all add: ready_def setup_ok_def unat_minus_2 unat_gt_0)
  have me: "unat mx = ?dx * unat ux" "unat my = ?dy * unat uy" "unat mz = ?dz * unat uz"
    using ok(1-3) by (simp_all add: unat_div_distrib)
  have "(\<exists>t<unat threads. (int x, int y, int z) \<in> set (thread_cells cf s t)) \<longleftrightarrow>
    (\<exists>p<?dx. \<exists>q<?dy. \<exists>r<?dz. ?in (c_nzblocks cf) mz uz r z \<and> ?in (c_nyblocks cf) my uy q y \<and> ?in (c_nxblocks cf) mx ux p x)"
    (is "?L \<longleftrightarrow> ?R")
  proof
    assume ?L
    then obtain t where t: "t < unat threads" "(int x, int y, int z) \<in> set (thread_cells cf s t)" by blast
    obtain p q r where pos: "pos_of ?dx ?dy t = (p, q, r)" by (cases "pos_of ?dx ?dy t")
    have "p < ?dx \<and> q < ?dy \<and> r < ?dz" using pos_of_bounds [of t ?dx ?dy ?dz p q r] pos t(1) ok(4) by simp
    then show ?R using t(2) unfolding thread_cell_iff [OF assms m t(1) pos] by blast
  next
    assume ?R
    then obtain p q r where pqr: "p < ?dx" "q < ?dy" "r < ?dz"
      "?in (c_nzblocks cf) mz uz r z \<and> ?in (c_nyblocks cf) my uy q y \<and> ?in (c_nxblocks cf) mx ux p x" by blast
    obtain t where t: "t < unat threads" "pos_of ?dx ?dy t = (p, q, r)"
      using pos_of_unique [OF pqr(1-3)] ok(4) by auto
    then show ?L using pqr(4) thread_cell_iff [OF assms m t] by blast
  qed
  also have "\<dots> \<longleftrightarrow> (\<exists>j<unat (c_nxblocks cf). \<exists>p<?dx. j * unat mx + 1 + p * unat ux \<le> x \<and> x < j * unat mx + 1 + (p + 1) * unat ux) \<and>
      (\<exists>j<unat (c_nyblocks cf). \<exists>p<?dy. j * unat my + 1 + p * unat uy \<le> y \<and> y < j * unat my + 1 + (p + 1) * unat uy) \<and>
      (\<exists>j<unat (c_nzblocks cf). \<exists>p<?dz. j * unat mz + 1 + p * unat uz \<le> z \<and> z < j * unat mz + 1 + (p + 1) * unat uz)"
    by blast
  also have "\<dots> \<longleftrightarrow> inner (unat (c_nx cf)) (unat (c_ny cf)) (unat (c_nz cf)) (x, y, z)"
    using dim_cover [OF ok(8) [unfolded me(1)] ok(5)] dim_cover [OF ok(9) [unfolded me(2)] ok(6)]
      dim_cover [OF ok(10) [unfolded me(3)] ok(7)]
    unfolding me [symmetric] by simp
  finally show ?thesis .
qed

lemma all_cells:
  assumes "ready threads cf s"
  shows "(\<Union>t<unat threads. set (thread_cells cf s t)) =
    int3 ` {c. inner (unat (c_nx cf)) (unat (c_ny cf)) (unat (c_nz cf)) c}" (is "?L = ?R")
proof
  show "?L \<subseteq> ?R"
  proof
    fix c assume "c \<in> ?L"
    then obtain t where t: "t < unat threads" "c \<in> set (thread_cells cf s t)" by blast
    obtain i j k where c: "c = (i, j, k)" by (cases c)
    then have "0 \<le> i \<and> 0 \<le> j \<and> 0 \<le> k" using thread_cell_nonneg [OF assms t(1)] t(2) by blast
    then obtain x y z where e: "c = (int x, int y, int z)" using c nonneg_int_cases by metis
    then have "inner (unat (c_nx cf)) (unat (c_ny cf)) (unat (c_nz cf)) (x, y, z)"
      using all_cells_nat [OF assms] t by blast
    then show "c \<in> ?R" using e by (intro image_eqI [of _ _ "(x, y, z)"]) auto
  qed
  show "?R \<subseteq> ?L"
  proof
    fix c assume "c \<in> ?R"
    then obtain x y z where "c = (int x, int y, int z)" "inner (unat (c_nx cf)) (unat (c_ny cf)) (unat (c_nz cf)) (x, y, z)"
      by auto
    then show "c \<in> ?L" using all_cells_nat [OF assms, of x y z] by blast
  qed
qed

section \<open>All time steps\<close>

text \<open>
  The stores of all threads in one phase, in any order: every interleaving of the threads is
  such a sequence.
\<close>

definition interleaving :: "u32 \<Rightarrow> stencil_conf \<Rightarrow> stencil_bounds \<Rightarrow> cell list \<Rightarrow> bool" where
  "interleaving threads cf s cs \<longleftrightarrow> mset cs = mset (concat (map (thread_cells cf s) [0..<unat threads]))"

fun run_phases :: "'f float_ops \<Rightarrow> u32 \<Rightarrow> u32 \<Rightarrow> (nat \<Rightarrow> cell list) \<Rightarrow> nat \<Rightarrow> bool list \<Rightarrow> 'f list \<times> 'f list \<Rightarrow>
    ('f list \<times> 'f list) c_result" where
  "run_phases fo nx ny order n [] st = Inr st"
| "run_phases fo nx ny order n (True # ps) (A0, Anext) =
     bnd (for_list (order n) (stencil_cell fo nx ny A0) Anext) (\<lambda>Anext. run_phases fo nx ny order (Suc n) ps (A0, Anext))"
| "run_phases fo nx ny order n (False # ps) (A0, Anext) =
     bnd (for_list (order n) (stencil_cell fo nx ny Anext) A0) (\<lambda>A0. run_phases fo nx ny order (Suc n) ps (A0, Anext))"

lemma map_of_image:
  assumes "set xs = f ` A" "inj f"
  shows "\<exists>ys. xs = map f ys \<and> set ys = A"
proof (intro exI conjI)
  have "f (inv f x) = x" if "x \<in> set xs" for x using that assms by (metis f_inv_into_f image_iff rangeI)
  then show "xs = map f (map (inv f) xs)" by (simp add: map_idI)
  show "set (map (inv f) xs) = A" using assms by (auto simp: image_image)
qed

lemma inj_int3: "inj int3"
  by (intro injI) auto

lemma interleaved_phase:
  assumes "ready threads cf s" "interleaving threads cf s cs" "grid (c_nx cf) (c_ny cf) (unat (c_nz cf))"
    and "same_edge (unat (c_nx cf)) (unat (c_ny cf)) (unat (c_nz cf)) a b"
  shows "for_list cs (stencil_cell fo (c_nx cf) (c_ny cf) a) b =
    Inr (jacobi fo (unat (c_nx cf)) (unat (c_ny cf)) (unat (c_nz cf)) a)"
proof -
  have "set cs = set (concat (map (thread_cells cf s) [0..<unat threads]))"
    using assms(2) unfolding interleaving_def by (rule mset_eq_setD)
  also have "\<dots> = (\<Union>t<unat threads. set (thread_cells cf s t))" by auto
  finally have "set cs = int3 ` {c. inner (unat (c_nx cf)) (unat (c_ny cf)) (unat (c_nz cf)) c}"
    using all_cells [OF assms(1)] by simp
  then obtain ys where "cs = map int3 ys" "set ys = {c. inner (unat (c_nx cf)) (unat (c_ny cf)) (unat (c_nz cf)) c}"
    using map_of_image inj_int3 by metis
  then show ?thesis using phase_is_jacobi [OF assms(3,4)] by simp
qed

lemma run_phases_jacobi:
  fixes a0 b :: "'f list" and fo :: "'f float_ops"
  assumes "ready threads cf s" "\<forall>n. interleaving threads cf s (order n)" "grid (c_nx cf) (c_ny cf) (unat (c_nz cf))"
    and "same_edge (unat (c_nx cf)) (unat (c_ny cf)) (unat (c_nz cf)) a0 b" "i \<le> T" "even i"
  defines "J \<equiv> jacobi fo (unat (c_nx cf)) (unat (c_ny cf)) (unat (c_nz cf))"
  shows "\<exists>x y. run_phases fo (c_nx cf) (c_ny cf) order n (phases T i) (a0, b) = Inr (x, y) \<and>
    (if even T then x else y) = (J ^^ (T - i)) a0"
  using assms(4-6)
proof (induction "T - i" arbitrary: i n a0 b rule: less_induct)
  case less
  let ?E = "same_edge (unat (c_nx cf)) (unat (c_ny cf)) (unat (c_nz cf))"
  have step: "for_list (order m) (stencil_cell fo (c_nx cf) (c_ny cf) u) v = Inr (J u)" if "?E u v" for m u v
    unfolding J_def using interleaved_phase [OF assms(1) assms(2) [rule_format, of m] assms(3) that] .
  have edge: "?E (J u) v" if "?E u v" for u v unfolding J_def using jacobi_edge [OF that] .
  consider "i = T" | "i + 1 = T" | "i + 2 \<le> T" using less.prems(2) by linarith
  then show ?case
  proof cases
    case 1
    then show ?thesis using less.prems(3) by (subst phases.simps) simp
  next
    case 2
    then have "odd T" "phases T i = [True]" using less.prems(3) by (auto simp: phases.simps [of T i])
    then show ?thesis using 2 step [OF less.prems(1)] by (auto simp: c_monad)
  next
    case 3
    have e1: "?E (J a0) a0" using edge [OF less.prems(1)] less.prems(1) by (auto simp: same_edge_def)
    have e2: "?E (J (J a0)) (J a0)" using edge [OF same_edge_refl [OF e1]] .
    have "phases T i = True # False # phases T (i + 2)" using 3 by (subst phases.simps) simp
    then have "run_phases fo (c_nx cf) (c_ny cf) order n (phases T i) (a0, b) =
        run_phases fo (c_nx cf) (c_ny cf) order (Suc (Suc n)) (phases T (i + 2)) (J (J a0), J a0)"
      using step [OF less.prems(1)] step [OF e1] by (simp add: c_monad)
    moreover have "(J ^^ (T - i)) a0 = (J ^^ (T - (i + 2))) (J (J a0))"
    proof -
      have "T - i = Suc (Suc (T - (i + 2)))" using 3 by simp
      then show ?thesis by (simp only: funpow_Suc_right comp_apply)
    qed
    ultimately show ?thesis using less.hyps [of "i + 2" "J (J a0)" "J a0" "Suc (Suc n)"] 3 e2 less.prems(3) by simp
  qed
qed

lemma setup_ready:
  assumes "stencil_setup (nx, ny, nz) (bx, by, bz) b1 b2 threads s = Inr (cf, s')"
    and "bounds_room MAX_SUPPORTED_THREADS s"
    and "2 \<le> unat nx" "unat nx < 2 ^ 31" "2 \<le> unat ny" "unat ny < 2 ^ 31" "2 \<le> unat nz" "unat nz < 2 ^ 31"
  shows "ready threads cf s' \<and> c_nx cf = nx \<and> c_ny cf = ny \<and> c_nz cf = nz"
  using stencil_setup_ok [OF assms(1,2)] assms(3-8) unfolding ready_def by simp

text \<open>
  C1: the parallel stencil computes the Jacobi iteration. After a setup that does not abort,
  the code of every thread in a phase is its sequence of cell updates, and whatever the
  interleaving of the updates of all threads in every phase, the run over \<open>T\<close> time steps
  returns, with no access out of bounds, and the array that was stored last holds \<open>T\<close> Jacobi
  steps of the initial grid.
\<close>

theorem stencil_is_jacobi:
  assumes "stencil_setup (nx, ny, nz) (bx, by, bz) b1 b2 threads s = Inr (cf, s')"
    and "bounds_room MAX_SUPPORTED_THREADS s"
    and "2 \<le> unat nx" and "unat nx < 2 ^ 31" and "2 \<le> unat ny" and "unat ny < 2 ^ 31"
    and "2 \<le> unat nz" and "unat nz < 2 ^ 31"
    and "unat nx * unat ny * unat nz < 2 ^ 32" and "length a = unat nx * unat ny * unat nz"
    and "\<forall>n. interleaving threads cf s' (order n)"
  shows "(\<exists>x y. run_phases fo nx ny order 0 (phases T 0) (a, a) = Inr (x, y) \<and>
      (if even T then x else y) = (jacobi fo (unat nx) (unat ny) (unat nz) ^^ T) a) \<and>
    (\<forall>t<unat threads. \<forall>cur nxt. cur \<noteq> [] \<longrightarrow> thread_phase fo fl incoherent cf s' t cur nxt =
      for_list (thread_cells cf s' t) (stencil_cell fo nx ny cur) nxt)"
proof
  have r: "ready threads cf s'" "c_nx cf = nx" "c_ny cf = ny" "c_nz cf = nz" using setup_ready [OF assms(1-8)] by auto
  have "grid nx ny (unat nz)" "same_edge (unat nx) (unat ny) (unat nz) a a"
    using assms(9,10) by (simp_all add: grid_def same_edge_def)
  then show "\<exists>x y. run_phases fo nx ny order 0 (phases T 0) (a, a) = Inr (x, y) \<and>
      (if even T then x else y) = (jacobi fo (unat nx) (unat ny) (unat nz) ^^ T) a"
    using run_phases_jacobi [OF r(1) assms(11), of a a 0 T fo 0] by (simp add: r(2-4))
  show "\<forall>t<unat threads. \<forall>cur nxt. cur \<noteq> [] \<longrightarrow> thread_phase fo fl incoherent cf s' t cur nxt =
      for_list (thread_cells cf s' t) (stencil_cell fo nx ny cur) nxt"
    using thread_phase_cells thread_boxes_nonneg [OF r(1)] r(2,3) by fastforce
qed

theorem stencil_is_jacobi_witness:
  "\<exists>cf s' x y. stencil_setup (6, 6, 6) (2, 2, 1) 0 1 2 zero_bounds = Inr (cf, s') \<and>
     run_phases \<lparr>f_add = (+), f_sub = (-), f_mul = (*), f_div = (\<lambda>a b. a), f_six = 6\<rparr> 6 6
       (\<lambda>_. concat (map (thread_cells cf s') [0..<2])) 0 (phases 3 0) (replicate 216 (1 :: int), replicate 216 1) = Inr (x, y) \<and>
     y = (jacobi \<lparr>f_add = (+), f_sub = (-), f_mul = (*), f_div = (\<lambda>a b. a), f_six = 6\<rparr> 6 6 6 ^^ 3) (replicate 216 1)"
proof -
  obtain cf s' where cf: "stencil_setup (6, 6, 6) (2, 2, 1) 0 1 2 zero_bounds = Inr (cf, s')" using small_setup by blast
  have "bounds_room MAX_SUPPORTED_THREADS zero_bounds" by (rule zero_bounds_room) simp
  moreover have "\<forall>n :: nat. interleaving 2 cf s' ((\<lambda>_. concat (map (thread_cells cf s') [0..<2])) n)"
    by (simp add: interleaving_def)
  ultimately show ?thesis
    using stencil_is_jacobi [OF cf, of "replicate 216 (1 :: int)" "\<lambda>_. concat (map (thread_cells cf s') [0..<2])"
        "\<lparr>f_add = (+), f_sub = (-), f_mul = (*), f_div = (\<lambda>a b. a), f_six = 6\<rparr>" 3] cf by auto
qed

section \<open>Cache maintenance covers the accesses\<close>

lemma line_walk_covers:
  "a \<le> n \<Longrightarrow> n < e \<Longrightarrow> \<exists>w\<in>set (line_walk a e). w div 8 = n div 8"
proof (induction a e rule: line_walk.induct)
  case (1 a e)
  have walk: "line_walk a e = a # line_walk (a + 8) e" using 1(2,3) by (subst line_walk.simps) simp
  show ?case
  proof (cases "a + 8 \<le> n")
    case True
    then show ?thesis using 1 walk by auto
  next
    case False
    show ?thesis
    proof (cases "a div 8 = n div 8")
      case True
      then show ?thesis by (auto simp: walk)
    next
      case no: False
      then have n: "n div 8 = a div 8 + 1" using False 1(2) by linarith
      have "\<exists>w\<in>set (line_walk (a + 8) e). w div 8 = a div 8 + 1"
      proof (cases "a + 8 < e")
        case True
        then show ?thesis by (subst line_walk.simps) auto
      next
        case False
        then have "e div 8 = a div 8 + 1" using n 1(3) by linarith
        then show ?thesis using False by (subst line_walk.simps) auto
      qed
      then show ?thesis using n by (auto simp: walk)
    qed
  qed
qed

lemma row_covered:
  assumes "grid nx ny Z" "x0 \<le> x" "x < x0 + n" "x < unat nx" "y < unat ny" "z < Z"
    and "addr = unat (Index3D nx ny (int x0) (int y) (int z))"
  shows "\<exists>w\<in>set (line_walk addr (addr + n)). w div 8 = unat (Index3D nx ny (int x) (int y) (int z)) div 8"
proof -
  have "addr = lin (unat nx) (unat ny) (x0, y, z)" using Index3D_nat [OF assms(1) _ assms(5,6), of x0] assms(2,4,7) by simp
  moreover have "unat (Index3D nx ny (int x) (int y) (int z)) = lin (unat nx) (unat ny) (x, y, z)"
    using Index3D_nat [OF assms(1,4-6)] .
  ultimately show ?thesis using assms(2,3) by (simp only: lin.simps) (intro line_walk_covers; simp)
qed

text \<open>The boxes lie inside the grid.\<close>

definition box_inside :: "nat \<Rightarrow> nat \<Rightarrow> nat \<Rightarrow> box \<Rightarrow> bool" where
  "box_inside X Y Z b \<longleftrightarrow> 1 \<le> b_xlow b \<and> b_xlow b \<le> b_xhigh b \<and> b_xhigh b < int X \<and>
     1 \<le> b_ylow b \<and> b_yhigh b < int Y \<and> 1 \<le> b_zlow b \<and> b_zhigh b < int Z"

lemma block_inside:
  fixes B m d u X j p :: nat
  assumes "B * m = X - 2" "2 \<le> X" "m = d * u" "j < B" "p < d"
  shows "j * m + 1 + (p + 1) * u < X"
proof -
  have "(p + 1) * u \<le> d * u" using assms(5) by (intro mult_le_mono1) simp
  moreover have "Suc j * m \<le> B * m" using assms(4) by (intro mult_le_mono1) simp
  ultimately show ?thesis using assms(1-3) by simp
qed

lemma thread_boxes_inside:
  assumes "ready threads cf s" "t < unat threads" "b \<in> set (thread_boxes cf s t)"
  shows "box_inside (unat (c_nx cf)) (unat (c_ny cf)) (unat (c_nz cf)) b"
proof -
  obtain mx my mz ux uy uz where m: "c_macro cf = (mx, my, mz)" "c_micro cf = (ux, uy, uz)"
    by (cases "c_macro cf", cases "c_micro cf")
  let ?dx = "unat (mx div ux)" let ?dy = "unat (my div uy)" let ?dz = "unat (mz div uz)"
  obtain p q r where pos: "pos_of ?dx ?dy t = (p, q, r)" by (cases "pos_of ?dx ?dy t")
  obtain l k j where b: "l < unat (c_nzblocks cf)" "k < unat (c_nyblocks cf)" "j < unat (c_nxblocks cf)"
    "b = thread_box cf s t l k j" using assms(3) unfolding mem_thread_boxes by blast
  have ok: "unat ux dvd unat mx" "unat uy dvd unat my" "unat uz dvd unat mz" "?dx * ?dy * ?dz = unat threads"
    "unat (c_nxblocks cf) * unat mx = unat (c_nx cf) - 2" "unat (c_nyblocks cf) * unat my = unat (c_ny cf) - 2"
    "unat (c_nzblocks cf) * unat mz = unat (c_nz cf) - 2" "2 \<le> unat (c_nx cf)" "2 \<le> unat (c_ny cf)" "2 \<le> unat (c_nz cf)"
    using assms(1) m by (simp_all add: ready_def setup_ok_def unat_minus_2)
  have me: "unat mx = ?dx * unat ux" "unat my = ?dy * unat uy" "unat mz = ?dz * unat uz"
    using ok(1-3) by (simp_all add: unat_div_distrib)
  have pqr: "p < ?dx" "q < ?dy" "r < ?dz" using pos_of_bounds [of t ?dx ?dy ?dz p q r] assms(2) pos ok(4) by simp_all
  have "j * unat mx + 1 + (p + 1) * unat ux < unat (c_nx cf)" "k * unat my + 1 + (q + 1) * unat uy < unat (c_ny cf)"
    "l * unat mz + 1 + (r + 1) * unat uz < unat (c_nz cf)"
    using block_inside [OF ok(5,8) me(1) b(3) pqr(1)] block_inside [OF ok(6,9) me(2) b(2) pqr(2)]
      block_inside [OF ok(7,10) me(3) b(1) pqr(3)] .
  then show ?thesis unfolding b(4) thread_box_nat [OF assms(1) m assms(2) pos b(3,2,1)]
    unfolding box_inside_def box.simps of_nat_less_iff of_nat_le_iff by simp
qed

lemma writeback_covers_cell:
  assumes "grid nx ny Z" "box_inside (unat nx) (unat ny) Z b" "(i, j, k) \<in> set (box_cells b)"
  shows "\<exists>w\<in>set (stencil_1ts_writeback nx ny b). w div 8 = unat (Index3D nx ny i j k) div 8"
proof -
  have in1: "b_xlow b \<le> i" "i < b_xhigh b" "b_ylow b \<le> j" "j < b_yhigh b" "b_zlow b \<le> k" "k < b_zhigh b"
    using assms(3) by (simp_all add: mem_box_cells)
  obtain x y z x0 where n: "i = int x" "j = int y" "k = int z" "b_xlow b = int x0"
    using in1 assms(2) unfolding box_inside_def by (metis nonneg_int_cases order_trans zero_le_one)
  let ?addr = "unat (Index3D nx ny (int x0) (int y) (int z))" let ?n = "nat (b_xhigh b - b_xlow b)"
  have "x0 \<le> x" "x < x0 + ?n" "x < unat nx" "y < unat ny" "z < Z"
    using in1 n assms(2) by (auto simp: box_inside_def simp del: of_nat_unat)
  from row_covered [OF assms(1) this refl] obtain w where
    w: "w \<in> set (line_walk ?addr (?addr + ?n))" "w div 8 = unat (Index3D nx ny i j k) div 8" using n by auto
  have "w \<in> set (stencil_1ts_writeback nx ny b)"
    unfolding stencil_1ts_writeback_def set_concat set_map UN_iff Let_def image_image
    using w(1) in1 n by (intro bexI [of _ k] bexI [of _ j]) auto
  then show ?thesis using w(2) by blast
qed

lemma invalidate_covers_cell:
  assumes "grid nx ny Z" "box_inside (unat nx) (unat ny) Z b"
    and "b_xlow b - 1 \<le> i" "i \<le> b_xhigh b" "b_ylow b - 1 \<le> j" "j \<le> b_yhigh b" "b_zlow b - 1 \<le> k" "k \<le> b_zhigh b"
  shows "\<exists>w\<in>set (stencil_1ts_invalidate nx ny b). w div 8 = unat (Index3D nx ny i j k) div 8"
proof -
  have nn: "0 \<le> i" "0 \<le> j" "0 \<le> k" "0 \<le> b_xlow b - 1" using assms(2-8) by (auto simp: box_inside_def)
  obtain x y z x0 where n: "i = int x" "j = int y" "k = int z" "b_xlow b - 1 = int x0"
    using nn nonneg_int_cases by metis
  let ?addr = "unat (Index3D nx ny (int x0) (int y) (int z))" let ?n = "nat (b_xhigh b - b_xlow b) + 2"
  have "x0 \<le> x" "x < x0 + ?n" "x < unat nx" "y < unat ny" "z < Z"
    using assms(2-8) n by (auto simp: box_inside_def simp del: of_nat_unat)
  from row_covered [OF assms(1) this refl] obtain w where
    w: "w \<in> set (line_walk ?addr (?addr + ?n))" "w div 8 = unat (Index3D nx ny i j k) div 8" using n by auto
  have "w \<in> set (stencil_1ts_invalidate nx ny b)"
    unfolding stencil_1ts_invalidate_def set_concat set_map UN_iff Let_def image_image
    using w(1) assms(5-8) n by (intro bexI [of _ k] bexI [of _ j]) (auto simp: add.assoc)
  then show ?thesis using w(2) by blast
qed

text \<open>After the update of a box its write-back and its invalidation follow in the same phase.\<close>

lemma phase_ops_order:
  assumes "b \<in> set bs" "RTM_SetWritebackStrategy strat = Inr fl" "strat \<noteq> 4"
  shows "\<exists>pre post. phase_ops fl False bs = pre @ OpStencil b # post \<and> OpWriteback b \<in> set post \<and> OpInvalidate b \<in> set post"
proof -
  obtain us vs where bs: "bs = us @ b # vs" using assms(1) by (metis in_set_conv_decomp)
  have fl: "TCMM_WRB_EAGER fl \<or> TCMM_WRB_LAZY fl" "TCMM_INV_EAGER fl \<or> TCMM_INV_LAZY fl"
    using assms(2,3) by (auto simp: RTM_SetWritebackStrategy_def split: if_splits)
  let ?one = "\<lambda>b. OpStencil b # (if TCMM_WRB_EAGER fl \<and> \<not> False then [OpWriteback b] else []) @
       (if TCMM_INV_EAGER fl \<and> \<not> False then [OpInvalidate b] else [])"
  let ?lazy = "if \<not> False \<and> (TCMM_WRB_LAZY fl \<or> TCMM_INV_LAZY fl)
      then concat (map (\<lambda>b. (if TCMM_WRB_LAZY fl then [OpWriteback b] else []) @
             (if TCMM_INV_LAZY fl then [OpInvalidate b] else [])) bs) else []"
  let ?post = "(if TCMM_WRB_EAGER fl then [OpWriteback b] else []) @ (if TCMM_INV_EAGER fl then [OpInvalidate b] else []) @
      concat (map ?one vs) @ ?lazy"
  have "phase_ops fl False bs = concat (map ?one us) @ OpStencil b # ?post"
    unfolding phase_ops_def bs by simp
  moreover have "OpWriteback b \<in> set ?post" "OpInvalidate b \<in> set ?post" using fl by (auto simp: bs)
  ultimately show ?thesis by blast
qed

lemma phase_ops_none:
  assumes "RTM_SetWritebackStrategy strat = Inr fl" "incoherent \<or> strat = 4"
  shows "phase_ops fl incoherent bs = map OpStencil bs"
proof -
  have one: "concat (map (\<lambda>b. [OpStencil b]) bs) = map OpStencil bs" by (induction bs) simp_all
  show ?thesis
    using assms(2)
  proof
    assume "strat = 4"
    then show ?thesis using assms(1) one by (auto simp: phase_ops_def RTM_SetWritebackStrategy_def)
  qed (simp add: phase_ops_def one)
qed

text \<open>The line of the first element, which every update reads for its factor, holds no inner cell.\<close>

lemma first_line_untouched:
  assumes "grid nx ny Z" "box_inside (unat nx) (unat ny) Z b" "(i, j, k) \<in> set (box_cells b)"
  shows "unat (Index3D nx ny i j k) div 8 \<noteq> 0"
proof -
  have in1: "b_xlow b \<le> i" "i < b_xhigh b" "b_ylow b \<le> j" "j < b_yhigh b" "b_zlow b \<le> k" "k < b_zhigh b"
    using assms(3) by (simp_all add: mem_box_cells)
  then have low: "1 \<le> i" "1 \<le> j" "1 \<le> k" and high: "i + 1 < int (unat nx)" "j + 1 < int (unat ny)" "k < int Z"
    using assms(2) unfolding box_inside_def by linarith+
  obtain x y z where n: "i = int x" "j = int y" "k = int z" using low by (metis nonneg_int_cases order_trans zero_le_one)
  have "1 \<le> x" "1 \<le> y" "1 \<le> z" "x + 1 < unat nx" "y + 1 < unat ny" "z < Z"
    using low high unfolding n by linarith+
  then have "3 \<le> unat nx" "4 \<le> y + unat ny * z" "x < unat nx" "y < unat ny" "z < Z" "1 \<le> x"
    using mult_le_mono [of 3 "unat ny" 1 z] by linarith+
  moreover from this have "3 * 4 \<le> unat nx * (y + unat ny * z)" by (intro mult_le_mono)
  ultimately have "8 \<le> unat (Index3D nx ny i j k)" unfolding n by (simp add: Index3D_nat [OF assms(1)])
  then show ?thesis by simp
qed

text \<open>
  C26: the cache maintenance of the stencil covers its accesses. Unless the strategy is the one
  without maintenance or the incoherent allocator is on, every update of a box by a thread is
  followed, before the barrier, by a write-back that names the line of every cell stored and by an
  invalidation that names the lines of every updated cell and of its six neighbours (lines of eight
  elements of an array that is aligned to a line). The only other element an update reads is the first
  one of the array, whose line need not be named: no thread stores to it. With that strategy or
  allocator the phase consists of the updates alone.
\<close>

theorem maintenance_covers:
  assumes "stencil_setup (nx, ny, nz) (bx, by, bz) b1 b2 threads s = Inr (cf, s')"
    and "bounds_room MAX_SUPPORTED_THREADS s"
    and "2 \<le> unat nx" and "unat nx < 2 ^ 31" and "2 \<le> unat ny" and "unat ny < 2 ^ 31"
    and "2 \<le> unat nz" and "unat nz < 2 ^ 31" and "unat nx * unat ny * unat nz < 2 ^ 32"
    and "RTM_SetWritebackStrategy strat = Inr fl"
    and "t < unat threads" and "b \<in> set (thread_boxes cf s' t)" and "(i, j, k) \<in> set (box_cells b)"
    and "(di, dj, dk) \<in> {(0, 0, 0), (1, 0, 0), (- 1, 0, 0), (0, 1, 0), (0, - 1, 0), (0, 0, 1), (0, 0, - 1)}"
  shows "(if incoherent \<or> strat = 4 then phase_ops fl incoherent (thread_boxes cf s' t) = map OpStencil (thread_boxes cf s' t)
     else \<exists>pre post. phase_ops fl incoherent (thread_boxes cf s' t) = pre @ OpStencil b # post \<and>
       OpWriteback b \<in> set post \<and> OpInvalidate b \<in> set post) \<and>
    (\<exists>w\<in>set (stencil_1ts_writeback nx ny b). w div 8 = unat (Index3D nx ny i j k) div 8) \<and>
    (\<exists>w\<in>set (stencil_1ts_invalidate nx ny b). w div 8 = unat (Index3D nx ny (i + di) (j + dj) (k + dk)) div 8) \<and>
    unat (Index3D nx ny i j k) div 8 \<noteq> 0"
proof -
  have r: "ready threads cf s'" "c_nx cf = nx" "c_ny cf = ny" "c_nz cf = nz" using setup_ready [OF assms(1-8)] by auto
  have g: "grid nx ny (unat nz)" using assms(9) by (simp add: grid_def)
  have b: "box_inside (unat nx) (unat ny) (unat nz) b" using thread_boxes_inside [OF r(1) assms(11,12)] r(2-4) by simp
  have "b_xlow b - 1 \<le> i + di" "i + di \<le> b_xhigh b" "b_ylow b - 1 \<le> j + dj" "j + dj \<le> b_yhigh b"
    "b_zlow b - 1 \<le> k + dk" "k + dk \<le> b_zhigh b"
    using assms(13,14) by (auto simp: mem_box_cells)
  from invalidate_covers_cell [OF g b this] show ?thesis
    using phase_ops_order [OF assms(12,10)] phase_ops_none [OF assms(10)] writeback_covers_cell [OF g b assms(13)]
      first_line_untouched [OF g b assms(13)] by auto
qed

theorem maintenance_covers_witness:
  "\<exists>cf s' fl t b. stencil_setup (6, 6, 6) (2, 2, 1) 0 1 2 zero_bounds = Inr (cf, s') \<and>
     RTM_SetWritebackStrategy 1 = Inr fl \<and> t < 2 \<and> b \<in> set (thread_boxes cf s' t) \<and> (3, 2, 4) \<in> set (box_cells b) \<and>
     (\<exists>pre post. phase_ops fl False (thread_boxes cf s' t) = pre @ OpStencil b # post \<and>
       OpWriteback b \<in> set post \<and> OpInvalidate b \<in> set post) \<and>
     (\<exists>w\<in>set (stencil_1ts_writeback 6 6 b). w div 8 = unat (Index3D 6 6 3 2 4) div 8) \<and>
     (\<exists>w\<in>set (stencil_1ts_invalidate 6 6 b). w div 8 = unat (Index3D 6 6 (3 + 0) (2 + 0) (4 + - 1)) div 8)"
proof -
  obtain cf s' where cf: "stencil_setup (6, 6, 6) (2, 2, 1) 0 1 2 zero_bounds = Inr (cf, s')" using small_setup by blast
  have room: "bounds_room MAX_SUPPORTED_THREADS zero_bounds" by (rule zero_bounds_room) simp
  have w: "2 \<le> unat (6 :: u32)" "unat (6 :: u32) < 2 ^ 31" "unat (6 :: u32) * unat (6 :: u32) * unat (6 :: u32) < 2 ^ 32"
    by simp_all
  have r: "ready 2 cf s'" "c_nx cf = 6" "c_ny cf = 6" "c_nz cf = 6"
    using setup_ready [OF cf room w(1,2) w(1,2) w(1,2)] by auto
  obtain t where t: "t < unat (2 :: u32)" "(int 3, int 2, int 4) \<in> set (thread_cells cf s' t)"
    using all_cells_nat [OF r(1), of 3 2 4] r(2-4) by auto
  then obtain b where b: "b \<in> set (thread_boxes cf s' t)" "(3, 2, 4) \<in> set (box_cells b)"
    by (auto simp: thread_cells_def)
  obtain fl where fl: "RTM_SetWritebackStrategy 1 = Inr fl" by (simp add: RTM_SetWritebackStrategy_def)
  have d: "(0, 0, - 1) \<in> {(0, 0, 0), (1, 0, 0), (- 1, 0, 0), (0, 1, 0), (0, - 1, 0), (0, 0, 1), (0 :: int, 0 :: int, - 1 :: int)}"
    by simp
  from maintenance_covers [OF cf room w(1,2) w(1,2) w(1,2) w(3) fl t(1) b d, of False] show ?thesis
    using cf fl t(1) b by (intro exI [of _ cf] exI [of _ s'] exI [of _ fl] exI [of _ t] exI [of _ b]) simp
qed

end
