(* ===== verification/Task_Worker.thy ===== *)
theory Task_Worker
  imports Task_Types
begin

text \<open>
  What the benchmarks that take their work from the task queue share: the loops that count how
  often a size can be halved, the loop of a worker over the results of its dequeues, and the
  interface of a phase whose tasks may be run in any order.
\<close>

section \<open>Sizes\<close>

text \<open>The number of halvings of a block size: \<open>while(bxtmp) { sx++; bxtmp >>= 1; }\<close>.\<close>

lemma unat_halved: "w \<noteq> 0 \<Longrightarrow> unat (w div 2) < unat w" for w :: u32
  using unat_gt_0 [of w] by (simp add: unat_div)

function count_shift :: "u32 \<Rightarrow> u32 \<Rightarrow> u32" where
  "count_shift tmp s = (if tmp = 0 then s else count_shift (drop_bit 1 tmp) (s + 1))"
  by auto

termination count_shift
  by (relation "measure (\<lambda>(tmp, s). unat tmp)") (simp_all add: drop_bit_eq_div unat_halved)

declare count_shift.simps [simp del]

definition MIN_u32 :: "u32 \<Rightarrow> u32 \<Rightarrow> u32" where
  "MIN_u32 x y = (if x > y then y else x)"

lemma drop_bit_exp: "Suc k < 32 \<Longrightarrow> drop_bit 1 (2 ^ Suc k :: u32) = 2 ^ k"
  by (rule bit_word_eqI) (auto simp: bit_simps)

lemma exp_neq_0: "k < 32 \<Longrightarrow> (2 ^ k :: u32) \<noteq> 0"
  by (simp add: exp_eq_zero_iff)

lemma count_shift_exp: "k < 32 \<Longrightarrow> count_shift (drop_bit 1 (2 ^ k)) s = s + of_nat k"
proof (induction k arbitrary: s)
  case 0
  show ?case by (subst count_shift.simps) simp
next
  case (Suc k)
  then show ?case using exp_neq_0 [of k]
    by (subst drop_bit_exp, simp) (subst count_shift.simps, simp add: ac_simps)
qed

lemma div_block: "m div k = q \<longleftrightarrow> q * k \<le> m \<and> m < q * k + k" if "0 < k" for m k q :: nat
proof
  assume "m div k = q"
  then show "q * k \<le> m \<and> m < q * k + k"
    using div_times_less_eq_dividend [of m k] dividend_less_times_div [OF that, of m] by (auto simp: mult.commute)
next
  assume "q * k \<le> m \<and> m < q * k + k"
  then show "m div k = q" by (intro div_nat_eqI) (simp_all add: algebra_simps)
qed

lemma MIN_less: "w < MIN_u32 m n \<longleftrightarrow> w < m \<and> w < n"
  by (auto simp: MIN_u32_def)

lemma unat_exp: "a < 32 \<Longrightarrow> unat (2 ^ a :: u32) = 2 ^ a"
  using unat_of_nat_u32 [of "2 ^ a"] power_strict_increasing [of a 32 "2 :: nat"] by simp

lemma unat_of_nat_shift: "a < 32 \<Longrightarrow> unat (of_nat a :: u32) = a"
  by (rule unat_of_nat_u32) simp

lemma unat_of_nat_below: "n < unat w \<Longrightarrow> unat (of_nat n :: u32) = n" for w :: u32
  using unat_u32_less [of w] by (intro unat_of_nat_u32) simp

text \<open>The values of an unsigned loop variable.\<close>

definition u32_range :: "u32 \<Rightarrow> u32 \<Rightarrow> u32 list" where
  "u32_range lo hi = map of_nat [unat lo..<unat hi]"

lemma u32_range_set: "set (u32_range lo hi) = {w. lo \<le> w \<and> w < hi}"
proof -
  have "w \<in> set (u32_range lo hi)" if "lo \<le> w" "w < hi" for w
    using that by (auto simp: u32_range_def word_le_nat_alt word_less_nat_alt image_iff intro!: bexI [of _ "unat w"])
  then show ?thesis
    by (auto simp: u32_range_def word_le_nat_alt word_less_nat_alt unat_of_nat_below)
qed

lemma u32_range_distinct: "distinct (u32_range lo hi)"
  unfolding u32_range_def distinct_map
  by (auto intro!: inj_on_inverseI [where g = unat] unat_of_nat_below)

section \<open>The loop of a worker\<close>

text \<open>
  The loop on the results of the dequeues. It is left at \<open>TQ_RET_SYNC\<close>; a list that ends before
  that leaves the worker in the loop, which the first component tells.
\<close>

fun dequeue_loop ::
  "(tq_task_desc \<Rightarrow> 's \<Rightarrow> 's c_result) \<Rightarrow> (tq_ret_type \<times> tq_task_desc) list \<Rightarrow> 's \<Rightarrow> (bool \<times> 's) c_result" where
  "dequeue_loop body [] s = Inr (False, s)"
| "dequeue_loop body ((retval, tdesc) # ds) s =
     (if retval = TQ_RET_BLOCK then dequeue_loop body ds s
      else if retval = TQ_RET_SYNC then Inr (True, s)
      else if retval \<noteq> TQ_RET_SUCCESS then Inl Aborted
      else bnd (body tdesc s) (dequeue_loop body ds))"

text \<open>The numbers of the tasks among the results of a worker's dequeues.\<close>

fun delivered :: "(tq_ret_type \<times> tq_task_desc) list \<Rightarrow> u32 list" where
  "delivered [] = []"
| "delivered ((r, d) # ds) = (if r = TQ_RET_SUCCESS then td_begin d # delivered ds else delivered ds)"

lemma dequeue_loop_tasks:
  assumes "\<forall>(r, d) \<in> set ds. r = TQ_RET_SUCCESS \<or> r = TQ_RET_BLOCK"
  shows "dequeue_loop (\<lambda>d. body (td_begin d)) (ds @ [(TQ_RET_SYNC, d0)]) s =
           bnd (for_list (delivered ds) body s) (\<lambda>s. Inr (True, s))"
  using assms
proof (induction ds arbitrary: s)
  case (Cons x ds)
  obtain r d where x: "x = (r, d)" by (cases x)
  have "dequeue_loop (\<lambda>d. body (td_begin d)) (ds @ [(TQ_RET_SYNC, d0)]) =
      (\<lambda>s. bnd (for_list (delivered ds) body s) (\<lambda>s. Inr (True, s)))"
    using Cons by (simp add: fun_eq_iff)
  then show ?case using Cons.prems by (auto simp: x bnd_assoc)
qed simp

section \<open>Tasks in any order\<close>

text \<open>
  The interface of a phase: \<open>done_with S\<close> is the state after the tasks of \<open>S\<close>, and a task that has not
  run yet can run next, whatever the order of the others was.
\<close>

locale order_free =
  fixes done_with :: "nat set \<Rightarrow> 's"
    and body :: "nat \<Rightarrow> 's \<Rightarrow> 's c_result"
    and n :: nat
  assumes task_law: "S \<subseteq> {..<n} \<Longrightarrow> t < n \<Longrightarrow> t \<notin> S \<Longrightarrow> body t (done_with S) = Inr (done_with (insert t S))"
begin

lemma some_order: "distinct ts \<Longrightarrow> set ts \<inter> S = {} \<Longrightarrow> set ts \<union> S \<subseteq> {..<n} \<Longrightarrow>
  for_list ts body (done_with S) = Inr (done_with (set ts \<union> S))"
proof (induction ts arbitrary: S)
  case (Cons t ts)
  have "for_list ts body (done_with (insert t S)) = Inr (done_with (set ts \<union> insert t S))"
    using Cons.prems by (intro Cons.IH) auto
  then show ?case using Cons.prems task_law [of S t] by (simp add: insert_commute)
qed simp

lemma any_order: "distinct ts \<Longrightarrow> set ts = {..<n} \<Longrightarrow> for_list ts body (done_with {}) = Inr (done_with {..<n})"
  using some_order [of ts "{}"] by simp

end

end
