(* ===== verification/March.thy ===== *)
theory March
  imports Complex_Main March_Tables Task_Worker
begin

text \<open>
  The marching cubes benchmark (benchmarks/march/march.c): the globals set by \<open>main\<close>, the samples of
  the grid, one cube on floating point and on whole coordinates, and the sequential sweep. The arithmetic of
  \<open>float\<close> is an argument; the theorem on the position of the vertices instantiates it with exact
  arithmetic in an ordered field. An array of the stack holds \<open>None\<close> where nothing was stored, and
  a read of it is a fault.
\<close>

section \<open>The state\<close>

record 'f march_arith =
  ma_add :: "'f \<Rightarrow> 'f \<Rightarrow> 'f"
  ma_sub :: "'f \<Rightarrow> 'f \<Rightarrow> 'f"
  ma_mul :: "'f \<Rightarrow> 'f \<Rightarrow> 'f"
  ma_div :: "'f \<Rightarrow> 'f \<Rightarrow> 'f"
  ma_eq :: "'f \<Rightarrow> 'f \<Rightarrow> bool"
  ma_le :: "'f \<Rightarrow> 'f \<Rightarrow> bool"
  ma_of_int :: "int \<Rightarrow> 'f"
  ma_half :: 'f
  ma_to_u32 :: "'f \<Rightarrow> u32 c_result"

text \<open>
  The globals that \<open>main\<close> sets before the workers start. The pointers of \<open>data\<close> are offsets
  into \<open>datamat\<close>.
\<close>

record 'f march_grid =
  g_nx :: u32
  g_ny :: u32
  g_nz :: u32
  g_bx :: u32
  g_by :: u32
  g_bz :: u32
  g_sx :: u32
  g_sy :: u32
  g_sz :: u32
  g_datamat :: "'f list"
  g_data :: "nat list list"
  g_target :: 'f

text \<open>The output array and every thread's position in it, as offsets into the array.\<close>

record 'f march_out =
  o_outdata :: "'f list"
  o_triangles :: "nat list"
  o_trianglePtrs :: "nat list"

section \<open>One cube\<close>

definition fGetOffset :: "'f march_arith \<Rightarrow> 'f \<Rightarrow> 'f \<Rightarrow> 'f \<Rightarrow> 'f" where
  "fGetOffset fo fValue1 fValue2 fValueDesired =
     (let fDelta = ma_sub fo fValue2 fValue1 in
      if ma_eq fo fDelta (ma_of_int fo 0) then ma_half fo
      else ma_div fo (ma_sub fo fValueDesired fValue1) fDelta)"

definition fGridSample :: "'f march_grid \<Rightarrow> u32 \<Rightarrow> u32 \<Rightarrow> u32 \<Rightarrow> 'f c_result" where
  "fGridSample g fX fY fZ =
     bnd (rd (g_data g) (unat fZ)) (\<lambda>plane.
     bnd (rd plane (unat fX)) (\<lambda>row.
     rd (g_datamat g) (row + unat fY)))"

text \<open>The bit mask of the corners inside the surface: the loop over \<open>iVertexTest\<close>.\<close>

definition flag_index :: "'f march_arith \<Rightarrow> 'f \<Rightarrow> 'f list \<Rightarrow> nat \<Rightarrow> int" where
  "flag_index fo target vals n =
     foldl (\<lambda>f i. if ma_le fo (vals ! i) target then f OR push_bit i 1 else f) 0 [0..<n]"

text \<open>
  The loop over \<open>iEdge\<close>: the vertex of every flagged edge is stored. The argument \<open>put\<close> computes a
  coordinate of the vertex from the base coordinate, the offset of the corner and the direction.
\<close>

definition edge_step ::
  "'f march_arith \<Rightarrow> 'f \<Rightarrow> ('f \<Rightarrow> 'f \<Rightarrow> 'f) \<Rightarrow> 'f \<times> 'f \<times> 'f \<Rightarrow> 'f list \<Rightarrow> int \<Rightarrow> nat \<Rightarrow>
   ('f \<times> 'f \<times> 'f) option list \<Rightarrow> ('f \<times> 'f \<times> 'f) option list c_result" where
  "edge_step fo target put pos afCubeValue iEdgeFlags iEdge vs =
     (if iEdgeFlags AND push_bit iEdge 1 = 0 then Inr vs
      else bnd (rd a2iEdgeConnection iEdge) (\<lambda>(c0, c1).
           bnd (rd afCubeValue c0) (\<lambda>v0.
           bnd (rd afCubeValue c1) (\<lambda>v1.
           bnd (rd a2fVertexOffset c0) (\<lambda>(ox, oy, oz).
           bnd (rd a2fEdgeDirection iEdge) (\<lambda>(dx, dy, dz).
             let fOffset = fGetOffset fo v0 v1 target;
                 coord = (\<lambda>f corner d. put f (ma_add fo (ma_of_int fo corner) (ma_mul fo fOffset (ma_of_int fo d))))
             in wr vs iEdge (Some (coord (fst pos) ox dx, coord (fst (snd pos)) oy dy,
                                   coord (snd (snd pos)) oz dz))))))))"

definition edge_vertices ::
  "'f march_arith \<Rightarrow> 'f \<Rightarrow> ('f \<Rightarrow> 'f \<Rightarrow> 'f) \<Rightarrow> 'f \<times> 'f \<times> 'f \<Rightarrow> 'f list \<Rightarrow> int \<Rightarrow> ('f \<times> 'f \<times> 'f) option list c_result" where
  "edge_vertices fo target put pos afCubeValue iEdgeFlags =
     for_list [0..<12] (edge_step fo target put pos afCubeValue iEdgeFlags) (replicate 12 None)"

definition emit :: "nat \<Rightarrow> 'f \<Rightarrow> 'f march_out \<Rightarrow> 'f march_out c_result" where
  "emit thread v out =
     bnd (rd (o_trianglePtrs out) thread) (\<lambda>p.
     bnd (wr (o_outdata out) p v) (\<lambda>od.
     Inr (out\<lparr>o_outdata := od, o_trianglePtrs := (o_trianglePtrs out)[thread := p + 1]\<rparr>)))"

definition emit_vertex ::
  "nat \<Rightarrow> ('f \<times> 'f \<times> 'f) option list \<Rightarrow> int \<Rightarrow> 'f march_out \<Rightarrow> 'f march_out c_result" where
  "emit_vertex thread vs iVertex out =
     bnd (if iVertex < 0 then Inl OutOfBounds else rd vs (nat iVertex)) (\<lambda>v.
       case v of None \<Rightarrow> Inl Uninitialised
       | Some (x, y, z) \<Rightarrow> for_list [x, y, z] (emit thread) out)"

text \<open>The loop over \<open>iTriangle\<close>, from \<open>i\<close> with \<open>n\<close> rounds left.\<close>

fun draw_triangles ::
  "nat \<Rightarrow> ('f \<times> 'f \<times> 'f) option list \<Rightarrow> int list \<Rightarrow> nat \<Rightarrow> nat \<Rightarrow> 'f march_out \<Rightarrow> 'f march_out c_result" where
  "draw_triangles thread vs row i 0 out = Inr out"
| "draw_triangles thread vs row i (Suc n) out =
     bnd (rd row (3 * i)) (\<lambda>first.
       if first < 0 then Inr out
       else bnd (for_list [0..<3] (\<lambda>iCorner out.
                   bnd (rd row (3 * i + iCorner)) (\<lambda>iVertex. emit_vertex thread vs iVertex out)) out)
                (draw_triangles thread vs row (i + 1) n))"

text \<open>The part that both functions share from the sampled corners on.\<close>

definition march_cube ::
  "'f march_arith \<Rightarrow> 'f march_grid \<Rightarrow> nat \<Rightarrow> ('f \<Rightarrow> 'f \<Rightarrow> 'f) \<Rightarrow> 'f \<times> 'f \<times> 'f \<Rightarrow> 'f list \<Rightarrow>
   'f march_out \<Rightarrow> 'f march_out c_result" where
  "march_cube fo g thread put pos afCubeValue out =
     (let iFlagIndex = flag_index fo (g_target g) afCubeValue 8 in
      bnd (rd aiCubeEdgeFlags (nat iFlagIndex)) (\<lambda>iEdgeFlags.
      if iEdgeFlags = 0 then Inr out
      else bnd (edge_vertices fo (g_target g) put pos afCubeValue iEdgeFlags) (\<lambda>asEdgeVertex.
           bnd (rd a2iTriangleConnectionTable (nat iFlagIndex)) (\<lambda>row.
           draw_triangles thread asEdgeVertex row 0 5 out))))"

definition vMarchCubeGrid ::
  "'f march_arith \<Rightarrow> 'f march_grid \<Rightarrow> nat \<Rightarrow> u32 \<Rightarrow> u32 \<Rightarrow> u32 \<Rightarrow> 'f march_out \<Rightarrow> 'f march_out c_result" where
  "vMarchCubeGrid fo g thread fX fY fZ out =
     bnd (c_map (\<lambda>(ox, oy, oz). fGridSample g (fX + ox) (fY + oy) (fZ + oz)) a2uVertexOffset)
       (\<lambda>afCubeValue.
         march_cube fo g thread (ma_add fo)
           (ma_of_int fo (uint fX), ma_of_int fo (uint fY), ma_of_int fo (uint fZ)) afCubeValue out)"

text \<open>
  The same on floating point coordinates: the arguments of \<open>fGridSample\<close> are converted to
  \<open>unsigned int\<close>.
\<close>

definition vMarchCube1 ::
  "'f march_arith \<Rightarrow> 'f march_grid \<Rightarrow> nat \<Rightarrow> 'f \<Rightarrow> 'f \<Rightarrow> 'f \<Rightarrow> 'f \<Rightarrow> 'f march_out \<Rightarrow> 'f march_out c_result" where
  "vMarchCube1 fo g thread fX fY fZ fScale out =
     bnd (c_map (\<lambda>(ox, oy, oz).
             let coord = (\<lambda>f corner. ma_to_u32 fo (ma_add fo f (ma_mul fo (ma_of_int fo corner) fScale))) in
             bnd (coord fX ox) (\<lambda>x. bnd (coord fY oy) (\<lambda>y. bnd (coord fZ oz) (\<lambda>z. fGridSample g x y z))))
           a2fVertexOffset)
       (\<lambda>afCubeValue.
         march_cube fo g thread (\<lambda>f d. ma_add fo f (ma_mul fo d fScale)) (fX, fY, fZ) afCubeValue out)"

text \<open>
  The sequential sweep. The loop variables are \<open>int\<close> and are compared as \<open>unsigned int\<close>: a loop
  over more than \<open>2 ^ 31 - 1\<close> values ends in a signed overflow.
\<close>

definition int_loop :: "u32 \<Rightarrow> (nat \<Rightarrow> 's \<Rightarrow> 's c_result) \<Rightarrow> 's \<Rightarrow> 's c_result" where
  "int_loop n body s =
     (if n < 0x80000000 then for_list [0..<unat n] body s
      else bnd (for_list [0..<2 ^ 31] body s) (\<lambda>_. Inl IntOverflow))"

definition vMarchingCubes :: "'f march_arith \<Rightarrow> 'f march_grid \<Rightarrow> nat \<Rightarrow> 'f march_out \<Rightarrow> 'f march_out c_result" where
  "vMarchingCubes fo g thread =
     int_loop (g_nx g - 1) (\<lambda>iX.
     int_loop (g_ny g - 1) (\<lambda>iY.
     int_loop (g_nz g - 1) (\<lambda>iZ.
       vMarchCube1 fo g thread (ma_of_int fo (int iX)) (ma_of_int fo (int iY)) (ma_of_int fo (int iZ))
         (ma_of_int fo 1))))"

section \<open>The setup in main\<close>

definition data_rows :: "u32 \<Rightarrow> u32 \<Rightarrow> u32 \<Rightarrow> nat list list" where
  "data_rows nx ny nz =
     map (\<lambda>i. map (\<lambda>j. unat (nx * ny * of_nat i) + unat (nx * of_nat j)) [0..<unat nx]) [0..<unat nz]"

text \<open>
  The grid from the three sizes, the block sizes, the values read from the file and the target
  value.
\<close>

definition march_setup :: "u32 \<Rightarrow> u32 \<Rightarrow> u32 \<Rightarrow> u32 \<Rightarrow> u32 \<Rightarrow> u32 \<Rightarrow> 'f list \<Rightarrow> 'f \<Rightarrow> 'f march_grid" where
  "march_setup nx ny nz bx by bz values target =
     \<lparr>g_nx = nx, g_ny = ny, g_nz = nz, g_bx = bx, g_by = by, g_bz = bz,
      g_sx = count_shift (drop_bit 1 bx) 0, g_sy = count_shift (drop_bit 1 by) 0,
      g_sz = count_shift (drop_bit 1 bz) 0,
      g_datamat = values, g_data = data_rows nx ny nz, g_target = target\<rparr>"

text \<open>The output array is divided evenly: \<open>256/4*1024/threads*1024\<close> values per thread.\<close>

definition march_out_setup :: "nat \<Rightarrow> 'f list \<Rightarrow> 'f march_out c_result" where
  "march_out_setup threads od =
     (if threads = 0 then Inl DivByZero
      else let ps = map (\<lambda>i. 256 div 4 * 1024 div threads * 1024 * i) [0..<threads]
           in Inr \<lparr>o_outdata = od, o_triangles = ps, o_trianglePtrs = ps\<rparr>)"

section \<open>What a cube writes\<close>

text \<open>The output array after a thread has stored the values \<open>fs\<close> at its position.\<close>

definition append_floats :: "nat \<Rightarrow> 'f list \<Rightarrow> 'f march_out \<Rightarrow> 'f march_out" where
  "append_floats thread fs out =
     (let p = o_trianglePtrs out ! thread; od = o_outdata out in
      out\<lparr>o_outdata := take p od @ fs @ drop (p + length fs) od,
          o_trianglePtrs := (o_trianglePtrs out)[thread := p + length fs]\<rparr>)"

text \<open>Storing them needs room in the array, which no store checks.\<close>

definition store_floats :: "nat \<Rightarrow> 'f list \<Rightarrow> 'f march_out \<Rightarrow> 'f march_out c_result" where
  "store_floats thread fs out =
     (if fs = [] \<or> o_trianglePtrs out ! thread + length fs \<le> length (o_outdata out)
      then Inr (append_floats thread fs out) else Inl OutOfBounds)"

lemma store_floats_Nil: "store_floats thread [] out = Inr out"
  by (simp add: store_floats_def append_floats_def)

lemma emit_list:
  "thread < length (o_trianglePtrs out) \<Longrightarrow> for_list fs (emit thread) out = store_floats thread fs out"
proof (induction fs arbitrary: out)
  case (Cons f fs)
  define p od where "p = o_trianglePtrs out ! thread" and "od = o_outdata out"
  let ?out = "out\<lparr>o_outdata := od[p := f], o_trianglePtrs := (o_trianglePtrs out)[thread := p + 1]\<rparr>"
  show ?case
  proof (cases "p < length od")
    case True
    have "emit thread f out = Inr ?out"
      using Cons.prems True by (simp add: emit_def c_monad p_def od_def)
    moreover have "for_list fs (emit thread) ?out = store_floats thread fs ?out"
      using Cons.prems by (intro Cons.IH) auto
    moreover have "take (Suc p) (od[p := f]) = take p od @ [f]" using True by (simp add: take_Suc_conv_app_nth)
    moreover have "Suc p \<le> length od" using True by simp
    ultimately show ?thesis
      using Cons.prems by (auto simp: c_monad store_floats_def append_floats_def Let_def p_def od_def)
  next
    case False
    then have "emit thread f out = Inl OutOfBounds"
      using Cons.prems by (simp add: emit_def c_monad wr_out p_def od_def)
    with False show ?thesis by (simp add: c_monad store_floats_def p_def od_def)
  qed
qed (simp add: store_floats_Nil)

text \<open>The corners of a cube in the order of the tables, the edges the surface cuts and their vertices.\<close>

definition corner_value :: "'f march_grid \<Rightarrow> u32 \<Rightarrow> u32 \<Rightarrow> u32 \<Rightarrow> nat \<Rightarrow> 'f" where
  "corner_value g x y z c =
     (case a2uVertexOffset ! c of (ox, oy, oz) \<Rightarrow>
        g_datamat g ! (unat (g_nx g) * unat (g_ny g) * unat (z + oz) + unat (g_nx g) * unat (x + ox) + unat (y + oy)))"

definition cut_edge :: "'f march_arith \<Rightarrow> 'f march_grid \<Rightarrow> u32 \<Rightarrow> u32 \<Rightarrow> u32 \<Rightarrow> nat \<Rightarrow> bool" where
  "cut_edge fo g x y z e \<longleftrightarrow>
     ma_le fo (corner_value g x y z (fst (a2iEdgeConnection ! e))) (g_target g) \<noteq>
     ma_le fo (corner_value g x y z (snd (a2iEdgeConnection ! e))) (g_target g)"

definition edge_vertex ::
  "'f march_arith \<Rightarrow> 'f \<Rightarrow> ('f \<Rightarrow> 'f \<Rightarrow> 'f) \<Rightarrow> 'f \<times> 'f \<times> 'f \<Rightarrow> 'f list \<Rightarrow> nat \<Rightarrow> 'f \<times> 'f \<times> 'f" where
  "edge_vertex fo target put pos vals e =
     (let (c0, c1) = a2iEdgeConnection ! e; (ox, oy, oz) = a2fVertexOffset ! c0;
          (dx, dy, dz) = a2fEdgeDirection ! e;
          coord = (\<lambda>f corner d. put f (ma_add fo (ma_of_int fo corner)
                                (ma_mul fo (fGetOffset fo (vals ! c0) (vals ! c1) target) (ma_of_int fo d))))
      in (coord (fst pos) ox dx, coord (fst (snd pos)) oy dy, coord (snd (snd pos)) oz dz))"

lemma edge_tables:
  "length a2iEdgeConnection = 12" "length a2fEdgeDirection = 12" "length a2fVertexOffset = 8"
  "length a2uVertexOffset = 8"
  by (simp_all add: a2iEdgeConnection_def a2fEdgeDirection_def a2fVertexOffset_def a2uVertexOffset_def)

lemma edge_corners: "e < 12 \<Longrightarrow> fst (a2iEdgeConnection ! e) < 8 \<and> snd (a2iEdgeConnection ! e) < 8"
proof -
  have "list_all (\<lambda>(a, b). a < 8 \<and> b < 8) a2iEdgeConnection" by (simp add: a2iEdgeConnection_def)
  then show "e < 12 \<Longrightarrow> ?thesis" by (auto simp: list_all_length edge_tables case_prod_beta)
qed

lemma edge_vertices_prefix:
  assumes "length vals = 8" "n \<le> 12"
  shows "\<exists>vs. for_list [0..<n] (edge_step fo target put pos vals f) (replicate 12 None) = Inr vs \<and> length vs = 12 \<and>
           (\<forall>i<12. vs ! i = (if i < n \<and> bit f i then Some (edge_vertex fo target put pos vals i) else None))"
  using assms(2)
proof (induction n)
  case 0
  then show ?case by simp
next
  case (Suc n)
  then obtain vs where vs: "for_list [0..<n] (edge_step fo target put pos vals f) (replicate 12 None) = Inr vs" "length vs = 12"
    "\<forall>i<12. vs ! i = (if i < n \<and> bit f i then Some (edge_vertex fo target put pos vals i) else None)"
    by auto
  have u: "(if bit f n then vs[n := Some p] else vs) ! i = (if i = n \<and> bit f n then Some p else vs ! i)"
    if "i < 12" for i p
    using that vs(2) by (auto simp: nth_list_update)
  have n: "n < 12" using Suc.prems by simp
  have "f AND push_bit n 1 = 0 \<longleftrightarrow> \<not> bit f n"
    by (simp add: push_bit_eq_mult and_exp_eq_0_iff_not_bit)
  then have "edge_step fo target put pos vals f n vs = Inr (if bit f n then vs[n := Some (edge_vertex fo target put pos vals n)] else vs)"
    using edge_corners [OF n] n assms(1) vs(2)
    by (auto simp: edge_step_def c_monad edge_tables edge_vertex_def Let_def case_prod_beta)
  with vs u show ?case by (simp add: for_list_append c_monad less_Suc_eq)
qed

lemma edge_vertices_eq:
  assumes "length vals = 8"
  shows "edge_vertices fo target put pos vals f =
           Inr (map (\<lambda>e. if bit f e then Some (edge_vertex fo target put pos vals e) else None) [0..<12])"
  unfolding edge_vertices_def using edge_vertices_prefix [OF assms, of 12 fo target put pos f]
  by (auto intro!: nth_equalityI)

text \<open>The values of a triangle in the order they are stored.\<close>

definition triangle_floats :: "(nat \<Rightarrow> 'f \<times> 'f \<times> 'f) \<Rightarrow> int \<times> int \<times> int \<Rightarrow> 'f list" where
  "triangle_floats pt t =
     (case t of (a, b, c) \<Rightarrow> concat (map (\<lambda>e. case pt (nat e) of (x, y, z) \<Rightarrow> [x, y, z]) [a, b, c]))"

lemma triangle_floats_length [simp]: "length (triangle_floats pt t) = 9"
  by (simp add: triangle_floats_def split: prod.split)

lemma triangles_floats_length: "length (concat (map (triangle_floats pt) ts)) = 9 * length ts"
  by (induction ts) auto

lemma emit_vertex_eq:
  assumes "0 \<le> e" "nat e < length vs" "vs ! nat e = Some (pt (nat e))"
  shows "emit_vertex thread vs e out = for_list (case pt (nat e) of (x, y, z) \<Rightarrow> [x, y, z]) (emit thread) out"
  using assms by (auto simp: emit_vertex_def c_monad split: prod.split)

lemma draw_triangles_eq:
  assumes "length row = 16" "i + n \<le> 5"
    and "list_all (\<lambda>(a, b, c). list_all (\<lambda>e. 0 \<le> e \<and> nat e < length vs \<and> vs ! nat e = Some (pt (nat e))) [a, b, c])
           (row_triangles n (drop (3 * i) row))"
  shows "draw_triangles thread vs row i n out =
           for_list (concat (map (triangle_floats pt) (row_triangles n (drop (3 * i) row)))) (emit thread) out"
  using assms(2,3)
proof (induction n arbitrary: i out)
  case (Suc n)
  let ?a = "row ! (3 * i)" and ?b = "row ! (3 * i + 1)" and ?c = "row ! (3 * i + 2)"
  have bounds: "3 * i + 2 < length row" using assms(1) Suc.prems(1) by simp
  have d: "drop (3 * i) row = ?a # ?b # ?c # drop (3 * (i + 1)) row"
    using bounds Cons_nth_drop_Suc [of "3 * i" row] Cons_nth_drop_Suc [of "3 * i + 1" row]
      Cons_nth_drop_Suc [of "3 * i + 2" row] by (simp add: numeral_eq_Suc)
  show ?case
  proof (cases "?a < 0")
    case True
    then show ?thesis using bounds by (simp add: d c_monad)
  next
    case False
    have v: "emit_vertex thread vs e = for_list (case pt (nat e) of (x, y, z) \<Rightarrow> [x, y, z]) (emit thread)"
      if "e \<in> {?a, ?b, ?c}" for e
      using that Suc.prems(2) False by (intro ext emit_vertex_eq) (auto simp: d)
    have IH: "draw_triangles thread vs row (i + 1) n =
        for_list (concat (map (triangle_floats pt) (row_triangles n (drop (3 * (i + 1)) row)))) (emit thread)"
      using Suc.prems False by (intro ext Suc.IH) (auto simp: d)
    have three: "[0..<3] = [0, 1, 2 :: nat]" by (simp add: upt_rec)
    have corners: "for_list [0..<3] (\<lambda>iCorner out. bnd (rd row (3 * i + iCorner)) (\<lambda>iVertex. emit_vertex thread vs iVertex out)) out
        = for_list (triangle_floats pt (?a, ?b, ?c)) (emit thread) out"
      using bounds
      by (simp add: three c_monad v triangle_floats_def for_list_fun bnd_assoc flip: numeral_2_eq_2)
    show ?thesis
      using bounds False by (simp add: d c_monad corners [simplified] IH [simplified] for_list_append)
  qed
qed simp


lemma flag_index_Suc:
  "flag_index fo target vals (Suc n) =
     (if ma_le fo (vals ! n) target then flag_index fo target vals n OR push_bit n 1 else flag_index fo target vals n)"
  by (simp add: flag_index_def)

lemma flag_index_bit: "bit (flag_index fo target vals n) i \<longleftrightarrow> i < n \<and> ma_le fo (vals ! i) target"
proof (induction n)
  case 0
  show ?case by (simp add: flag_index_def)
next
  case (Suc n)
  then show ?case by (auto simp: flag_index_Suc bit_simps less_Suc_eq)
qed

lemma flag_index_range: "0 \<le> flag_index fo target vals n \<and> flag_index fo target vals n < 2 ^ n"
proof (induction n)
  case 0
  show ?case by (simp add: flag_index_def)
next
  case (Suc n)
  moreover have "(0 :: int) < 2 ^ n" by simp
  ultimately have "flag_index fo target vals n < 2 ^ Suc n" unfolding power_Suc by linarith
  then show ?case
    using Suc OR_upper [of "flag_index fo target vals n" "Suc n" "push_bit n 1"]
    by (simp add: flag_index_Suc push_bit_eq_mult)
qed

text \<open>
  From the sampled corners on: no stored vertex is missing, and the thread appends the vertices of
  the triangles of the state of the corners.
\<close>

lemma march_cube_eq:
  fixes vals :: "'f list" and fo :: "'f march_arith" and g :: "'f march_grid"
  assumes "length vals = 8" "thread < length (o_trianglePtrs out)"
  defines "ts \<equiv> state_triangles (flag_index fo (g_target g) vals 8)"
  shows "march_cube fo g thread put pos vals out =
           store_floats thread (concat (map (triangle_floats (edge_vertex fo (g_target g) put pos vals)) ts)) out"
proof -
  define v where "v = flag_index fo (g_target g) vals 8"
  have v: "0 \<le> v" "v < 256" using flag_index_range [of fo "g_target g" vals 8] by (simp_all add: v_def)
  define f row where "f = aiCubeEdgeFlags ! nat v" and "row = a2iTriangleConnectionTable ! nat v"
  define pt where "pt = edge_vertex fo (g_target g) put pos vals"
  define vs where "vs = map (\<lambda>e. if bit f e then Some (pt e) else None) [0..<12]"
  have row: "row_ok f row" using state_row [OF v] by (simp add: f_def row_def)
  have ts: "ts = row_triangles 5 row" by (simp add: ts_def state_triangles_def row_def flip: v_def)
  have tables: "rd aiCubeEdgeFlags (nat v) = Inr f" "rd a2iTriangleConnectionTable (nat v) = Inr row"
    using v by (simp_all add: c_monad march_tables_length f_def row_def)
  show ?thesis
  proof (cases "f = 0")
    case True
    then have "ts = []" using row by (cases ts) (auto simp: row_ok_def ts)
    then show ?thesis using True tables by (simp add: march_cube_def c_monad store_floats_Nil flip: v_def)
  next
    case False
    have "draw_triangles thread vs row 0 5 out = for_list (concat (map (triangle_floats pt) ts)) (emit thread) out"
      using row by (subst draw_triangles_eq [where pt = pt]) (auto simp: row_ok_def ts vs_def list_all_iff)
    also have "\<dots> = store_floats thread (concat (map (triangle_floats pt) ts)) out"
      using assms(2) by (rule emit_list)
    finally show ?thesis
      using False tables assms(1)
      by (simp add: march_cube_def c_monad edge_vertices_eq flip: v_def) (simp only: vs_def pt_def)
  qed
qed

section \<open>The samples\<close>

text \<open>
  The pointers of \<open>data\<close> stay inside the array of values only if the grid is not wider in x than
  in y: \<open>main\<close> advances by \<open>nx\<close> values for each x where a row has \<open>ny\<close>.
\<close>

definition grid_ok :: "'f march_grid \<Rightarrow> bool" where
  "grid_ok g \<longleftrightarrow>
     unat (g_nx g) * unat (g_ny g) * unat (g_nz g) < 2 ^ 32 \<and> g_nx g \<le> g_ny g \<and>
     length (g_datamat g) = unat (g_nx g) * unat (g_ny g) * unat (g_nz g) \<and>
     g_data g = data_rows (g_nx g) (g_ny g) (g_nz g)"

lemma row_fits: "x < nx \<Longrightarrow> nx \<le> ny \<Longrightarrow> y < ny \<Longrightarrow> nx * x + y < nx * ny" for nx ny x y :: nat
proof -
  assume a: "x < nx" "nx \<le> ny" "y < ny"
  then obtain d where d: "ny = nx + d" using le_Suc_ex by blast
  have "nx * x + nx \<le> nx * nx" using a(1) mult_le_mono2 [of "x + 1" nx nx] by simp
  moreover have "d \<le> nx * d" using a(1) by simp
  ultimately show ?thesis using a(3) unfolding d distrib_left by linarith
qed

lemma grid_index:
  assumes "x < nx" "nx \<le> ny" "y < ny" "z < nz"
  shows "nx * ny * z + nx * x + y < nx * ny * (nz :: nat)"
proof -
  have "nx * ny * z + nx * ny \<le> nx * ny * nz" using assms(4) mult_le_mono2 [of "z + 1" nz "nx * ny"] by simp
  with row_fits [OF assms(1-3)] show ?thesis by linarith
qed

lemma fGridSample_in:
  assumes "grid_ok g" "x < g_nx g" "y < g_ny g" "z < g_nz g"
  shows "fGridSample g x y z =
           Inr (g_datamat g ! (unat (g_nx g) * unat (g_ny g) * unat z + unat (g_nx g) * unat x + unat y))"
proof -
  let ?nx = "unat (g_nx g)" and ?ny = "unat (g_ny g)" and ?nz = "unat (g_nz g)"
  have lt: "unat x < ?nx" "?nx \<le> ?ny" "unat y < ?ny" "unat z < ?nz"
    using assms by (auto simp: grid_ok_def word_less_nat_alt word_le_nat_alt)
  have i: "?nx * ?ny * unat z + ?nx * unat x + unat y < ?nx * ?ny * ?nz" by (rule grid_index [OF lt])
  then have "?nx * ?ny * unat z + ?nx * unat x < 2 ^ 32" using assms(1) by (simp add: grid_ok_def)
  moreover have "?nx * ?ny \<le> ?nx * ?ny * ?nz" using lt(4) by simp
  then have "?nx * ?ny < 2 ^ 32" using assms(1) unfolding grid_ok_def by linarith
  ultimately have "unat (g_nx g * g_ny g * z) = ?nx * ?ny * unat z" "unat (g_nx g * x) = ?nx * unat x"
    by (simp_all add: unat_mult_lem [THEN iffD1])
  then show ?thesis
    using assms(1) lt i by (simp add: fGridSample_def grid_ok_def data_rows_def c_monad)
qed

definition cube_vertex :: "'f march_arith \<Rightarrow> 'f march_grid \<Rightarrow> u32 \<Rightarrow> u32 \<Rightarrow> u32 \<Rightarrow> nat \<Rightarrow> 'f \<times> 'f \<times> 'f" where
  "cube_vertex fo g x y z =
     edge_vertex fo (g_target g) (ma_add fo)
       (ma_of_int fo (uint x), ma_of_int fo (uint y), ma_of_int fo (uint z)) (map (corner_value g x y z) [0..<8])"

definition cube_in :: "'f march_grid \<Rightarrow> u32 \<Rightarrow> u32 \<Rightarrow> u32 \<Rightarrow> bool" where
  "cube_in g x y z \<longleftrightarrow> unat x + 1 < unat (g_nx g) \<and> unat y + 1 < unat (g_ny g) \<and> unat z + 1 < unat (g_nz g)"

lemma next_in: "unat x + 1 < unat n \<Longrightarrow> d = 0 \<or> d = 1 \<Longrightarrow> x + d < n" for x n d :: u32
  by (auto simp: word_less_nat_alt unat_word_ariths intro: le_less_trans [OF mod_less_eq_dividend])

lemma cube_corners:
  assumes "grid_ok g" "cube_in g x y z"
  shows "c_map (\<lambda>(ox, oy, oz). fGridSample g (x + ox) (y + oy) (z + oz)) a2uVertexOffset =
           Inr (map (corner_value g x y z) [0..<8])"
proof -
  let ?v = "\<lambda>(ox, oy, oz). g_datamat g ! (unat (g_nx g) * unat (g_ny g) * unat (z + oz) +
              unat (g_nx g) * unat (x + ox) + unat (y + oy))"
  have "list_all (\<lambda>(ox, oy, oz). (ox = 0 \<or> ox = 1) \<and> (oy = 0 \<or> oy = 1) \<and> (oz = 0 \<or> oz = 1)) a2uVertexOffset"
    by (simp add: a2uVertexOffset_def)
  then have "c_map (\<lambda>(ox, oy, oz). fGridSample g (x + ox) (y + oy) (z + oz)) a2uVertexOffset =
      Inr (map ?v a2uVertexOffset)"
    using assms by (intro c_map_Inr) (auto simp: list_all_iff cube_in_def intro!: fGridSample_in next_in)
  also have "map ?v a2uVertexOffset = map (corner_value g x y z) [0..<8]"
    by (intro nth_equalityI) (simp_all add: edge_tables corner_value_def case_prod_beta)
  finally show ?thesis .
qed

lemma vMarchCubeGrid_eq:
  assumes "grid_ok g" "cube_in g x y z" "thread < length (o_trianglePtrs out)"
  shows "vMarchCubeGrid fo g thread x y z out =
           store_floats thread (concat (map (triangle_floats (cube_vertex fo g x y z))
             (state_triangles (flag_index fo (g_target g) (map (corner_value g x y z) [0..<8]) 8)))) out"
  unfolding vMarchCubeGrid_def cube_corners [OF assms(1,2)] bnd_Inr cube_vertex_def
  using assms(3) by (intro march_cube_eq) simp_all

text \<open>
  C10: One cube. For every arithmetic of \<open>float\<close>, whenever the cube lies in a grid that is not wider
  in x than in y, \<open>vMarchCubeGrid\<close> reads no value out of bounds and no vertex that it has not
  computed, and stores at most five triangles of nine values each from the thread's output pointer
  on. The stores have no check: they succeed and append the triangles exactly when there are none or
  the array \<open>outdata\<close>, which all threads share, has room for all of them behind the pointer;
  otherwise one of them is out of bounds. The vertices of the triangles are those of exactly the
  edges whose end points the surface separates, with the values at the places where \<open>main\<close> put the
  row pointers; no side is used twice in the same direction, and every side that is not shared with a
  triangle of the opposite direction lies on a face of the cube, so that the triangles form an
  oriented surface whose boundary is on the faces.
\<close>

theorem march_cube_triangles:
  assumes "grid_ok g" "cube_in g x y z" "thread < length (o_trianglePtrs out)"
  shows "\<exists>ts. length ts \<le> 5 \<and>
    vMarchCubeGrid fo g thread x y z out =
      (if ts = [] \<or> o_trianglePtrs out ! thread + 9 * length ts \<le> length (o_outdata out)
       then Inr (append_floats thread (concat (map (triangle_floats (cube_vertex fo g x y z)) ts)) out)
       else Inl OutOfBounds) \<and>
    (\<forall>e<12. (\<exists>(a, b, c) \<in> set ts. int e \<in> {a, b, c}) \<longleftrightarrow> cut_edge fo g x y z e) \<and>
    (\<forall>(a, b, c) \<in> set ts. {a, b, c} \<subseteq> {0..11}) \<and>
    distinct (sides ts) \<and> (\<forall>(a, b) \<in> set (sides ts). (b, a) \<in> set (sides ts) \<or> same_face a b)"
proof -
  define vals where "vals = map (corner_value g x y z) [0..<8]"
  define v where "v = flag_index fo (g_target g) vals 8"
  define f row where "f = aiCubeEdgeFlags ! nat v" and "row = a2iTriangleConnectionTable ! nat v"
  define ts where "ts = state_triangles v"
  have v: "0 \<le> v" "v < 256" using flag_index_range [of fo "g_target g" vals 8] by (simp_all add: v_def)
  have ts: "ts = row_triangles 5 row" by (simp add: ts_def state_triangles_def row_def)
  have ok: "row_ok f row" using state_row [OF v] by (simp add: f_def row_def)
  have cut: "bit f e \<longleftrightarrow> cut_edge fo g x y z e" if "e < 12" for e
    using state_flags [OF v that] edge_corners [OF that]
    by (simp add: f_def cut_edge_def v_def flag_index_bit vals_def)
  have range: "{a, b, c} \<subseteq> {0..11}" "bit f (nat a)" "bit f (nat b)" "bit f (nat c)"
    if "(a, b, c) \<in> set ts" for a b c
    using ok that by (auto simp: row_ok_def ts list_all_iff)
  have used: "\<exists>(a, b, c) \<in> set ts. int e \<in> {a, b, c}" if "e < 12" "bit f e" for e
  proof -
    have "int e \<in> set [0..11]" using that(1) by simp
    moreover have "list_all (\<lambda>e. bit f (nat e) \<longrightarrow> list_ex (\<lambda>(a, b, c). e = a \<or> e = b \<or> e = c) ts) [0..11]"
      using ok by (simp only: row_ok_def ts)
    ultimately have "bit f (nat (int e)) \<longrightarrow> list_ex (\<lambda>(a, b, c). int e = a \<or> int e = b \<or> int e = c) ts"
      unfolding list_all_iff by (rule bspec [rotated])
    then have "list_ex (\<lambda>(a, b, c). int e = a \<or> int e = b \<or> int e = c) ts" using that(2) by simp
    then show ?thesis by (auto simp: list_ex_iff case_prod_beta)
  qed
  show ?thesis
  proof (rule exI [of _ ts], intro conjI)
    show "length ts \<le> 5" using row_triangles_length [of 5 row] by (simp add: ts)
    show "vMarchCubeGrid fo g thread x y z out =
        (if ts = [] \<or> o_trianglePtrs out ! thread + 9 * length ts \<le> length (o_outdata out)
         then Inr (append_floats thread (concat (map (triangle_floats (cube_vertex fo g x y z)) ts)) out)
         else Inl OutOfBounds)"
      unfolding vMarchCubeGrid_eq [OF assms] vals_def [symmetric] v_def [symmetric] ts_def [symmetric]
      by (cases ts) (simp_all add: store_floats_def triangles_floats_length del: concat_eq_Nil_conv flip: length_0_conv)
    show "\<forall>e<12. (\<exists>(a, b, c) \<in> set ts. int e \<in> {a, b, c}) \<longleftrightarrow> cut_edge fo g x y z e"
      using used range(2-4) cut by (fastforce simp: case_prod_beta)
    show "\<forall>(a, b, c) \<in> set ts. {a, b, c} \<subseteq> {0..11}" using range(1) by auto
    show "distinct (sides ts)" "\<forall>(a, b) \<in> set (sides ts). (b, a) \<in> set (sides ts) \<or> same_face a b"
      using ok by (auto simp: row_ok_def ts list_all_iff)
  qed
qed

section \<open>Exact arithmetic\<close>

definition exact :: "'f::floor_ceiling march_arith" where
  "exact = \<lparr>ma_add = (+), ma_sub = (-), ma_mul = (*), ma_div = (/), ma_eq = (=), ma_le = (\<le>),
            ma_of_int = of_int, ma_half = 1 / 2,
            ma_to_u32 = (\<lambda>v. if v \<le> - 1 \<or> 2 ^ 32 \<le> v then Inl IntOverflow else Inr (of_int (max 0 \<lfloor>v\<rfloor>)))\<rparr>"

definition corner_pos :: "u32 \<Rightarrow> u32 \<Rightarrow> u32 \<Rightarrow> nat \<Rightarrow> 'f::floor_ceiling \<times> 'f \<times> 'f" where
  "corner_pos x y z c =
     (case a2fVertexOffset ! c of (ox, oy, oz) \<Rightarrow> (of_int (uint x + ox), of_int (uint y + oy), of_int (uint z + oz)))"

definition between :: "'f::floor_ceiling \<Rightarrow> 'f \<times> 'f \<times> 'f \<Rightarrow> 'f \<times> 'f \<times> 'f \<Rightarrow> 'f \<times> 'f \<times> 'f" where
  "between s p q =
     (fst p + s * (fst q - fst p), fst (snd p) + s * (fst (snd q) - fst (snd p)),
      snd (snd p) + s * (snd (snd q) - snd (snd p)))"

lemma edge_direction:
  "e < 12 \<Longrightarrow> a2fEdgeDirection ! e =
     (fst (a2fVertexOffset ! snd (a2iEdgeConnection ! e)) - fst (a2fVertexOffset ! fst (a2iEdgeConnection ! e)),
      fst (snd (a2fVertexOffset ! snd (a2iEdgeConnection ! e))) - fst (snd (a2fVertexOffset ! fst (a2iEdgeConnection ! e))),
      snd (snd (a2fVertexOffset ! snd (a2iEdgeConnection ! e))) - snd (snd (a2fVertexOffset ! fst (a2iEdgeConnection ! e))))"
proof -
  assume "e < 12"
  then have "e = 0 \<or> e = 1 \<or> e = 2 \<or> e = 3 \<or> e = 4 \<or> e = 5 \<or> e = 6 \<or> e = 7 \<or> e = 8 \<or> e = 9 \<or> e = 10 \<or> e = 11"
    by presburger
  then show ?thesis
    by (elim disjE) (simp_all add: a2fEdgeDirection_def a2fVertexOffset_def a2iEdgeConnection_def)
qed

lemma ratio_between:
  fixes a b t :: "'f::linordered_field"
  assumes "(a \<le> t) \<noteq> (b \<le> t)"
  shows "0 \<le> (t - a) / (b - a)" "(t - a) / (b - a) \<le> 1" "a + (t - a) / (b - a) * (b - a) = t"
  using assms by (auto simp: divide_simps not_le)

text \<open>
  The position of a vertex. In exact arithmetic the vertex computed for a cut edge lies on the
  edge, between its two end points, at the place where the value interpolated between the end
  points is the target value.
\<close>

theorem march_vertex_on_edge:
  fixes g :: "'f::floor_ceiling march_grid"
  assumes "e < 12" "cut_edge exact g x y z e"
  shows "\<exists>s. 0 \<le> s \<and> s \<le> 1 \<and>
    cube_vertex exact g x y z e =
      between s (corner_pos x y z (fst (a2iEdgeConnection ! e))) (corner_pos x y z (snd (a2iEdgeConnection ! e))) \<and>
    corner_value g x y z (fst (a2iEdgeConnection ! e)) +
      s * (corner_value g x y z (snd (a2iEdgeConnection ! e)) - corner_value g x y z (fst (a2iEdgeConnection ! e)))
    = g_target g"
proof -
  let ?a = "corner_value g x y z (fst (a2iEdgeConnection ! e))"
    and ?b = "corner_value g x y z (snd (a2iEdgeConnection ! e))" and ?t = "g_target g"
  have cut: "(?a \<le> ?t) \<noteq> (?b \<le> ?t)" using assms(2) by (simp add: cut_edge_def exact_def)
  then have off: "fGetOffset exact ?a ?b ?t = (?t - ?a) / (?b - ?a)"
    by (auto simp: fGetOffset_def exact_def Let_def)
  have "cube_vertex exact g x y z e =
      between ((?t - ?a) / (?b - ?a)) (corner_pos x y z (fst (a2iEdgeConnection ! e)))
        (corner_pos x y z (snd (a2iEdgeConnection ! e)))"
    using edge_corners [OF assms(1)] off
    by (simp add: cube_vertex_def edge_vertex_def edge_direction [OF assms(1)] between_def corner_pos_def
        case_prod_beta Let_def) (simp add: exact_def algebra_simps)
  with ratio_between [OF cut] show ?thesis by blast
qed


definition sample_grid :: "rat march_grid" where
  "sample_grid = march_setup 3 3 2 2 2 2 (map of_nat [0..<18]) 5"

definition sample_out :: "rat march_out" where
  "sample_out = \<lparr>o_outdata = replicate 50 0, o_triangles = [0], o_trianglePtrs = [0]\<rparr>"

lemma sample_grid_ok: "grid_ok sample_grid"
  by (simp add: grid_ok_def sample_grid_def march_setup_def)

lemma sample_cut: "cut_edge exact sample_grid 0 1 0 8"
  by (simp add: cut_edge_def corner_value_def a2iEdgeConnection_def a2uVertexOffset_def sample_grid_def
      march_setup_def exact_def)

theorem march_cube_triangles_witness:
  "(\<exists>ts. ts \<noteq> [] \<and> length ts \<le> 5 \<and>
    vMarchCubeGrid exact sample_grid 0 0 1 0 sample_out =
      Inr (append_floats 0 (concat (map (triangle_floats (cube_vertex exact sample_grid 0 1 0)) ts)) sample_out) \<and>
    (\<forall>e<12. (\<exists>(a, b, c) \<in> set ts. int e \<in> {a, b, c}) \<longleftrightarrow> cut_edge exact sample_grid 0 1 0 e)) \<and>
   vMarchCubeGrid exact sample_grid 0 0 1 0 (sample_out\<lparr>o_trianglePtrs := [45]\<rparr>) = Inl OutOfBounds"
proof -
  have c: "cube_in sample_grid 0 1 0" by (simp add: cube_in_def sample_grid_def march_setup_def)
  have some: "ts \<noteq> []" if "\<forall>e<12. (\<exists>(a, b, c) \<in> set ts. int e \<in> {a, b, c}) \<longleftrightarrow> cut_edge exact sample_grid 0 1 0 e"
    for ts :: "(int \<times> int \<times> int) list"
    using that [rule_format, of 8] sample_cut by auto
  have "thread < length (o_trianglePtrs (sample_out\<lparr>o_trianglePtrs := [p]\<rparr>))" if "thread = 0" for thread p
    using that by simp
  note w = march_cube_triangles [OF sample_grid_ok c this [OF refl], where fo = exact]
  obtain ts where ts: "length ts \<le> 5" "vMarchCubeGrid exact sample_grid 0 0 1 0 sample_out =
      (if ts = [] \<or> 9 * length ts \<le> 50
       then Inr (append_floats 0 (concat (map (triangle_floats (cube_vertex exact sample_grid 0 1 0)) ts)) sample_out)
       else Inl OutOfBounds)"
    "\<forall>e<12. (\<exists>(a, b, c) \<in> set ts. int e \<in> {a, b, c}) \<longleftrightarrow> cut_edge exact sample_grid 0 1 0 e"
    using w [of 0] by (auto simp: sample_out_def)
  obtain us where us: "vMarchCubeGrid exact sample_grid 0 0 1 0 (sample_out\<lparr>o_trianglePtrs := [45]\<rparr>) =
      (if us = [] \<or> 45 + 9 * length us \<le> 50
       then Inr (append_floats 0 (concat (map (triangle_floats (cube_vertex exact sample_grid 0 1 0)) us))
         (sample_out\<lparr>o_trianglePtrs := [45]\<rparr>)) else Inl OutOfBounds)"
    "\<forall>e<12. (\<exists>(a, b, c) \<in> set us. int e \<in> {a, b, c}) \<longleftrightarrow> cut_edge exact sample_grid 0 1 0 e"
    using w [of 45] by (auto simp: sample_out_def)
  have "\<not> 45 + 9 * length us \<le> 50" using some [OF us(2)] by (cases us) auto
  moreover have "9 * length ts \<le> 50" using ts(1) by simp
  ultimately show ?thesis using ts us(1) some [OF us(2)] some [OF ts(3)] by (intro conjI exI [of _ ts]) simp_all
qed

theorem march_vertex_on_edge_witness:
  "\<exists>s. 0 \<le> s \<and> s \<le> 1 \<and>
    cube_vertex exact sample_grid 0 1 0 8 = between s (corner_pos 0 1 0 0) (corner_pos 0 1 0 4)"
proof -
  show ?thesis
    using sample_cut march_vertex_on_edge [of 8 sample_grid 0 1 0] by (simp add: a2iEdgeConnection_def) blast
qed

end
