(* ===== verification/March_Workers.thy ===== *)
theory March_Workers
  imports "HOL-Library.Multiset" March
begin

text \<open>
  The worker threads of the marching cubes benchmark (\<open>marchWorkerThread\<close> of
  benchmarks/march/march.c): the masks and shifts that decode a task, the loop over the results of
  the task queue, and the theorem that the workers together treat every cube of the grid exactly
  once. The results of the queue are an argument; the theories of the task queues show what it
  delivers.
\<close>

section \<open>The worker threads\<close>

text \<open>The mask and the shift for a number of blocks.\<close>

function block_mask :: "u32 \<Rightarrow> u32 \<Rightarrow> u32 \<Rightarrow> u32 \<times> u32" where
  "block_mask tmp m s = (if tmp = 0 then (m - 1, s) else block_mask (drop_bit 1 tmp) (push_bit 1 m) (s + 1))"
  by auto

termination block_mask
  by (relation "measure (\<lambda>(tmp, m, s). unat tmp)") (simp_all add: drop_bit_eq_div unat_halved)

declare block_mask.simps [simp del]

record worker_locals =
  w_numBlocks :: u32
  w_mx :: u32
  w_sx2 :: u32
  w_my :: u32
  w_sy2 :: u32

definition worker_setup :: "'f march_grid \<Rightarrow> worker_locals c_result" where
  "worker_setup g =
     (let numXBlocks = drop_bit (unat (g_sx g)) (g_nx g + (g_bx g - 1));
          numYBlocks = drop_bit (unat (g_sy g)) (g_ny g + (g_by g - 1))
      in if g_bz g = 0 then Inl DivByZero
         else let numZBlocks = (g_nz g + (g_bz g - 1)) div g_bz g;
                  (mx, sx2) = block_mask (drop_bit 1 numXBlocks) 1 0;
                  (my, sy2) = block_mask (drop_bit 1 numYBlocks) 1 0
              in Inr \<lparr>w_numBlocks = numXBlocks * numYBlocks * numZBlocks, w_mx = mx, w_sx2 = sx2,
                      w_my = my, w_sy2 = sy2\<rparr>)"

text \<open>The cubes of a task in the order of its three loops.\<close>

definition box_cubes :: "u32 list \<Rightarrow> u32 list \<Rightarrow> u32 list \<Rightarrow> (u32 \<times> u32 \<times> u32) list" where
  "box_cubes xs ys zs = concat (map (\<lambda>i. concat (map (\<lambda>j. map (\<lambda>k. (i, j, k)) zs) ys)) xs)"

definition task_cubes :: "'f march_grid \<Rightarrow> worker_locals \<Rightarrow> u32 \<Rightarrow> (u32 \<times> u32 \<times> u32) list" where
  "task_cubes g w v3 =
     (let xblocknum = v3 AND w_mx w;
          tmp = drop_bit (unat (w_sx2 w)) v3;
          yblocknum = tmp AND w_my w;
          zblocknum = drop_bit (unat (w_sy2 w)) tmp;
          xmin = push_bit (unat (g_sx g)) xblocknum;
          xmax = MIN_u32 (xmin + g_bx g) (g_nx g - 1);
          ymin = push_bit (unat (g_sy g)) yblocknum;
          ymax = MIN_u32 (ymin + g_by g) (g_ny g - 1);
          zmin = push_bit (unat (g_sz g)) zblocknum;
          zmax = MIN_u32 (zmin + g_bz g) (g_nz g - 1)
      in box_cubes (u32_range xmin xmax) (u32_range ymin ymax) (u32_range zmin zmax))"

text \<open>
  The loop of a worker on the results of its dequeues.
\<close>

definition worker_loop ::
  "'f march_arith \<Rightarrow> 'f march_grid \<Rightarrow> worker_locals \<Rightarrow> nat \<Rightarrow> (tq_ret_type \<times> tq_task_desc) list \<Rightarrow>
   'f march_out \<Rightarrow> (bool \<times> 'f march_out) c_result" where
  "worker_loop fo g w thread =
     dequeue_loop (\<lambda>tdesc.
       for_list (task_cubes g w (td_begin tdesc)) (\<lambda>(i, j, k). vMarchCubeGrid fo g thread i j k))"

definition marchWorkerThread ::
  "'f march_arith \<Rightarrow> 'f march_grid \<Rightarrow> nat \<Rightarrow> (u32 \<Rightarrow> tq_ret_type) \<Rightarrow> (tq_ret_type \<times> tq_task_desc) list \<Rightarrow>
   'f march_out \<Rightarrow> (bool \<times> 'f march_out) c_result" where
  "marchWorkerThread fo g thread rigel_loop dequeues out =
     bnd (worker_setup g) (\<lambda>w.
       if rigel_loop (w_numBlocks w) \<noteq> TQ_RET_SUCCESS then Inl Aborted
       else worker_loop fo g w thread dequeues out)"

section \<open>The sequential sweep\<close>

text \<open>The cubes of the grid in the order of \<open>vMarchingCubes\<close>.\<close>

definition grid_cubes :: "'f march_grid \<Rightarrow> (u32 \<times> u32 \<times> u32) list" where
  "grid_cubes g = box_cubes (u32_range 0 (g_nx g - 1)) (u32_range 0 (g_ny g - 1)) (u32_range 0 (g_nz g - 1))"

lemma for_list_box:
  "for_list (box_cubes xs ys zs) f s = for_list xs (\<lambda>i. for_list ys (\<lambda>j. for_list zs (\<lambda>k. f (i, j, k)))) s"
proof -
  have row: "for_list (map h zs) f = for_list zs (\<lambda>x. f (h x))" for h
    by (simp add: fun_eq_iff for_list_map)
  have inner: "for_list (concat (map (\<lambda>j. map (\<lambda>k. (i, j, k)) zs) ys)) f = for_list ys (\<lambda>j. for_list zs (\<lambda>k. f (i, j, k)))" for i
    by (simp add: fun_eq_iff for_list_concat row)
  show ?thesis by (simp add: box_cubes_def for_list_concat inner)
qed

lemma box_cubes_set: "set (box_cubes xs ys zs) = set xs \<times> set ys \<times> set zs"
  by (auto simp: box_cubes_def)

lemma distinct_concat_map:
  "distinct xs \<Longrightarrow> (\<And>x. x \<in> set xs \<Longrightarrow> distinct (f x)) \<Longrightarrow>
     (\<And>x y. x \<in> set xs \<Longrightarrow> y \<in> set xs \<Longrightarrow> x \<noteq> y \<Longrightarrow> set (f x) \<inter> set (f y) = {}) \<Longrightarrow> distinct (concat (map f xs))"
proof (induction xs)
  case (Cons a xs)
  have "set (f a) \<inter> set (concat (map f xs)) = {}" using Cons.prems(1,3) by fastforce
  moreover have "distinct (concat (map f xs))" using Cons by simp
  ultimately show ?case using Cons.prems(2) by simp
qed simp

lemma box_cubes_distinct: "distinct xs \<Longrightarrow> distinct ys \<Longrightarrow> distinct zs \<Longrightarrow> distinct (box_cubes xs ys zs)"
  unfolding box_cubes_def by (intro distinct_concat_map) (auto simp: distinct_map inj_on_def)

lemma exact_simps [simp]:
  "ma_add exact = (+)" "ma_sub exact = (-)" "ma_mul exact = (*)" "ma_div exact = (/)" "ma_eq exact = (=)"
  "ma_le exact = (\<le>)" "ma_of_int exact = of_int"
  by (simp_all add: exact_def)

lemma exact_to_u32:
  fixes w n :: u32
  assumes "unat w + 1 < unat n" "d = 0 \<or> d = 1"
  shows "ma_to_u32 (exact :: 'f::floor_ceiling march_arith) (of_int (uint w + d)) = Inr (w + of_int d)"
proof -
  have "int (unat w) + d < 2 ^ 32" using assms unat_u32_less [of n] by (auto simp del: of_nat_unat)
  then have "(of_int (uint w + d) :: 'f) < of_int (2 ^ 32)" unfolding of_int_less_iff by simp
  moreover have "0 \<le> uint w + d" using assms(2) by auto
  moreover from this have "(- 1 :: 'f) < of_int (uint w + d)" by (metis less_le_trans neg_less_0_iff_less of_int_0_le_iff zero_less_one)
  ultimately show ?thesis by (simp add: exact_def not_le del: of_int_add) (simp only: of_int_add word_of_int_uint)
qed

lemma vMarchCube1_exact:
  fixes g :: "'f::floor_ceiling march_grid"
  assumes "cube_in g x y z"
  shows "vMarchCube1 exact g thread (of_int (uint x)) (of_int (uint y)) (of_int (uint z)) 1 out =
           vMarchCubeGrid exact g thread x y z out"
proof -
  have put: "(\<lambda>f d. f + d * (1 :: 'f)) = (+)" by (simp add: fun_eq_iff)
  have to: "ma_to_u32 exact (of_int (uint w) :: 'f) = Inr w" "ma_to_u32 exact (of_int (uint w) + 1 :: 'f) = Inr (w + 1)"
    if "unat w + 1 < unat n" for w n :: u32
    using exact_to_u32 [OF that, of 0, where ?'f = 'f] exact_to_u32 [OF that, of 1, where ?'f = 'f] by simp_all
  show ?thesis
    using assms to [of x "g_nx g"] to [of y "g_ny g"] to [of z "g_nz g"]
    by (simp add: vMarchCube1_def vMarchCubeGrid_def a2fVertexOffset_def a2uVertexOffset_def cube_in_def c_monad put)
qed

lemma int_loop_range: "n < 0x80000000 \<Longrightarrow> int_loop n f s = for_list (u32_range 0 n) (\<lambda>i. f (unat i)) s"
  unfolding int_loop_def u32_range_def for_list_map
  by (simp, intro for_list_cong) (simp add: unat_of_nat_below)

text \<open>In exact arithmetic the sequential sweep treats every cube of the grid as the workers do.\<close>

lemma vMarchingCubes_cubes:
  fixes g :: "'f::floor_ceiling march_grid"
  assumes "g_nx g - 1 < 0x80000000" "g_ny g - 1 < 0x80000000" "g_nz g - 1 < 0x80000000"
    and "0 < g_nx g" "0 < g_ny g" "0 < g_nz g"
  shows "vMarchingCubes exact g thread out =
           for_list (grid_cubes g) (\<lambda>(i, j, k). vMarchCubeGrid exact g thread i j k) out"
proof -
  have "i < n - 1 \<Longrightarrow> 0 < n \<Longrightarrow> unat i + 1 < unat n" for i n :: u32
    by (simp add: word_less_nat_alt unat_sub unat_minus_one)
  then have "vMarchCube1 exact g thread (of_int (int (unat i))) (of_int (int (unat j))) (of_int (int (unat k))) 1 =
      vMarchCubeGrid exact g thread i j k"
    if "i \<in> set (u32_range 0 (g_nx g - 1))" "j \<in> set (u32_range 0 (g_ny g - 1))" "k \<in> set (u32_range 0 (g_nz g - 1))" for i j k
    using that assms(4-6) vMarchCube1_exact [of g i j k thread] by (simp add: fun_eq_iff cube_in_def u32_range_set)
  then show ?thesis
    unfolding vMarchingCubes_def grid_cubes_def for_list_box
    by (simp add: int_loop_range [OF assms(1)] int_loop_range [OF assms(2)] int_loop_range [OF assms(3)] cong: for_list_cong)
qed


section \<open>The blocks of the workers\<close>

lemma block_mask_exp: "k < 32 \<Longrightarrow> block_mask (drop_bit 1 (2 ^ k)) m s = (m * 2 ^ k - 1, s + of_nat k)"
proof (induction k arbitrary: m s)
  case 0
  show ?case by (subst block_mask.simps) simp
next
  case (Suc k)
  then show ?case using exp_neq_0 [of k]
    by (subst drop_bit_exp, simp) (subst block_mask.simps, simp add: ac_simps)
qed

text \<open>One axis: a block of \<open>2 ^ a\<close> values holds the positions with its number as quotient.\<close>

lemma axis_block:
  fixes n blk :: u32
  assumes "0 < n" "a < 32" "unat n + 2 ^ a \<le> 2 ^ 32" "unat blk < (unat n + 2 ^ a - 1) div 2 ^ a"
  shows "set (u32_range (push_bit a blk) (MIN_u32 (push_bit a blk + 2 ^ a) (n - 1))) =
           {w. unat w div 2 ^ a = unat blk \<and> w < n - 1}"
proof -
  let ?b = "unat blk" and ?A = "2 ^ a :: nat"
  have n: "0 < unat n" using assms(1) by (simp add: word_less_nat_alt)
  have "(?b + 1) * ?A \<le> unat n + ?A - 1"
    using assms(4) by (metis Suc_eq_plus1 Suc_leI div_times_less_eq_dividend le_trans mult_le_mono1)
  then have le: "?b * ?A + 1 \<le> unat n" using n by (simp add: algebra_simps)
  have A: "unat (2 ^ a :: u32) = ?A"
    using unat_of_nat_u32 [of ?A] assms(2) power_strict_increasing [of a 32 "2 :: nat"] by simp
  have "unat blk * unat (2 ^ a :: u32) < 2 ^ LENGTH(32)" using le assms(3) by (simp add: A)
  then have lo: "unat (push_bit a blk) = ?b * ?A"
    by (simp only: push_bit_eq_mult unat_mult_lem [THEN iffD1] A)
  have hi: "unat (push_bit a blk + 2 ^ a) = ?b * ?A + ?A"
    using le assms(3) lo A by (subst unat_add_lem [THEN iffD1]) auto
  have "push_bit a blk \<le> w \<and> w < push_bit a blk + 2 ^ a \<longleftrightarrow> unat w div ?A = ?b" for w
  proof -
    have "unat w div ?A = ?b \<longleftrightarrow> ?b * ?A \<le> unat w \<and> unat w < ?b * ?A + ?A" by (rule div_block) simp
    then show ?thesis by (simp add: word_le_nat_alt word_less_nat_alt lo hi)
  qed
  then show ?thesis unfolding u32_range_set MIN_less by blast
qed

text \<open>
  The sizes for which the decoding of a task by masks and shifts is exact: blocks and numbers of
  blocks in x and y that are powers of two.
\<close>

definition num_blocks :: "u32 \<Rightarrow> nat \<Rightarrow> nat" where
  "num_blocks n a = (unat n + 2 ^ a - 1) div 2 ^ a"

definition axis_ok :: "u32 \<Rightarrow> nat \<Rightarrow> bool" where
  "axis_ok n a \<longleftrightarrow> 0 < n \<and> a < 32 \<and> unat n + 2 ^ a \<le> 2 ^ 32"

lemma rounded_up:
  assumes "axis_ok n a"
  shows "unat (n + (2 ^ a - 1)) = unat n + 2 ^ a - 1"
proof -
  have a: "unat (2 ^ a - 1 :: u32) = 2 ^ a - 1"
    using assms by (simp add: axis_ok_def unat_minus_one unat_exp exp_neq_0)
  have "unat n + unat (2 ^ a - 1 :: u32) < 2 ^ LENGTH(32)"
    using assms unfolding a axis_ok_def by (auto simp: word_less_nat_alt)
  then show ?thesis by (simp only: unat_add_lem [THEN iffD1] a) simp
qed

lemma num_blocks_shift:
  assumes "axis_ok n a"
  shows "unat (drop_bit a (n + (2 ^ a - 1))) = num_blocks n a"
  by (simp only: unat_drop_bit_eq rounded_up [OF assms] num_blocks_def drop_bit_eq_div [of a "unat n + 2 ^ a - 1"])

lemma num_blocks_less:
  assumes "axis_ok n a"
  shows "num_blocks n a < 2 ^ 32"
  using unat_u32_less [of "drop_bit a (n + (2 ^ a - 1))"] by (simp add: num_blocks_shift [OF assms])

lemma exp_blocks:
  assumes "axis_ok n a" "num_blocks n a = 2 ^ p"
  shows "p < 32" "drop_bit a (n + (2 ^ a - 1)) = 2 ^ p"
proof -
  have "(2 :: nat) ^ p < 2 ^ 32" using num_blocks_less [OF assms(1)] assms(2) by simp
  then show p: "p < 32" by (rule power_less_imp_less_exp [rotated]) simp
  show "drop_bit a (n + (2 ^ a - 1)) = 2 ^ p"
    by (rule word_unat_eq_iff [THEN iffD2]) (simp only: num_blocks_shift [OF assms(1)] assms(2) unat_exp [OF p])
qed

lemma position_block: "w < n - 1 \<Longrightarrow> axis_ok n a \<Longrightarrow> unat w div 2 ^ a < num_blocks n a"
proof -
  assume a: "w < n - 1" "axis_ok n a"
  then have "unat (n - 1) = unat n - 1" by (auto simp: axis_ok_def unat_minus_one)
  then have "unat w + 1 < unat n" using a by (simp add: axis_ok_def word_less_nat_alt)
  then have "(unat w + 2 ^ a) div 2 ^ a \<le> num_blocks n a"
    unfolding num_blocks_def by (intro div_le_mono) simp
  then show ?thesis by simp
qed


definition sizes_ok :: "u32 \<Rightarrow> u32 \<Rightarrow> u32 \<Rightarrow> nat \<Rightarrow> nat \<Rightarrow> nat \<Rightarrow> nat \<Rightarrow> nat \<Rightarrow> bool" where
  "sizes_ok nx ny nz a b c p q \<longleftrightarrow>
     axis_ok nx a \<and> axis_ok ny b \<and> axis_ok nz c \<and> num_blocks nx a = 2 ^ p \<and> num_blocks ny b = 2 ^ q \<and>
     2 ^ p * 2 ^ q * num_blocks nz c < 2 ^ 32"

definition exp_locals :: "nat \<Rightarrow> nat \<Rightarrow> nat \<Rightarrow> worker_locals" where
  "exp_locals p q zblocks =
     \<lparr>w_numBlocks = of_nat (2 ^ p * 2 ^ q * zblocks), w_mx = 2 ^ p - 1, w_sx2 = of_nat p, w_my = 2 ^ q - 1,
      w_sy2 = of_nat q\<rparr>"

lemma march_setup_shifts:
  assumes "a < 32" "b < 32" "c < 32"
  shows "march_setup nx ny nz (2 ^ a) (2 ^ b) (2 ^ c) vals t =
           \<lparr>g_nx = nx, g_ny = ny, g_nz = nz, g_bx = 2 ^ a, g_by = 2 ^ b, g_bz = 2 ^ c, g_sx = of_nat a, g_sy = of_nat b,
            g_sz = of_nat c, g_datamat = vals, g_data = data_rows nx ny nz, g_target = t\<rparr>"
  unfolding march_setup_def count_shift_exp [OF assms(1)] count_shift_exp [OF assms(2)] count_shift_exp [OF assms(3)]
  by simp

lemma worker_setup_exp:
  assumes "sizes_ok nx ny nz a b c p q"
  shows "worker_setup (march_setup nx ny nz (2 ^ a) (2 ^ b) (2 ^ c) vals t) = Inr (exp_locals p q (num_blocks nz c))"
proof -
  have ax: "axis_ok nx a" "axis_ok ny b" "axis_ok nz c" "num_blocks nx a = 2 ^ p" "num_blocks ny b = 2 ^ q"
    using assms by (simp_all add: sizes_ok_def)
  have lt: "a < 32" "b < 32" "c < 32" using ax by (simp_all add: axis_ok_def)
  note x = exp_blocks [OF ax(1,4)] and y = exp_blocks [OF ax(2,5)]
  have z: "(nz + (2 ^ c - 1)) div 2 ^ c = of_nat (num_blocks nz c)"
    unfolding drop_bit_eq_div [symmetric]
    by (rule word_unat_eq_iff [THEN iffD2])
      (simp only: num_blocks_shift [OF ax(3)] unat_of_nat_u32 [OF num_blocks_less [OF ax(3)]])
  show ?thesis
    using lt x y z
    by (simp add: worker_setup_def march_setup_shifts unat_of_nat_shift Let_def block_mask_exp exp_locals_def exp_neq_0
        del: One_nat_def)
qed

lemma task_number:
  fixes v P Q xb yb zb :: nat
  assumes "xb < P" "yb < Q"
  shows "xb = v mod P \<and> yb = v div P mod Q \<and> zb = v div P div Q \<longleftrightarrow> v = xb + P * (yb + Q * zb)"
proof
  assume "xb = v mod P \<and> yb = v div P mod Q \<and> zb = v div P div Q"
  then show "v = xb + P * (yb + Q * zb)" by simp
qed (use assms in simp)

lemma axis_blocks:
  "axis_ok n a \<Longrightarrow> unat blk < num_blocks n a \<Longrightarrow>
     set (u32_range (push_bit a blk) (MIN_u32 (push_bit a blk + 2 ^ a) (n - 1))) =
       {w. unat w div 2 ^ a = unat blk \<and> w < n - 1}"
  by (rule axis_block) (simp_all add: axis_ok_def num_blocks_def)

lemma task_set:
  assumes "sizes_ok nx ny nz a b c p q" "unat v < 2 ^ p * 2 ^ q * num_blocks nz c"
  shows "set (task_cubes (march_setup nx ny nz (2 ^ a) (2 ^ b) (2 ^ c) vals t) (exp_locals p q (num_blocks nz c)) v) =
           {(i, j, k). i < nx - 1 \<and> j < ny - 1 \<and> k < nz - 1 \<and>
              unat v = unat i div 2 ^ a + 2 ^ p * (unat j div 2 ^ b + 2 ^ q * (unat k div 2 ^ c))}"
proof -
  have ax: "axis_ok nx a" "axis_ok ny b" "axis_ok nz c" "num_blocks nx a = 2 ^ p" "num_blocks ny b = 2 ^ q"
    using assms by (simp_all add: sizes_ok_def)
  have lt: "a < 32" "b < 32" "c < 32" "p < 32" "q < 32"
    using ax exp_blocks by (auto simp: axis_ok_def)
  define xb yb zb where "xb = v AND (2 ^ p - 1)" and "yb = drop_bit p v AND (2 ^ q - 1)"
    and "zb = drop_bit q (drop_bit p v)"
  have nums: "unat xb = unat v mod 2 ^ p" "unat yb = unat v div 2 ^ p mod 2 ^ q" "unat zb = unat v div 2 ^ p div 2 ^ q"
    unfolding xb_def yb_def zb_def
    by (simp_all only: unat_drop_bit_eq unat_and_mask mask_eq_exp_minus_1 [symmetric]) (simp_all add: drop_bit_eq_div)
  have "unat v div (2 ^ p * 2 ^ q) < num_blocks nz c"
    using assms(2) by (simp add: less_mult_imp_div_less mult.commute)
  then have z: "unat zb < num_blocks nz c"
    unfolding nums(3) by (simp add: div_mult2_eq)
  have x: "unat xb < num_blocks nx a" and y: "unat yb < num_blocks ny b"
    using nums ax(4,5) by simp_all
  have sets: "set (u32_range (push_bit a xb) (MIN_u32 (push_bit a xb + 2 ^ a) (nx - 1))) = {w. unat w div 2 ^ a = unat xb \<and> w < nx - 1}"
    "set (u32_range (push_bit b yb) (MIN_u32 (push_bit b yb + 2 ^ b) (ny - 1))) = {w. unat w div 2 ^ b = unat yb \<and> w < ny - 1}"
    "set (u32_range (push_bit c zb) (MIN_u32 (push_bit c zb + 2 ^ c) (nz - 1))) = {w. unat w div 2 ^ c = unat zb \<and> w < nz - 1}"
    using axis_blocks [OF ax(1) x] axis_blocks [OF ax(2) y] axis_blocks [OF ax(3) z] by simp_all
  have "set (task_cubes (march_setup nx ny nz (2 ^ a) (2 ^ b) (2 ^ c) vals t) (exp_locals p q (num_blocks nz c)) v) =
      {w. unat w div 2 ^ a = unat xb \<and> w < nx - 1} \<times> {w. unat w div 2 ^ b = unat yb \<and> w < ny - 1} \<times>
      {w. unat w div 2 ^ c = unat zb \<and> w < nz - 1}"
    unfolding task_cubes_def march_setup_shifts [OF lt(1-3)] exp_locals_def
    by (simp only: march_grid.simps worker_locals.simps unat_of_nat_shift lt Let_def box_cubes_set sets
        flip: xb_def yb_def zb_def)
  also have "\<dots> = {(i, j, k). i < nx - 1 \<and> j < ny - 1 \<and> k < nz - 1 \<and>
              unat v = unat i div 2 ^ a + 2 ^ p * (unat j div 2 ^ b + 2 ^ q * (unat k div 2 ^ c))}"
  proof -
    have "unat i div 2 ^ a = unat xb \<and> unat j div 2 ^ b = unat yb \<and> unat k div 2 ^ c = unat zb \<longleftrightarrow>
        unat v = unat i div 2 ^ a + 2 ^ p * (unat j div 2 ^ b + 2 ^ q * (unat k div 2 ^ c))"
      if "i < nx - 1" "j < ny - 1" for i j k :: u32
      unfolding nums using position_block [OF that(1) ax(1)] position_block [OF that(2) ax(2)] ax(4,5)
      by (intro task_number) simp_all
    then show ?thesis by blast
  qed
  finally show ?thesis .
qed


lemma mixed_radix_less:
  assumes "x < P" "y < Q" "z < R"
  shows "x + P * (y + Q * z) < P * Q * (R :: nat)"
proof -
  have "y + Q * z < Q * R" using assms(2) mult_le_mono2 [of "z + 1" R Q] assms(3) by simp
  then have "P * (y + Q * z + 1) \<le> P * (Q * R)" by (intro mult_le_mono2) simp
  with assms(1) show ?thesis by (simp add: algebra_simps)
qed

lemma grid_cubes_set:
  "set (grid_cubes g) = {(i, j, k). i < g_nx g - 1 \<and> j < g_ny g - 1 \<and> k < g_nz g - 1}"
  by (auto simp: grid_cubes_def box_cubes_set u32_range_set)

lemma grid_cubes_distinct: "distinct (grid_cubes g)"
  by (simp add: grid_cubes_def box_cubes_distinct u32_range_distinct)

lemma task_cubes_distinct: "distinct (task_cubes g w v)"
  by (simp add: task_cubes_def Let_def box_cubes_distinct u32_range_distinct)

text \<open>The tasks from 0 on contain every cube of the grid exactly once.\<close>

lemma tasks_cover:
  fixes vals :: "'f list" and t :: 'f
  assumes "sizes_ok nx ny nz a b c p q"
  defines "g \<equiv> march_setup nx ny nz (2 ^ a) (2 ^ b) (2 ^ c) vals t"
    and "w \<equiv> exp_locals p q (num_blocks nz c)"
  shows "mset (concat (map (task_cubes g w) (map of_nat [0..<2 ^ p * 2 ^ q * num_blocks nz c]))) = mset (grid_cubes g)"
proof -
  let ?n = "2 ^ p * 2 ^ q * num_blocks nz c"
  let ?vs = "map of_nat [0..<?n] :: u32 list"
  have n: "unat (of_nat m :: u32) = m" if "m < ?n" for m
    using that assms(1) by (intro unat_of_nat_u32) (simp add: sizes_ok_def)
  have sets: "set (task_cubes g w v) = {(i, j, k). i < nx - 1 \<and> j < ny - 1 \<and> k < nz - 1 \<and>
      unat v = unat i div 2 ^ a + 2 ^ p * (unat j div 2 ^ b + 2 ^ q * (unat k div 2 ^ c))}" if "unat v < ?n" for v
    unfolding g_def w_def by (rule task_set [OF assms(1) that])
  have lt: "unat v < ?n" if "v \<in> set ?vs" for v using that n by auto
  have ax: "axis_ok nx a" "axis_ok ny b" "axis_ok nz c" "num_blocks nx a = 2 ^ p" "num_blocks ny b = 2 ^ q"
    using assms(1) by (simp_all add: sizes_ok_def)
  have "distinct ?vs" using n by (auto simp: distinct_map intro!: inj_on_inverseI [where g = unat])
  then have "distinct (concat (map (task_cubes g w) ?vs))"
    using sets lt by (intro distinct_concat_map task_cubes_distinct) (auto simp: word_unat_eq_iff)
  moreover have "set (concat (map (task_cubes g w) ?vs)) = set (grid_cubes g)"
  proof -
    have "\<exists>v\<in>set ?vs. (i, j, k) \<in> set (task_cubes g w v)" if "i < nx - 1" "j < ny - 1" "k < nz - 1" for i j k
    proof -
      define m where "m = unat i div 2 ^ a + 2 ^ p * (unat j div 2 ^ b + 2 ^ q * (unat k div 2 ^ c))"
      have "unat i div 2 ^ a < 2 ^ p" "unat j div 2 ^ b < 2 ^ q" "unat k div 2 ^ c < num_blocks nz c"
        using position_block [OF that(1) ax(1)] position_block [OF that(2) ax(2)] position_block [OF that(3) ax(3)] ax(4,5)
        by simp_all
      then have "m < ?n" unfolding m_def by (rule mixed_radix_less)
      with n [OF this] that sets [of "of_nat m"] show ?thesis
        by (intro bexI [of _ "of_nat m"]) (auto simp: m_def [symmetric])
    qed
    then have "set (grid_cubes g) \<subseteq> set (concat (map (task_cubes g w) ?vs))"
      unfolding grid_cubes_set by (auto simp: g_def march_setup_def)
    moreover have "set (concat (map (task_cubes g w) ?vs)) \<subseteq> set (grid_cubes g)"
      unfolding grid_cubes_set using sets lt by (auto simp: g_def march_setup_def)
    ultimately show ?thesis by blast
  qed
  ultimately show ?thesis using grid_cubes_distinct set_eq_iff_mset_eq_distinct by blast
qed

lemma worker_loop_cubes:
  assumes "\<forall>(r, d) \<in> set ds. r = TQ_RET_SUCCESS \<or> r = TQ_RET_BLOCK"
  shows "worker_loop fo g w thread (ds @ [(TQ_RET_SYNC, d0)]) out =
           bnd (for_list (concat (map (task_cubes g w) (delivered ds))) (\<lambda>(i, j, k). vMarchCubeGrid fo g thread i j k) out)
             (\<lambda>out. Inr (True, out))"
  unfolding worker_loop_def for_list_concat by (rule dequeue_loop_tasks [OF assms])

lemma mset_concat_map_cong: "mset xs = mset ys \<Longrightarrow> mset (concat (map f xs)) = mset (concat (map f ys))"
proof -
  have "mset (concat (map f zs)) = \<Sum>\<^sub># (image_mset (mset \<circ> f) (mset zs))" for zs
    by (induction zs) simp_all
  then show "mset xs = mset ys \<Longrightarrow> ?thesis" by simp
qed

lemma concat_concat_map: "concat (map (\<lambda>xs. concat (map f xs)) xss) = concat (map f (concat xss))"
  by (induction xss) simp_all

text \<open>
  C14: The workers together. If the block sizes and the numbers of blocks in x and y are powers of
  two and the number of tasks fits 32 bits, and the task queue hands out the tasks from 0 to the
  number the workers asked for, each to one worker, with any number of \<open>TQ_RET_BLOCK\<close> results in
  between and \<open>TQ_RET_SYNC\<close> at the end, then every worker leaves its loop after running
  \<open>vMarchCubeGrid\<close> on its cubes, and the cubes of all workers are the cubes of the grid, each
  exactly once.
\<close>

theorem march_workers_cover:
  fixes vals :: "'f list" and t :: 'f
  assumes "sizes_ok nx ny nz a b c p q"
    and "\<forall>ds \<in> set dss. \<forall>(r, d) \<in> set ds. r = TQ_RET_SUCCESS \<or> r = TQ_RET_BLOCK"
    and "mset (concat (map delivered dss)) = mset (map of_nat [0..<2 ^ p * 2 ^ q * num_blocks nz c])"
  defines "g \<equiv> march_setup nx ny nz (2 ^ a) (2 ^ b) (2 ^ c) vals t"
  shows "\<exists>w cs. worker_setup g = Inr w \<and> unat (w_numBlocks w) = 2 ^ p * 2 ^ q * num_blocks nz c \<and>
    length cs = length dss \<and> mset (concat cs) = mset (grid_cubes g) \<and>
    (\<forall>i<length dss. \<forall>fo thread out d.
       marchWorkerThread fo g thread (\<lambda>_. TQ_RET_SUCCESS) (dss ! i @ [(TQ_RET_SYNC, d)]) out =
       bnd (for_list (cs ! i) (\<lambda>(i, j, k). vMarchCubeGrid fo g thread i j k) out) (\<lambda>out. Inr (True, out)))"
proof -
  define w where "w = exp_locals p q (num_blocks nz c)"
  define cs where "cs = map (\<lambda>ds. concat (map (task_cubes g w) (delivered ds))) dss"
  have w: "worker_setup g = Inr w" unfolding g_def w_def by (rule worker_setup_exp [OF assms(1)])
  have n: "unat (w_numBlocks w) = 2 ^ p * 2 ^ q * num_blocks nz c"
    using assms(1) unfolding w_def exp_locals_def sizes_ok_def by (simp only: worker_locals.simps unat_of_nat_u32)
  have "mset (concat cs) = mset (concat (map (task_cubes g w) (concat (map delivered dss))))"
    unfolding cs_def concat_concat_map [symmetric] by (simp add: comp_def)
  also have "\<dots> = mset (concat (map (task_cubes g w) (map of_nat [0..<2 ^ p * 2 ^ q * num_blocks nz c])))"
    by (rule mset_concat_map_cong [OF assms(3)])
  also have "\<dots> = mset (grid_cubes g)" unfolding g_def w_def by (rule tasks_cover [OF assms(1)])
  finally have cover: "mset (concat cs) = mset (grid_cubes g)" .
  have "marchWorkerThread fo g thread (\<lambda>_. TQ_RET_SUCCESS) (dss ! i @ [(TQ_RET_SYNC, d)]) out =
      bnd (for_list (cs ! i) (\<lambda>(i, j, k). vMarchCubeGrid fo g thread i j k) out) (\<lambda>out. Inr (True, out))"
    if "i < length dss" for i fo thread out d
  proof -
    have "\<forall>(r, d) \<in> set (dss ! i). r = TQ_RET_SUCCESS \<or> r = TQ_RET_BLOCK"
      using assms(2) nth_mem [OF that] by (rule bspec)
    from worker_loop_cubes [OF this] show ?thesis using that by (simp add: marchWorkerThread_def w cs_def)
  qed
  then show ?thesis using w n cover cs_def by (intro exI [of _ w] exI [of _ cs]) simp
qed

theorem march_workers_cover_witness:
  "\<exists>cs. length cs = 2 \<and> mset (concat cs) = mset (grid_cubes (march_setup 8 8 4 4 4 4 [] (0 :: rat)))"
proof -
  let ?task = "\<lambda>v. \<lparr>td_v1 = 0, td_v2 = 0, td_begin = v, td_end = v + 1\<rparr>"
  let ?dss = "[[(TQ_RET_SUCCESS, ?task 0), (TQ_RET_BLOCK, ?task 0), (TQ_RET_SUCCESS, ?task 1)],
               [(TQ_RET_SUCCESS, ?task 2), (TQ_RET_SUCCESS, ?task 3)]]"
  have sizes: "sizes_ok 8 8 4 2 2 2 1 1" by (simp add: sizes_ok_def axis_ok_def num_blocks_def)
  have "mset (concat (map delivered ?dss)) = mset (map of_nat [0..<2 ^ 1 * 2 ^ 1 * num_blocks 4 2])"
  proof -
    have "map of_nat [0..<2 ^ 1 * 2 ^ 1 * num_blocks 4 2] = [0, 1, 2, 3 :: u32]"
      by (simp add: num_blocks_def) code_simp
    moreover have "concat (map delivered ?dss) = [0, 1, 2, 3]" by simp
    ultimately show ?thesis by (simp only:)
  qed
  from march_workers_cover [OF sizes _ this, where vals = "[]" and t = 0] obtain cs where
    "length cs = length ?dss"
    "mset (concat cs) = mset (grid_cubes (march_setup 8 8 4 (2 ^ 2) (2 ^ 2) (2 ^ 2) [] (0 :: rat)))" by auto
  then show ?thesis by (intro exI [of _ cs]) simp
qed

text \<open>
  With three blocks in x the mask has two values: the third block is in no task.
\<close>

lemma march_three_blocks:
  defines "g \<equiv> march_setup 12 4 4 4 4 4 [] (0 :: rat)"
  shows "\<exists>w. worker_setup g = Inr w \<and> w_numBlocks w = 3 \<and>
    (\<forall>v. (9, 0, 0) \<notin> set (task_cubes g w v)) \<and> (9, 0, 0) \<in> set (grid_cubes g)"
proof -
  have w: "worker_setup g = Inr \<lparr>w_numBlocks = 3, w_mx = 1, w_sx2 = 1, w_my = 0, w_sy2 = 0\<rparr>"
    unfolding g_def by code_simp
  have "g_sx g = 2" "g_bx g = 4" "g_nx g = 12"
    unfolding g_def march_setup_def using count_shift_exp [of 2 0] by simp_all
  moreover have "9 \<notin> set (u32_range (push_bit 2 (v AND 1)) (MIN_u32 (push_bit 2 (v AND 1) + 4) 11))" for v :: u32
  proof -
    have "v AND 1 = 0 \<or> v AND 1 = 1" by (simp add: and_one_eq mod_2_eq_odd)
    then show ?thesis by (elim disjE) (simp_all only: u32_range_set MIN_less mem_Collect_eq, simp_all)
  qed
  ultimately have "(9, 0, 0) \<notin> set (task_cubes g \<lparr>w_numBlocks = 3, w_mx = 1, w_sx2 = 1, w_my = 0, w_sy2 = 0\<rparr> v)" for v
    by (simp add: task_cubes_def Let_def box_cubes_set del: push_bit_and)
  moreover have "(9, 0, 0) \<in> set (grid_cubes g)" by (simp add: grid_cubes_set g_def march_setup_def)
  ultimately show ?thesis using w by auto
qed

text \<open>A grid that is wider in x than in y: the last row of the last plane is out of range.\<close>

lemma march_wide_grid: "fGridSample (march_setup 3 2 1 1 1 1 [0, 0, 0, 0, 0, 0] (0 :: rat)) 2 1 0 = Inl OutOfBounds"
  by code_simp

end
