(* ===== verification/FFT_Four1.thy ===== *)
theory FFT_Four1
  imports Complex_Main Prelude
begin

text \<open>
  The one-dimensional transform of the FFT benchmark (\<open>four1\<close> of benchmarks/fft/fft.c): the bit
  reversal, the Danielson-Lanczos stages with their recurrence for the factors, and the reversal at
  the end. The array is a list of \<open>float\<close> in which a complex number takes two places, \<open>base\<close> is the
  offset of the 1-based pointer the function gets, and an access outside the array is a fault. The
  arithmetic and the table of sines are arguments; the main theorem takes them to be exact. The
  indices are integers without overflow: an array of the size at which \<open>int\<close> overflows does not fit
  into the 32-bit address space.
\<close>

section \<open>The code of four1\<close>

record 'f fft_arith =
  fa_add :: "'f \<Rightarrow> 'f \<Rightarrow> 'f"
  fa_sub :: "'f \<Rightarrow> 'f \<Rightarrow> 'f"
  fa_mul :: "'f \<Rightarrow> 'f \<Rightarrow> 'f"
  fa_div :: "'f \<Rightarrow> 'f \<Rightarrow> 'f"
  fa_of_int :: "int \<Rightarrow> 'f"
  fa_half :: 'f
  fa_pi :: 'f
  fa_sin :: "'f \<Rightarrow> 'f"

definition rdz :: "'a list \<Rightarrow> int \<Rightarrow> 'a c_result" where
  "rdz xs i = (if i < 0 then Inl OutOfBounds else rd xs (nat i))"

definition wrz :: "'a list \<Rightarrow> int \<Rightarrow> 'a \<Rightarrow> 'a list c_result" where
  "wrz xs i v = (if i < 0 then Inl OutOfBounds else wr xs (nat i) v)"

text \<open>\<open>tmp = data[j]; data[j] = data[i]; data[i] = tmp;\<close>\<close>

definition swap_at :: "int \<Rightarrow> int \<Rightarrow> 'f list \<Rightarrow> 'f list c_result" where
  "swap_at j i a =
     bnd (rdz a j) (\<lambda>tmp. bnd (rdz a i) (\<lambda>v. bnd (wrz a j v) (\<lambda>a. wrz a i tmp)))"

text \<open>\<open>while (m >= 2 && j > m) { j -= m; m >>= 1; } j += m;\<close>\<close>

function rev_add :: "int \<Rightarrow> int \<Rightarrow> int" where
  "rev_add m j = (if m \<ge> 2 \<and> j > m then rev_add (m div 2) (j - m) else j + m)"
  by auto

termination rev_add
  by (relation "measure (\<lambda>(m, j). nat m)") auto

declare rev_add.simps [simp del]

definition reversal_step :: "int \<Rightarrow> int \<Rightarrow> nat \<Rightarrow> 'f list \<times> int \<Rightarrow> ('f list \<times> int) c_result" where
  "reversal_step base nn p s =
     (case s of (a, j) \<Rightarrow>
        let i = 2 * int p + 1 in
        bnd (if j > i
             then bnd (swap_at (base + j) (base + i) a) (swap_at (base + (j + 1)) (base + (i + 1)))
             else Inr a)
          (\<lambda>a. Inr (a, rev_add nn j)))"

definition bit_reversal :: "int \<Rightarrow> int \<Rightarrow> 'f list \<Rightarrow> 'f list c_result" where
  "bit_reversal base nn a =
     bnd (for_list [0..<nat nn] (reversal_step base nn) (a, 1)) (\<lambda>(a, j). Inr a)"

definition butterfly ::
  "'f fft_arith \<Rightarrow> int \<Rightarrow> int \<Rightarrow> 'f \<times> 'f \<Rightarrow> int \<Rightarrow> 'f list \<Rightarrow> 'f list c_result" where
  "butterfly fo base mmax w i a =
     (let j = i + mmax; (w_r, w_i) = w in
      bnd (rdz a (base + j)) (\<lambda>dj.
      bnd (rdz a (base + (j + 1))) (\<lambda>dj1.
      let tempr = fa_sub fo (fa_mul fo w_r dj) (fa_mul fo w_i dj1);
          tempi = fa_add fo (fa_mul fo w_r dj1) (fa_mul fo w_i dj) in
      bnd (rdz a (base + i)) (\<lambda>di.
      bnd (wrz a (base + j) (fa_sub fo di tempr)) (\<lambda>a.
      bnd (rdz a (base + (i + 1))) (\<lambda>di1.
      bnd (wrz a (base + (j + 1)) (fa_sub fo di1 tempi)) (\<lambda>a.
      bnd (rdz a (base + i)) (\<lambda>di.
      bnd (wrz a (base + i) (fa_add fo di tempr)) (\<lambda>a.
      bnd (rdz a (base + (i + 1))) (\<lambda>di1.
      wrz a (base + (i + 1)) (fa_add fo di1 tempi)))))))))))"

text \<open>The values of \<open>i\<close> in \<open>for (i = m; i <= n; i += istep)\<close>.\<close>

definition strided :: "int \<Rightarrow> int \<Rightarrow> int \<Rightarrow> int list" where
  "strided m n istep = map (\<lambda>t. m + istep * int t) [0..<nat ((n - m) div istep + 1)]"

definition next_factor :: "'f fft_arith \<Rightarrow> 'f \<Rightarrow> 'f \<Rightarrow> 'f \<times> 'f \<Rightarrow> 'f \<times> 'f" where
  "next_factor fo wpr wpi w =
     (case w of (w_r, w_i) \<Rightarrow>
        (fa_add fo (fa_sub fo (fa_mul fo w_r wpr) (fa_mul fo w_i wpi)) w_r,
         fa_add fo (fa_add fo (fa_mul fo w_i wpr) (fa_mul fo w_r wpi)) w_i))"

definition stage_step ::
  "'f fft_arith \<Rightarrow> int \<Rightarrow> int \<Rightarrow> int \<Rightarrow> 'f \<Rightarrow> 'f \<Rightarrow> nat \<Rightarrow> 'f list \<times> ('f \<times> 'f) \<Rightarrow> ('f list \<times> ('f \<times> 'f)) c_result" where
  "stage_step fo base n mmax wpr wpi r s =
     (case s of (a, w) \<Rightarrow>
        bnd (for_list (strided (2 * int r + 1) n (2 * mmax)) (butterfly fo base mmax w) a) (\<lambda>a.
        Inr (a, next_factor fo wpr wpi w)))"

definition stage ::
  "'f fft_arith \<Rightarrow> 'f list \<Rightarrow> int \<Rightarrow> int \<Rightarrow> nat \<Rightarrow> 'f list \<Rightarrow> 'f list c_result" where
  "stage fo lut base n tblIndex a =
     bnd (rd lut tblIndex) (\<lambda>wtemp.
     bnd (rdz lut (int tblIndex - 1)) (\<lambda>wpi.
     let mmax = 2 ^ tblIndex;
         wpr = fa_mul fo (fa_mul fo (fa_of_int fo (- 2)) wtemp) wtemp
     in bnd (for_list [0..<nat (mmax div 2)] (stage_step fo base n mmax wpr wpi)
               (a, (fa_of_int fo 1, fa_of_int fo 0)))
          (\<lambda>(a, w). Inr a)))"

text \<open>
  \<open>while (n > mmax)\<close>: \<open>mmax\<close> is doubled and \<open>tblIndex\<close> incremented together, from 2 and 1 on, so
  that \<open>mmax = 2 ^ tblIndex\<close>.
\<close>

function stages :: "'f fft_arith \<Rightarrow> 'f list \<Rightarrow> int \<Rightarrow> int \<Rightarrow> nat \<Rightarrow> 'f list \<Rightarrow> 'f list c_result" where
  "stages fo lut base n tblIndex a =
     (if n > 2 ^ tblIndex then bnd (stage fo lut base n tblIndex a) (stages fo lut base n (tblIndex + 1))
      else Inr a)"
  by auto

termination stages
  by (relation "measure (\<lambda>(fo, lut, base, n, tblIndex, a). nat (n - 2 ^ tblIndex))") auto

declare stages.simps [simp del]

text \<open>The elements 1 to \<open>nn - 1\<close> are reversed: \<open>i\<close> runs up from 1 and \<open>j\<close> down from \<open>nn - 1\<close>.\<close>

definition final_step :: "int \<Rightarrow> int \<Rightarrow> nat \<Rightarrow> 'f list \<Rightarrow> 'f list c_result" where
  "final_step base nn i a =
     (let idx_i = 1 + 2 * int i; idx_j = 1 + 2 * (nn - int i) in
      bnd (swap_at (base + idx_i) (base + idx_j) a) (swap_at (base + (idx_i + 1)) (base + (idx_j + 1))))"

definition final_reversal :: "int \<Rightarrow> int \<Rightarrow> 'f list \<Rightarrow> 'f list c_result" where
  "final_reversal base nn = for_list [1..<nat ((nn + 1) div 2)] (final_step base nn)"

definition four1 :: "'f fft_arith \<Rightarrow> 'f list \<Rightarrow> int \<Rightarrow> int \<Rightarrow> 'f list \<Rightarrow> 'f list c_result" where
  "four1 fo lut base nn a =
     bnd (bit_reversal base nn a) (\<lambda>a.
     bnd (stages fo lut base (2 * nn) 1 a) (final_reversal base nn))"

section \<open>Pairs in the array\<close>

definition flat :: "('f \<times> 'f) list \<Rightarrow> 'f list" where
  "flat xs = concat (map (\<lambda>(a, b). [a, b]) xs)"

lemma flat_simps [simp]: "flat [] = []" "flat (x # xs) = fst x # snd x # flat xs" "flat (xs @ ys) = flat xs @ flat ys"
  by (simp_all add: flat_def case_prod_beta)

lemma length_flat [simp]: "length (flat xs) = 2 * length xs"
  by (induction xs) auto

lemma flat_nth: "p < length xs \<Longrightarrow> flat xs ! (2 * p) = fst (xs ! p)" "p < length xs \<Longrightarrow> flat xs ! Suc (2 * p) = snd (xs ! p)"
  by (induction xs arbitrary: p) (auto simp: nth_Cons split: nat.split)

lemma flat_update:
  "p < length xs \<Longrightarrow> (flat xs)[2 * p := v] = flat (xs[p := (v, snd (xs ! p))])"
  "p < length xs \<Longrightarrow> (flat xs)[Suc (2 * p) := v] = flat (xs[p := (fst (xs ! p), v)])"
  by (induction xs arbitrary: p) (auto split: nat.split)

text \<open>The pair \<open>p\<close> of the segment \<open>xs\<close> is at the 1-based indices \<open>2 p + 1\<close> and \<open>2 p + 2\<close>.\<close>

lemma rdz_pair:
  assumes "base = int (length pre) - 1" "p < length xs"
  shows "rdz (pre @ flat xs @ post) (base + (2 * int p + 1)) = Inr (fst (xs ! p))"
    "rdz (pre @ flat xs @ post) (base + (2 * int p + 1 + 1)) = Inr (snd (xs ! p))"
proof -
  have i: "nat (base + (2 * int p + 1)) = length pre + 2 * p" "nat (base + (2 * int p + 1 + 1)) = length pre + Suc (2 * p)"
    using assms(1) by auto
  have nonneg: "\<not> base + (2 * int p + 1) < 0" "\<not> base + (2 * int p + 1 + 1) < 0" using assms(1) by auto
  show "rdz (pre @ flat xs @ post) (base + (2 * int p + 1)) = Inr (fst (xs ! p))"
    "rdz (pre @ flat xs @ post) (base + (2 * int p + 1 + 1)) = Inr (snd (xs ! p))"
    using assms(2) nonneg by (simp_all only: rdz_def i if_False) (simp_all add: rd_def nth_append flat_nth)
qed

lemma wrz_pair:
  assumes "base = int (length pre) - 1" "p < length xs"
  shows "wrz (pre @ flat xs @ post) (base + (2 * int p + 1)) v = Inr (pre @ flat (xs[p := (v, snd (xs ! p))]) @ post)"
    "wrz (pre @ flat xs @ post) (base + (2 * int p + 1 + 1)) v = Inr (pre @ flat (xs[p := (fst (xs ! p), v)]) @ post)"
proof -
  have i: "nat (base + (2 * int p + 1)) = length pre + 2 * p" "nat (base + (2 * int p + 1 + 1)) = length pre + Suc (2 * p)"
    using assms(1) by auto
  have nonneg: "\<not> base + (2 * int p + 1) < 0" "\<not> base + (2 * int p + 1 + 1) < 0" using assms(1) by auto
  show "wrz (pre @ flat xs @ post) (base + (2 * int p + 1)) v = Inr (pre @ flat (xs[p := (v, snd (xs ! p))]) @ post)"
    "wrz (pre @ flat xs @ post) (base + (2 * int p + 1 + 1)) v = Inr (pre @ flat (xs[p := (fst (xs ! p), v)]) @ post)"
    using assms(2) nonneg
    by (simp_all only: wrz_def i if_False) (simp_all add: wr_def list_update_append flat_update del: list_update.simps)
qed

lemma swap_pairs:
  assumes "base = int (length pre) - 1" "p < length xs" "q < length xs"
  shows "bnd (swap_at (base + (2 * int q + 1)) (base + (2 * int p + 1)) (pre @ flat xs @ post))
           (swap_at (base + (2 * int q + 1 + 1)) (base + (2 * int p + 1 + 1))) =
         Inr (pre @ flat (xs[q := xs ! p, p := xs ! q]) @ post)"
proof -
  note acc = rdz_pair [OF assms(1)] wrz_pair [OF assms(1)]
  let ?a = "xs[q := (fst (xs ! p), snd (xs ! q))]"
  let ?b = "?a[p := (fst (xs ! q), snd (?a ! p))]"
  let ?c = "?b[q := (fst (?b ! q), snd (?b ! p))]"
  have eq: "?c[p := (fst (?c ! p), snd (?b ! q))] = xs[q := xs ! p, p := xs ! q]"
    using assms(2,3) by (intro nth_equalityI) (auto simp: nth_list_update prod_eq_iff)
  have "swap_at (base + (2 * int q + 1)) (base + (2 * int p + 1)) (pre @ flat xs @ post) = Inr (pre @ flat ?b @ post)"
    using assms(2,3) by (simp add: swap_at_def c_monad acc)
  moreover have "swap_at (base + (2 * int q + 1 + 1)) (base + (2 * int p + 1 + 1)) (pre @ flat ?b @ post) =
      Inr (pre @ flat (?c[p := (fst (?c ! p), snd (?b ! q))]) @ post)"
    using assms(2,3) by (simp only: swap_at_def bnd_Inr acc length_list_update)
  ultimately show ?thesis by (simp only: bnd_Inr eq)
qed

section \<open>The bit reversal\<close>

fun bitrev :: "nat \<Rightarrow> nat \<Rightarrow> nat" where
  "bitrev 0 p = 0"
| "bitrev (Suc k) p = (p mod 2) * 2 ^ k + bitrev k (p div 2)"

lemma bitrev_less: "bitrev k p < 2 ^ k"
proof (induction k arbitrary: p)
  case (Suc k)
  have "p mod 2 = 0 \<or> p mod 2 = 1" by auto
  with Suc [of "p div 2"] show ?case by auto
qed simp

lemma bitrev_top: "b < 2 ^ k \<Longrightarrow> a < 2 \<Longrightarrow> bitrev (Suc k) (a * 2 ^ k + b) = a + 2 * bitrev k b"
proof (induction k arbitrary: b)
  case (Suc k)
  have "(a * 2 ^ Suc k + b) mod 2 = b mod 2" "(a * 2 ^ Suc k + b) div 2 = a * 2 ^ k + b div 2"
    using mod_mult_self2 [of b 2 "a * 2 ^ k"] div_mult_self2 [of 2 b "a * 2 ^ k"]
    by (simp_all add: algebra_simps)
  moreover have "b div 2 < 2 ^ k" using Suc.prems(1) by (simp add: less_mult_imp_div_less)
  ultimately show ?case using Suc.IH [of "b div 2"] Suc.prems(2) by (simp add: algebra_simps)
qed simp

lemma bitrev_bitrev: "p < 2 ^ k \<Longrightarrow> bitrev k (bitrev k p) = p"
proof (induction k arbitrary: p)
  case (Suc k)
  have "p div 2 < 2 ^ k" using Suc.prems by (simp add: less_mult_imp_div_less)
  then show ?case using Suc.IH [of "p div 2"] bitrev_top [of "bitrev k (p div 2)" k "p mod 2"]
    by (simp add: bitrev_less del: bitrev.simps(2)) (simp add: bitrev.simps(2))
qed simp

lemma rev_add_bitrev: "p + 1 < 2 ^ k \<Longrightarrow> rev_add (2 ^ k) (2 * int (bitrev k p) + 1) = 2 * int (bitrev k (p + 1)) + 1"
proof (induction k arbitrary: p)
  case (Suc k)
  let ?r = "bitrev k (p div 2)"
  have r: "int ?r < 2 ^ k" using bitrev_less [of k "p div 2"] by (metis of_nat_less_iff of_nat_numeral of_nat_power)
  show ?case
  proof (cases "even p")
    case True
    then have p1: "bitrev (Suc k) (p + 1) = 2 ^ k + ?r" "bitrev (Suc k) p = ?r" by auto
    have "\<not> 2 * int ?r + 1 > 2 ^ Suc k" using r by simp
    then show ?thesis unfolding p1 by (subst rev_add.simps) simp
  next
    case False
    then have p1: "bitrev (Suc k) (p + 1) = bitrev k (p div 2 + 1)" "bitrev (Suc k) p = 2 ^ k + ?r"
      by (simp_all add: odd_iff_mod_2_eq_one)
    have "p div 2 + 1 < 2 ^ k" using False Suc.prems by (auto elim!: oddE)
    then have "rev_add (2 ^ k) (2 * int ?r + 1) = 2 * int (bitrev k (p div 2 + 1)) + 1" by (rule Suc.IH)
    then show ?thesis unfolding p1 by (subst rev_add.simps) simp
  qed
qed simp

definition reversed_upto :: "nat \<Rightarrow> nat \<Rightarrow> 'a list \<Rightarrow> 'a list" where
  "reversed_upto k P xs = map (\<lambda>i. if i < P \<or> bitrev k i < P then xs ! bitrev k i else xs ! i) [0..<2 ^ k]"

lemma reversed_upto_swap:
  assumes "P < 2 ^ k" "P < bitrev k P"
  shows "(reversed_upto k P xs)[bitrev k P := reversed_upto k P xs ! P, P := reversed_upto k P xs ! bitrev k P] =
           reversed_upto k (Suc P) xs"
proof -
  have other: "bitrev k i \<noteq> P" if "i \<noteq> bitrev k P" "i < 2 ^ k" for i using that bitrev_bitrev by metis
  show ?thesis
    using assms bitrev_less [of k P] other
    by (intro nth_equalityI) (auto simp: reversed_upto_def nth_list_update bitrev_bitrev less_Suc_eq)
qed

lemma reversed_upto_keep:
  assumes "P < 2 ^ k" "\<not> P < bitrev k P"
  shows "reversed_upto k (Suc P) xs = reversed_upto k P xs"
proof -
  have "(if i < Suc P \<or> bitrev k i < Suc P then xs ! bitrev k i else xs ! i) =
      (if i < P \<or> bitrev k i < P then xs ! bitrev k i else xs ! i)" if "i < 2 ^ k" for i
  proof (cases "i = P \<or> bitrev k i = P")
    case True
    then have "i \<le> P" "bitrev k i \<le> P" using assms(2) bitrev_bitrev [OF that] by auto
    then show ?thesis using True by (auto simp: less_Suc_eq)
  next
    case False
    then show ?thesis by (simp add: less_Suc_eq)
  qed
  then show ?thesis by (simp add: reversed_upto_def)
qed

lemma reversal_steps:
  assumes "base = int (length pre) - 1" "length xs = 2 ^ k" "P \<le> 2 ^ k"
  shows "\<exists>j. for_list [0..<P] (reversal_step base (2 ^ k)) (pre @ flat xs @ post, 1) =
           Inr (pre @ flat (reversed_upto k P xs) @ post, j) \<and> (P < 2 ^ k \<longrightarrow> j = 2 * int (bitrev k P) + 1)"
  using assms(3)
proof (induction P)
  case 0
  have "reversed_upto k 0 xs = xs" using assms(2) by (auto simp: reversed_upto_def intro: nth_equalityI)
  moreover have "bitrev k 0 = 0" by (induction k) auto
  ultimately show ?case by simp
next
  case (Suc P)
  then have P: "P < 2 ^ k" by simp
  let ?ys = "reversed_upto k P xs"
  have "for_list [0..<P] (reversal_step base (2 ^ k)) (pre @ flat xs @ post, 1) =
      Inr (pre @ flat ?ys @ post, 2 * int (bitrev k P) + 1)"
    using Suc P by auto
  moreover have "reversal_step base (2 ^ k) P (pre @ flat ?ys @ post, 2 * int (bitrev k P) + 1) =
      Inr (pre @ flat (reversed_upto k (Suc P) xs) @ post, rev_add (2 ^ k) (2 * int (bitrev k P) + 1))"
  proof (cases "P < bitrev k P")
    case True
    have len: "P < length ?ys" "bitrev k P < length ?ys" using P bitrev_less [of k P] by (simp_all add: reversed_upto_def)
    show ?thesis
      using True swap_pairs [OF assms(1) len, of post]
      by (simp add: reversal_step_def reversed_upto_swap [OF P True])
  next
    case False
    then show ?thesis by (simp add: reversal_step_def reversed_upto_keep [OF P])
  qed
  moreover have "rev_add (2 ^ k) (2 * int (bitrev k P) + 1) = 2 * int (bitrev k (Suc P)) + 1" if "Suc P < 2 ^ k"
    using rev_add_bitrev [of P k] that by simp
  ultimately show ?case by (simp add: for_list_append)
qed

lemma bit_reversal_eq:
  assumes "base = int (length pre) - 1" "length xs = 2 ^ k"
  shows "bit_reversal base (2 ^ k) (pre @ flat xs @ post) = Inr (pre @ flat (map (\<lambda>i. xs ! bitrev k i) [0..<2 ^ k]) @ post)"
proof -
  have "reversed_upto k (2 ^ k) xs = map (\<lambda>i. xs ! bitrev k i) [0..<2 ^ k]"
    by (auto simp: reversed_upto_def)
  moreover have "nat (2 ^ k) = 2 ^ k" by (simp add: nat_power_eq)
  ultimately show ?thesis
    using reversal_steps [OF assms, of "2 ^ k" post] by (auto simp: bit_reversal_def nat_power_eq)
qed

section \<open>The stages\<close>

text \<open>A butterfly on the pairs: \<open>u\<close> and \<open>u + h\<close> become the sum and the difference.\<close>

definition pmul :: "'f fft_arith \<Rightarrow> 'f \<times> 'f \<Rightarrow> 'f \<times> 'f \<Rightarrow> 'f \<times> 'f" where
  "pmul fo w x = (fa_sub fo (fa_mul fo (fst w) (fst x)) (fa_mul fo (snd w) (snd x)),
                  fa_add fo (fa_mul fo (fst w) (snd x)) (fa_mul fo (snd w) (fst x)))"

definition padd :: "'f fft_arith \<Rightarrow> 'f \<times> 'f \<Rightarrow> 'f \<times> 'f \<Rightarrow> 'f \<times> 'f" where
  "padd fo x y = (fa_add fo (fst x) (fst y), fa_add fo (snd x) (snd y))"

definition psub :: "'f fft_arith \<Rightarrow> 'f \<times> 'f \<Rightarrow> 'f \<times> 'f \<Rightarrow> 'f \<times> 'f" where
  "psub fo x y = (fa_sub fo (fst x) (fst y), fa_sub fo (snd x) (snd y))"

definition bfly :: "'f fft_arith \<Rightarrow> nat \<Rightarrow> 'f \<times> 'f \<Rightarrow> nat \<Rightarrow> ('f \<times> 'f) list \<Rightarrow> ('f \<times> 'f) list" where
  "bfly fo h w u xs =
     xs[u + h := psub fo (xs ! u) (pmul fo w (xs ! (u + h))), u := padd fo (xs ! u) (pmul fo w (xs ! (u + h)))]"

lemma butterfly_pairs:
  assumes "base = int (length pre) - 1" "u + h < length xs" "0 < h"
  shows "butterfly fo base (2 * int h) w (2 * int u + 1) (pre @ flat xs @ post) = Inr (pre @ flat (bfly fo h w u xs) @ post)"
proof -
  have j: "2 * int u + 1 + 2 * int h = 2 * int (u + h) + 1" by simp
  have u: "u < length xs" "u \<noteq> u + h" "u + h \<noteq> u" using assms by simp_all
  let ?t = "pmul fo w (xs ! (u + h))"
  let ?x = "xs ! u" and ?y = "xs ! (u + h)"
  let ?a = "xs[u + h := (fa_sub fo (fst ?x) (fst ?t), snd ?y)]"
  let ?b = "?a[u + h := (fst (?a ! (u + h)), fa_sub fo (snd (?a ! u)) (snd ?t))]"
  let ?c = "?b[u := (fa_add fo (fst (?b ! u)) (fst ?t), snd (?b ! u))]"
  let ?d = "?c[u := (fst (?c ! u), fa_add fo (snd (?c ! u)) (snd ?t))]"
  have "?d = bfly fo h w u xs"
    using u assms(2) by (intro nth_equalityI) (auto simp: bfly_def nth_list_update psub_def padd_def)
  moreover have "butterfly fo base (2 * int h) w (2 * int u + 1) (pre @ flat xs @ post) = Inr (pre @ flat ?d @ post)"
    unfolding butterfly_def Let_def j case_prod_beta
    by (simp only: rdz_pair [OF assms(1)] wrz_pair [OF assms(1)] bnd_Inr length_list_update u(1) assms(2)
        fst_conv snd_conv pmul_def)
  ultimately show ?thesis by simp
qed

definition bflies :: "'f fft_arith \<Rightarrow> nat \<Rightarrow> (nat \<Rightarrow> 'f \<times> 'f) \<Rightarrow> nat list \<Rightarrow> ('f \<times> 'f) list \<Rightarrow> ('f \<times> 'f) list" where
  "bflies fo h w us xs = foldl (\<lambda>xs u. bfly fo h (w u) u xs) xs us"

lemma length_bfly [simp]: "length (bfly fo h w u xs) = length xs"
  by (simp add: bfly_def)

lemma length_bflies [simp]: "length (bflies fo h w us xs) = length xs"
  by (induction us arbitrary: xs) (auto simp: bflies_def)

lemma bflies_append: "bflies fo h w (us @ vs) xs = bflies fo h w vs (bflies fo h w us xs)"
  by (simp add: bflies_def)

lemma for_list_butterflies:
  assumes "base = int (length pre) - 1" "0 < h" "\<forall>u \<in> set us. u + h < length xs \<and> w u = w0"
  shows "for_list (map (\<lambda>u. 2 * int u + 1) us) (butterfly fo base (2 * int h) w0) (pre @ flat xs @ post) =
           Inr (pre @ flat (bflies fo h w us xs) @ post)"
  using assms(3)
proof (induction us arbitrary: xs)
  case (Cons u us)
  then show ?case by (simp add: butterfly_pairs [OF assms(1)] assms(2) bflies_def)
qed (simp add: bflies_def)

text \<open>Butterflies on different pairs do not disturb each other.\<close>

lemma bflies_nth:
  assumes "0 < h" "distinct us" "\<forall>u \<in> set us. u mod (2 * h) < h \<and> u + h < length xs" "i < length xs"
  shows "bflies fo h w us xs ! i =
    (if i \<in> set us then padd fo (xs ! i) (pmul fo (w i) (xs ! (i + h)))
     else if h \<le> i \<and> i - h \<in> set us then psub fo (xs ! (i - h)) (pmul fo (w (i - h)) (xs ! i))
     else xs ! i)"
  using assms(2,3,4)
proof (induction us arbitrary: i rule: rev_induct)
  case Nil
  then show ?case by (simp add: bflies_def)
next
  case (snoc u us)
  have half: "(v + h) mod (2 * h) = v mod (2 * h) + h" if "v mod (2 * h) < h" for v
    using that assms(1) by (metis add.commute add_less_cancel_left mod_add_left_eq mod_less mult_2)
  have u: "u mod (2 * h) < h" "u + h < length xs" "u \<notin> set us" using snoc.prems by auto
  have "u + h \<notin> set us" using snoc.prems(2) half [OF u(1)] by fastforce
  moreover have "\<not> (h \<le> u \<and> u - h \<in> set us)"
  proof
    assume a: "h \<le> u \<and> u - h \<in> set us"
    then have "(u - h) mod (2 * h) < h" using snoc.prems(2) by auto
    with half [of "u - h"] a u(1) show False by simp
  qed
  ultimately have same: "bflies fo h w us xs ! u = xs ! u" "bflies fo h w us xs ! (u + h) = xs ! (u + h)"
    using snoc.IH [of u] snoc.IH [of "u + h"] snoc.prems u by auto
  show ?case
  proof (cases "i = u \<or> i = u + h")
    case True
    then show ?thesis
      using same u assms(1) \<open>u + h \<notin> set us\<close> by (auto simp: bflies_append bflies_def [of _ _ _ "[u]"] bfly_def nth_list_update)
  next
    case False
    then have "bflies fo h w (us @ [u]) xs ! i = bflies fo h w us xs ! i"
      by (simp add: bflies_append bflies_def [of _ _ _ "[u]"] bfly_def)
    then show ?thesis using False snoc by auto
  qed
qed

lemma strided_eq:
  assumes "r < h"
  shows "strided (2 * int r + 1) (2 * int (2 * h * c)) (2 * (2 * int h)) =
           map (\<lambda>u. 2 * int u + 1) (map (\<lambda>t. r + 2 * h * t) [0..<c])"
proof -
  have "(2 * int (2 * h * c) - (2 * int r + 1)) div (2 * (2 * int h)) = int c - 1"
  proof (rule int_div_pos_eq [where r = "4 * int h - (2 * int r + 1)"])
    show "2 * int (2 * h * c) - (2 * int r + 1) = 2 * (2 * int h) * (int c - 1) + (4 * int h - (2 * int r + 1))"
      by (simp add: algebra_simps)
  qed (use assms in auto)
  then show ?thesis by (simp add: strided_def comp_def algebra_simps)
qed

text \<open>The stage on the pairs, with the factor of each place in the half block.\<close>

definition stage_pairs :: "'f fft_arith \<Rightarrow> nat \<Rightarrow> (nat \<Rightarrow> 'f \<times> 'f) \<Rightarrow> ('f \<times> 'f) list \<Rightarrow> ('f \<times> 'f) list" where
  "stage_pairs fo h w xs =
     map (\<lambda>i. if i mod (2 * h) < h then padd fo (xs ! i) (pmul fo (w (i mod (2 * h))) (xs ! (i + h)))
              else psub fo (xs ! (i - h)) (pmul fo (w (i mod (2 * h) - h)) (xs ! i)))
       [0..<length xs]"

definition factor :: "'f fft_arith \<Rightarrow> 'f \<Rightarrow> 'f \<Rightarrow> nat \<Rightarrow> 'f \<times> 'f" where
  "factor fo wpr wpi r = (next_factor fo wpr wpi ^^ r) (fa_of_int fo 1, fa_of_int fo 0)"

definition stage_places :: "nat \<Rightarrow> nat \<Rightarrow> nat \<Rightarrow> nat list" where
  "stage_places h c R = concat (map (\<lambda>r. map (\<lambda>t. r + 2 * h * t) [0..<c]) [0..<R])"

lemma stage_places_set:
  assumes "R \<le> h"
  shows "set (stage_places h c R) = {u. u mod (2 * h) < R \<and> u < 2 * h * c}"
proof -
  have "u \<in> set (stage_places h c R)" if "u mod (2 * h) < R" "u < 2 * h * c" for u
  proof -
    have "u div (2 * h) < c" using that(2) by (simp add: less_mult_imp_div_less mult.commute)
    then have "u \<in> (\<lambda>t. u mod (2 * h) + 2 * h * t) ` {0..<c}"
      by (intro image_eqI [of _ _ "u div (2 * h)"]) simp_all
    then show ?thesis using that(1) unfolding stage_places_def set_concat set_map set_upt by force
  qed
  moreover have "u mod (2 * h) < R \<and> u < 2 * h * c" if "u \<in> set (stage_places h c R)" for u
  proof -
    have "\<exists>r\<in>{0..<R}. \<exists>t\<in>{0..<c}. u = r + 2 * h * t"
      using that by (simp only: stage_places_def set_concat set_map set_upt image_image) blast
    then obtain r t where rt: "u = r + 2 * h * t" "r < R" "t < c" by auto
    have "2 * h * (t + 1) \<le> 2 * h * c" using rt(3) by (intro mult_le_mono2) simp
    then show ?thesis using rt assms by simp
  qed
  ultimately show ?thesis by blast
qed

lemma stage_places_distinct:
  assumes "R \<le> h"
  shows "distinct (stage_places h c R)"
  using assms
proof (induction R)
  case (Suc R)
  have "distinct (map (\<lambda>t. R + 2 * h * t) [0..<c])" using Suc.prems by (auto simp: distinct_map inj_on_def)
  moreover have "(R + 2 * h * t) mod (2 * h) = R" for t using Suc.prems by simp
  ultimately show ?case
    using Suc stage_places_set [of R h c] by (auto simp: stage_places_def)
qed (simp add: stage_places_def)

lemma stage_steps:
  assumes "base = int (length pre) - 1" "length xs = 2 * h * c" "R \<le> h" "0 < h"
  shows "for_list [0..<R] (stage_step fo base (2 * int (2 * h * c)) (2 * int h) wpr wpi)
           (pre @ flat xs @ post, (fa_of_int fo 1, fa_of_int fo 0)) =
         Inr (pre @ flat (bflies fo h (\<lambda>u. factor fo wpr wpi (u mod (2 * h))) (stage_places h c R) xs) @ post,
              factor fo wpr wpi R)"
  using assms(3)
proof (induction R)
  case 0
  then show ?case by (simp add: stage_places_def bflies_def factor_def)
next
  case (Suc R)
  let ?w = "\<lambda>u. factor fo wpr wpi (u mod (2 * h))"
  let ?ys = "bflies fo h ?w (stage_places h c R) xs"
  have "\<forall>u \<in> set (map (\<lambda>t. R + 2 * h * t) [0..<c]). u + h < length ?ys \<and> ?w u = factor fo wpr wpi R"
  proof
    fix u assume "u \<in> set (map (\<lambda>t. R + 2 * h * t) [0..<c])"
    then have "\<exists>t. u = R + 2 * h * t \<and> t < c" by auto
    then obtain t where t: "u = R + 2 * h * t" "t < c" by blast
    have "2 * h * (t + 1) \<le> 2 * h * c" using t(2) by (intro mult_le_mono2) simp
    then show "u + h < length ?ys \<and> ?w u = factor fo wpr wpi R" using t(1) Suc.prems assms(2) by simp
  qed
  from for_list_butterflies [OF assms(1,4) this, where fo = fo and post = post]
  have "stage_step fo base (2 * int (2 * h * c)) (2 * int h) wpr wpi R (pre @ flat ?ys @ post, factor fo wpr wpi R) =
      Inr (pre @ flat (bflies fo h ?w (stage_places h c (Suc R)) xs) @ post, factor fo wpr wpi (Suc R))"
    using Suc.prems by (simp only: stage_step_def prod.case strided_eq [of R h c] bnd_Inr)
      (simp add: stage_places_def bflies_append factor_def)
  then show ?case using Suc by (simp add: for_list_append)
qed

lemma bflies_stage:
  assumes "length xs = 2 * h * c" "0 < h"
  shows "bflies fo h (\<lambda>u. w (u mod (2 * h))) (stage_places h c h) xs = stage_pairs fo h w xs"
proof (rule nth_equalityI)
  fix i assume "i < length (bflies fo h (\<lambda>u. w (u mod (2 * h))) (stage_places h c h) xs)"
  then have i: "i < 2 * h * c" using assms(1) by simp
  have fits: "u + h < 2 * h * c" if "u mod (2 * h) < h" "u < 2 * h * c" for u
  proof -
    have "u div (2 * h) + 1 \<le> c" using that(2) less_mult_imp_div_less [of u c "2 * h"] by (simp add: mult.commute)
    then have "2 * h * (u div (2 * h)) + 2 * h \<le> 2 * h * c" using mult_le_mono2 [of "u div (2 * h) + 1" c "2 * h"] by simp
    with that(1) mult_div_mod_eq [of "2 * h" u] show ?thesis by linarith
  qed
  note places = stage_places_set [of h h c, simplified]
  have upper: "h \<le> i \<and> (i - h) mod (2 * h) < h \<and> (i - h) mod (2 * h) = i mod (2 * h) - h" if "\<not> i mod (2 * h) < h"
  proof -
    have "h \<le> i" using that mod_less_eq_dividend [of i "2 * h"] by linarith
    moreover have "i = (i mod (2 * h) - h) + h + 2 * h * (i div (2 * h))" using that by simp
    then have "i - h = (i mod (2 * h) - h) + 2 * h * (i div (2 * h))" by linarith
    then have "(i - h) mod (2 * h) = (i mod (2 * h) - h) mod (2 * h)" by (metis mod_mult_self2)
    moreover have "i mod (2 * h) < 2 * h" using assms(2) by simp
    ultimately show ?thesis using that by (simp add: less_diff_conv2)
  qed
  show "bflies fo h (\<lambda>u. w (u mod (2 * h))) (stage_places h c h) xs ! i = stage_pairs fo h w xs ! i"
    using i assms upper fits
    by (subst bflies_nth [OF assms(2) stage_places_distinct]) (auto simp: places stage_pairs_def)
qed (simp add: stage_pairs_def)

text \<open>The factors of stage \<open>s\<close>, with half blocks of \<open>2 ^ s\<close> pairs, from the table.\<close>

definition stage_factor :: "'f fft_arith \<Rightarrow> 'f list \<Rightarrow> nat \<Rightarrow> nat \<Rightarrow> 'f \<times> 'f" where
  "stage_factor fo lut s =
     factor fo (fa_mul fo (fa_mul fo (fa_of_int fo (- 2)) (lut ! Suc s)) (lut ! Suc s)) (lut ! s)"

lemma length_stage_pairs [simp]: "length (stage_pairs fo h w xs) = length xs"
  by (simp add: stage_pairs_def)

lemma stage_eq:
  assumes "base = int (length pre) - 1" "length xs = 2 ^ k" "s < k" "Suc s < length lut"
  shows "stage fo lut base (2 * 2 ^ k) (Suc s) (pre @ flat xs @ post) =
           Inr (pre @ flat (stage_pairs fo (2 ^ s) (stage_factor fo lut s) xs) @ post)"
proof -
  let ?h = "2 ^ s :: nat" and ?c = "2 ^ (k - Suc s) :: nat"
  have N: "2 * ?h * ?c = 2 ^ k" using assms(3) by (simp flip: power_Suc power_add)
  have n: "2 * int (2 * ?h * ?c) = 2 * 2 ^ k" unfolding N by simp
  have m: "2 ^ Suc s = 2 * int ?h" "nat (2 * int ?h div 2) = ?h" by simp_all
  have len: "length xs = 2 * ?h * ?c" using assms(2) N by simp
  have lut: "rd lut (Suc s) = Inr (lut ! Suc s)" "rdz lut (int (Suc s) - 1) = Inr (lut ! s)"
    using assms(4) by (simp_all add: rdz_def rd_def)
  show ?thesis
    unfolding stage_def lut bnd_Inr Let_def m n [symmetric]
    by (simp only: stage_steps [OF assms(1) len order_refl] zero_less_power zero_less_numeral pos2 bnd_Inr prod.case)
      (simp add: bflies_stage [OF len] stage_factor_def)
qed

fun run_stages :: "'f fft_arith \<Rightarrow> 'f list \<Rightarrow> nat \<Rightarrow> nat \<Rightarrow> ('f \<times> 'f) list \<Rightarrow> ('f \<times> 'f) list" where
  "run_stages fo lut s 0 xs = xs"
| "run_stages fo lut s (Suc d) xs = run_stages fo lut (Suc s) d (stage_pairs fo (2 ^ s) (stage_factor fo lut s) xs)"

lemma length_run_stages [simp]: "length (run_stages fo lut s d xs) = length xs"
  by (induction d arbitrary: s xs) auto

lemma stages_eq:
  assumes "base = int (length pre) - 1" "length xs = 2 ^ k" "s + d = k" "k < length lut"
  shows "stages fo lut base (2 * 2 ^ k) (Suc s) (pre @ flat xs @ post) = Inr (pre @ flat (run_stages fo lut s d xs) @ post)"
  using assms(2,3)
proof (induction d arbitrary: s xs)
  case 0
  then show ?case by (subst stages.simps) simp
next
  case (Suc d)
  then have s: "s < k" by simp
  then have "(2 :: int) ^ Suc s < 2 * 2 ^ k" by simp
  moreover have "stage fo lut base (2 * 2 ^ k) (Suc s) (pre @ flat xs @ post) =
      Inr (pre @ flat (stage_pairs fo (2 ^ s) (stage_factor fo lut s) xs) @ post)"
    using Suc.prems s assms(4) by (intro stage_eq [OF assms(1)]) simp_all
  moreover have "stages fo lut base (2 * 2 ^ k) (Suc (Suc s))
      (pre @ flat (stage_pairs fo (2 ^ s) (stage_factor fo lut s) xs) @ post) =
      Inr (pre @ flat (run_stages fo lut (Suc s) d (stage_pairs fo (2 ^ s) (stage_factor fo lut s) xs)) @ post)"
    using Suc.prems by (intro Suc.IH) simp_all
  ultimately show ?case by (subst stages.simps) simp
qed

section \<open>The reversal at the end\<close>

definition turned_upto :: "nat \<Rightarrow> 'a list \<Rightarrow> 'a list" where
  "turned_upto P xs =
     map (\<lambda>i. if 0 < i \<and> (i < P \<or> length xs - i < P) then xs ! (length xs - i) else xs ! i) [0..<length xs]"

definition turned :: "'a list \<Rightarrow> 'a list" where
  "turned xs = map (\<lambda>i. xs ! ((length xs - i) mod length xs)) [0..<length xs]"

lemma turned_step:
  assumes "0 < P" "2 * P < length xs"
  shows "(turned_upto P xs)[P := turned_upto P xs ! (length xs - P), length xs - P := turned_upto P xs ! P] =
           turned_upto (Suc P) xs"
  using assms by (intro nth_equalityI) (auto simp: turned_upto_def nth_list_update less_Suc_eq)

lemma turned_steps:
  assumes "base = int (length pre) - 1" "0 < P" "2 * P \<le> length xs + 1"
  shows "for_list [1..<P] (final_step base (int (length xs))) (pre @ flat xs @ post) = Inr (pre @ flat (turned_upto P xs) @ post)"
  using assms(2,3)
proof (induction P rule: nat_induct_non_zero)
  case 1
  have "turned_upto 1 xs = xs" by (auto simp: turned_upto_def intro!: nth_equalityI)
  then show ?case by simp
next
  case (Suc P)
  let ?ys = "turned_upto P xs" and ?N = "length xs"
  have P: "P < length ?ys" "?N - P < length ?ys" using Suc.prems Suc.hyps by (simp_all add: turned_upto_def)
  have e: "1 + 2 * int P = 2 * int P + 1" "1 + 2 * (int ?N - int P) = 2 * int (?N - P) + 1"
    using P by (simp_all add: turned_upto_def of_nat_diff)
  have step: "?ys[P := ?ys ! (?N - P), ?N - P := ?ys ! P] = turned_upto (Suc P) xs"
    using Suc.prems Suc.hyps by (intro turned_step) simp_all
  have "final_step base (int ?N) P (pre @ flat ?ys @ post) = Inr (pre @ flat (turned_upto (Suc P) xs) @ post)"
    unfolding final_step_def Let_def e swap_pairs [OF assms(1) P(2,1)] step ..
  then show ?case using Suc by (simp add: for_list_append upt_Suc_append)
qed

lemma final_reversal_eq:
  assumes "base = int (length pre) - 1" "0 < length xs"
  shows "final_reversal base (int (length xs)) (pre @ flat xs @ post) = Inr (pre @ flat (turned xs) @ post)"
proof -
  let ?P = "(length xs + 1) div 2"
  have P: "nat ((int (length xs) + 1) div 2) = ?P" by (simp add: nat_div_distrib nat_add_distrib)
  have "turned_upto ?P xs = turned xs"
  proof (rule nth_equalityI)
    fix i assume "i < length (turned_upto ?P xs)"
    then have i: "i < length xs" by (simp add: turned_upto_def)
    show "turned_upto ?P xs ! i = turned xs ! i"
    proof (cases "0 < i \<and> \<not> (i < ?P \<or> length xs - i < ?P)")
      case True
      then have "length xs - i = i" using i by linarith
      with i True show ?thesis by (simp add: turned_upto_def turned_def)
    next
      case False
      with i show ?thesis by (auto simp: turned_upto_def turned_def)
    qed
  qed (simp add: turned_upto_def turned_def)
  then show ?thesis
    using turned_steps [OF assms(1), of ?P xs post] assms(2) by (simp add: final_reversal_def P)
qed

text \<open>The whole of \<open>four1\<close> on the pairs of its segment of the array.\<close>

definition four1_pairs :: "'f fft_arith \<Rightarrow> 'f list \<Rightarrow> nat \<Rightarrow> ('f \<times> 'f) list \<Rightarrow> ('f \<times> 'f) list" where
  "four1_pairs fo lut k xs = turned (run_stages fo lut 0 k (map (\<lambda>i. xs ! bitrev k i) [0..<2 ^ k]))"

lemma four1_eq:
  assumes "base = int (length pre) - 1" "length xs = 2 ^ k" "k < length lut"
  shows "four1 fo lut base (2 ^ k) (pre @ flat xs @ post) = Inr (pre @ flat (four1_pairs fo lut k xs) @ post)"
proof -
  let ?ys = "map (\<lambda>i. xs ! bitrev k i) [0..<2 ^ k]" and ?zs = "run_stages fo lut 0 k (map (\<lambda>i. xs ! bitrev k i) [0..<2 ^ k])"
  have "stages fo lut base (2 * 2 ^ k) 1 (pre @ flat ?ys @ post) = Inr (pre @ flat ?zs @ post)"
    using stages_eq [OF assms(1), of ?ys k 0 k lut fo post] assms(3) by simp
  moreover have "final_reversal base (2 ^ k) (pre @ flat ?zs @ post) = Inr (pre @ flat (turned ?zs) @ post)"
    using final_reversal_eq [OF assms(1), of ?zs post] by simp
  ultimately show ?thesis
    by (simp add: four1_def bit_reversal_eq [OF assms(1,2)] four1_pairs_def)
qed

end
