(* ===== verification/FFT_Fourier.thy ===== *)
theory FFT_Fourier
  imports FFT_Four1
begin

text \<open>
  What \<open>four1\<close> computes: with exact arithmetic and an exact table of sines, the discrete Fourier
  transform of its segment of the array. The stages are related to the sums over the even and the
  odd places of ever longer blocks.
\<close>

section \<open>Exact arithmetic\<close>

definition exact_fft :: "real fft_arith" where
  "exact_fft = \<lparr>fa_add = (+), fa_sub = (-), fa_mul = (*), fa_div = (/), fa_of_int = of_int, fa_half = 1 / 2,
                fa_pi = pi, fa_sin = sin\<rparr>"

definition cpx :: "real \<times> real \<Rightarrow> complex" where
  "cpx p = Complex (fst p) (snd p)"

definition exact_lut :: "nat \<Rightarrow> real list \<Rightarrow> bool" where
  "exact_lut k lut \<longleftrightarrow> k < length lut \<and> (\<forall>i\<le>k. lut ! i = sin (pi / 2 ^ i))"

lemma cpx_pair:
  "cpx (padd exact_fft x y) = cpx x + cpx y" "cpx (psub exact_fft x y) = cpx x - cpx y"
  "cpx (pmul exact_fft x y) = cpx x * cpx y"
  by (simp_all add: cpx_def padd_def psub_def pmul_def exact_fft_def complex_eq_iff)

lemma factor_cis:
  assumes "wpr = - 2 * sin (a / 2) * sin (a / 2)" "wpi = sin a"
  shows "cpx (factor exact_fft wpr wpi r) = cis a ^ r"
proof (induction r)
  case 0
  show ?case by (simp add: factor_def cpx_def exact_fft_def complex_eq_iff)
next
  case (Suc r)
  have cosine: "1 + wpr = cos a" using cos_double_sin [of "a / 2"] assms(1) by (simp add: power2_eq_square)
  have "cpx (next_factor exact_fft wpr wpi w) = cpx w * Complex (1 + wpr) wpi" for w
    by (simp add: cpx_def next_factor_def exact_fft_def complex_eq_iff case_prod_beta algebra_simps)
  moreover have "Complex (1 + wpr) wpi = cis a" using cosine assms(2) by (simp add: complex_eq_iff)
  ultimately show ?case using Suc by (simp add: factor_def)
qed

lemma stage_factor_cis:
  assumes "exact_lut k lut" "s < k"
  shows "cpx (stage_factor exact_fft lut s r) = cis (pi / 2 ^ s) ^ r"
  unfolding stage_factor_def using assms
  by (intro factor_cis) (simp_all add: exact_lut_def exact_fft_def mult.commute)

lemma stage_pairs_cpx:
  assumes "exact_lut k lut" "s < k" "i < length xs"
  shows "cpx (stage_pairs exact_fft (2 ^ s) (stage_factor exact_fft lut s) xs ! i) =
    (if i mod 2 ^ Suc s < 2 ^ s then cpx (xs ! i) + cis (pi / 2 ^ s) ^ (i mod 2 ^ Suc s) * cpx (xs ! (i + 2 ^ s))
     else cpx (xs ! (i - 2 ^ s)) - cis (pi / 2 ^ s) ^ (i mod 2 ^ Suc s - 2 ^ s) * cpx (xs ! i))"
  using assms(3) by (simp add: stage_pairs_def cpx_pair stage_factor_cis [OF assms(1,2)])

section \<open>Sums over even and odd places\<close>

definition dsum :: "nat \<Rightarrow> (nat \<Rightarrow> complex) \<Rightarrow> nat \<Rightarrow> complex" where
  "dsum s g r = (\<Sum>t<2 ^ s. g t * cis (2 * pi * real (r * t) / 2 ^ s))"

lemma sum_even_odd: "(\<Sum>t<2 * n. h t) = (\<Sum>t<n. h (2 * t)) + (\<Sum>t<n. h (2 * t + 1))" for h :: "nat \<Rightarrow> complex"
  by (induction n) (simp_all add: algebra_simps)

lemma cis_shift: "cis (a + 2 * pi * real n) = cis a"
  using cis_mult [of a "2 * pi * real n"] by simp

lemma dsum_low:
  "dsum (Suc s) g r = dsum s (\<lambda>t. g (2 * t)) r + cis (pi / 2 ^ s) ^ r * dsum s (\<lambda>t. g (2 * t + 1)) r"
proof -
  have even: "cis (2 * pi * real (r * (2 * t)) / 2 ^ Suc s) = cis (2 * pi * real (r * t) / 2 ^ s)" for t
    by (simp add: field_simps)
  have odd: "cis (2 * pi * real (r * (2 * t + 1)) / 2 ^ Suc s) = cis (pi / 2 ^ s) ^ r * cis (2 * pi * real (r * t) / 2 ^ s)" for t
    unfolding DeMoivre cis_mult by (rule arg_cong [of _ _ cis]) (simp add: field_simps)
  show ?thesis
    unfolding dsum_def power_Suc sum_even_odd sum_distrib_left
    by (simp only: even [unfolded power_Suc] odd [unfolded power_Suc] mult.left_commute)
qed

lemma dsum_high:
  "dsum (Suc s) g (r + 2 ^ s) = dsum s (\<lambda>t. g (2 * t)) r - cis (pi / 2 ^ s) ^ r * dsum s (\<lambda>t. g (2 * t + 1)) r"
proof -
  have even: "cis (2 * pi * real ((r + 2 ^ s) * (2 * t)) / 2 ^ Suc s) = cis (2 * pi * real (r * t) / 2 ^ s)" for t
  proof -
    have "2 * pi * real ((r + 2 ^ s) * (2 * t)) / 2 ^ Suc s = 2 * pi * real (r * t) / 2 ^ s + 2 * pi * real t"
      by (simp add: field_simps)
    then show ?thesis by (simp only: cis_shift)
  qed
  have odd: "cis (2 * pi * real ((r + 2 ^ s) * (2 * t + 1)) / 2 ^ Suc s) =
      - (cis (pi / 2 ^ s) ^ r * cis (2 * pi * real (r * t) / 2 ^ s))" for t
  proof -
    have "2 * pi * real ((r + 2 ^ s) * (2 * t + 1)) / 2 ^ Suc s =
        (real r * (pi / 2 ^ s) + 2 * pi * real (r * t) / 2 ^ s) + pi + 2 * pi * real t"
      by (simp add: field_simps)
    then show ?thesis unfolding DeMoivre cis_mult minus_cis by (simp only: cis_shift)
  qed
  have odd': "x * cis (2 * pi * real ((r + 2 ^ s) * (2 * t + 1)) / 2 ^ Suc s) =
      - (cis (pi / 2 ^ s) ^ r * (x * cis (2 * pi * real (r * t) / 2 ^ s)))" for x t
    unfolding odd by simp
  show ?thesis
    unfolding dsum_def power_Suc sum_even_odd sum_distrib_left
    by (simp only: even [unfolded power_Suc] odd' [unfolded power_Suc] sum_negf add_uminus_conv_diff)
qed

section \<open>The transform\<close>

text \<open>
  Before stage \<open>s\<close> the place \<open>2 ^ s * b + r\<close> holds the sum over the values whose numbers end in the
  reversed bits of \<open>b\<close>.
\<close>

definition level_ok :: "nat \<Rightarrow> (nat \<Rightarrow> complex) \<Rightarrow> nat \<Rightarrow> (real \<times> real) list \<Rightarrow> bool" where
  "level_ok k f s xs \<longleftrightarrow> length xs = 2 ^ k \<and>
     (\<forall>b < 2 ^ (k - s). \<forall>r < 2 ^ s.
        cpx (xs ! (2 ^ s * b + r)) = dsum s (\<lambda>t. f (bitrev (k - s) b + 2 ^ (k - s) * t)) r)"

lemma block_place: "b < 2 ^ m \<Longrightarrow> r < 2 ^ s \<Longrightarrow> 2 ^ s * b + r < 2 ^ (s + m)" for b r :: nat
proof -
  assume "b < 2 ^ m" "r < 2 ^ s"
  then have "2 ^ s * (b + 1) \<le> 2 ^ s * 2 ^ m" by (intro mult_le_mono2) simp
  then show ?thesis using \<open>r < 2 ^ s\<close> by (simp add: power_add)
qed

lemma level_step:
  assumes "exact_lut k lut" "s < k" "level_ok k f s xs"
  shows "level_ok k f (Suc s) (stage_pairs exact_fft (2 ^ s) (stage_factor exact_fft lut s) xs)"
proof -
  define m where "m = k - Suc s"
  have m: "k - s = Suc m" "k - Suc s = m" "k = Suc s + m" using assms(2) by (auto simp: m_def)
  have len: "length xs = 2 ^ k" using assms(3) by (simp add: level_ok_def)
  have block: "cpx (xs ! (2 ^ s * b + r)) = dsum s (\<lambda>t. f (bitrev (Suc m) b + 2 ^ Suc m * t)) r"
    if "b < 2 ^ Suc m" "r < 2 ^ s" for b r
    using assms(3) that unfolding level_ok_def m(1) by blast
  let ?ys = "stage_pairs exact_fft (2 ^ s) (stage_factor exact_fft lut s) xs"
  have "cpx (?ys ! (2 ^ Suc s * b + r)) = dsum (Suc s) (\<lambda>t. f (bitrev m b + 2 ^ m * t)) r"
    if b: "b < 2 ^ m" and r: "r < 2 ^ Suc s" for b r
  proof -
    let ?g = "\<lambda>t. f (bitrev m b + 2 ^ m * t)"
    have place: "2 ^ Suc s * b + r < length xs" using block_place [OF b r] len m(3) by simp
    have res: "(2 ^ Suc s * b + r) mod 2 ^ Suc s = r" using r by simp
    have rev: "bitrev (Suc m) (2 * b) = bitrev m b" "bitrev (Suc m) (2 * b + 1) = 2 ^ m + bitrev m b" by simp_all
    have even: "cpx (xs ! (2 ^ s * (2 * b) + q)) = dsum s (\<lambda>t. ?g (2 * t)) q" if "q < 2 ^ s" for q
      using block [of "2 * b" q] b that unfolding rev by (simp add: algebra_simps)
    have odd: "cpx (xs ! (2 ^ s * (2 * b + 1) + q)) = dsum s (\<lambda>t. ?g (2 * t + 1)) q" if "q < 2 ^ s" for q
      using block [of "2 * b + 1" q] b that unfolding rev by (simp add: algebra_simps)
    show ?thesis
    proof (cases "r < 2 ^ s")
      case True
      have i: "2 ^ Suc s * b + r = 2 ^ s * (2 * b) + r" "2 ^ Suc s * b + r + 2 ^ s = 2 ^ s * (2 * b + 1) + r"
        by simp_all
      have "cpx (?ys ! (2 ^ Suc s * b + r)) =
          cpx (xs ! (2 ^ s * (2 * b) + r)) + cis (pi / 2 ^ s) ^ r * cpx (xs ! (2 ^ s * (2 * b + 1) + r))"
        unfolding stage_pairs_cpx [OF assms(1,2) place] res i(2) using True by (simp only: if_True i(1))
      then show ?thesis by (simp only: even [OF True] odd [OF True] dsum_low)
    next
      case False
      define q where "q = r - 2 ^ s"
      have q: "r = q + 2 ^ s" "q < 2 ^ s" using False r by (simp_all add: q_def)
      have i: "2 ^ Suc s * b + r = 2 ^ s * (2 * b + 1) + q" "2 ^ Suc s * b + r - 2 ^ s = 2 ^ s * (2 * b) + q"
        using q(1) by simp_all
      have "cpx (?ys ! (2 ^ Suc s * b + r)) =
          cpx (xs ! (2 ^ s * (2 * b) + q)) - cis (pi / 2 ^ s) ^ q * cpx (xs ! (2 ^ s * (2 * b + 1) + q))"
        unfolding stage_pairs_cpx [OF assms(1,2) place] res i(2) using False by (simp only: if_False i(1) q_def)
      then show ?thesis by (simp only: even [OF q(2)] odd [OF q(2)] dsum_high q(1))
    qed
  qed
  then show ?thesis using len by (simp add: level_ok_def m(2))
qed

lemma run_stages_level:
  "exact_lut k lut \<Longrightarrow> s + d = k \<Longrightarrow> level_ok k f s xs \<Longrightarrow> level_ok k f k (run_stages exact_fft lut s d xs)"
proof (induction d arbitrary: s xs)
  case (Suc d)
  then show ?case using level_step [of k lut s f xs] by simp
qed simp

definition dft :: "nat \<Rightarrow> (nat \<Rightarrow> complex) \<Rightarrow> nat \<Rightarrow> complex" where
  "dft n f r = (\<Sum>t<n. f t * cis (- (2 * pi * real (r * t) / real n)))"

lemma dsum_turned:
  assumes "0 < r" "r < 2 ^ k"
  shows "dsum k f (2 ^ k - r) = dft (2 ^ k) f r"
proof -
  have "cis (2 * pi * real ((2 ^ k - r) * t) / 2 ^ k) = cis (- (2 * pi * real (r * t) / real (2 ^ k)))" for t
  proof -
    have e: "real ((2 ^ k - r) * t) = 2 ^ k * real t - real (r * t)"
      using assms(2) by (simp add: of_nat_diff algebra_simps)
    have "2 * pi * real ((2 ^ k - r) * t) / 2 ^ k = - (2 * pi * real (r * t) / real (2 ^ k)) + 2 * pi * real t"
      unfolding e by (simp add: field_simps)
    then show ?thesis by (simp only: cis_shift)
  qed
  then show ?thesis unfolding dsum_def dft_def by simp
qed

lemma four1_pairs_dft:
  assumes "exact_lut k lut" "length xs = 2 ^ k" "r < 2 ^ k"
  shows "cpx (four1_pairs exact_fft lut k xs ! r) = dft (2 ^ k) (\<lambda>t. cpx (xs ! t)) r"
proof -
  let ?f = "\<lambda>t. cpx (xs ! t)" and ?ys = "map (\<lambda>i. xs ! bitrev k i) [0..<2 ^ k]"
  have "level_ok k ?f 0 ?ys" by (simp add: level_ok_def dsum_def)
  then have "level_ok k ?f k (run_stages exact_fft lut 0 k ?ys)"
    using run_stages_level [OF assms(1), of 0 k] by simp
  then have sums: "cpx (run_stages exact_fft lut 0 k ?ys ! q) = dsum k ?f q" if "q < 2 ^ k" for q
    using that by (simp add: level_ok_def)
  have "cpx (four1_pairs exact_fft lut k xs ! r) = dsum k ?f ((2 ^ k - r) mod 2 ^ k)"
    using assms(3) by (simp add: four1_pairs_def turned_def sums)
  also have "\<dots> = dft (2 ^ k) ?f r"
  proof (cases "r = 0")
    case True
    then show ?thesis by (simp add: dsum_def dft_def)
  next
    case False
    then show ?thesis using dsum_turned [of r k ?f] assms(3) by simp
  qed
  finally show ?thesis .
qed

text \<open>
  C4: The one-dimensional transform. With exact arithmetic and a table that holds the sines of
  \<open>pi / 2 ^ i\<close>, \<open>four1\<close> on \<open>2 ^ k\<close> complex numbers anywhere in an array returns, accesses nothing
  outside its segment, and leaves the discrete Fourier transform of the segment in its place: the
  bit reversal, the recurrence of the factors, the butterflies of all stages and the reversal at
  the end together compute the sum that defines the transform.
\<close>

theorem four1_is_dft:
  assumes "exact_lut k lut" "length xs = 2 ^ k" "base = int (length pre) - 1"
  shows "\<exists>ys. four1 exact_fft lut base (2 ^ k) (pre @ flat xs @ post) = Inr (pre @ flat ys @ post) \<and>
    length ys = 2 ^ k \<and> (\<forall>r < 2 ^ k. cpx (ys ! r) = dft (2 ^ k) (\<lambda>t. cpx (xs ! t)) r)"
proof (rule exI [of _ "four1_pairs exact_fft lut k xs"], intro conjI)
  show "four1 exact_fft lut base (2 ^ k) (pre @ flat xs @ post) = Inr (pre @ flat (four1_pairs exact_fft lut k xs) @ post)"
    using assms by (intro four1_eq) (simp_all add: exact_lut_def)
  show "length (four1_pairs exact_fft lut k xs) = 2 ^ k" by (simp add: four1_pairs_def turned_def)
  show "\<forall>r < 2 ^ k. cpx (four1_pairs exact_fft lut k xs ! r) = dft (2 ^ k) (\<lambda>t. cpx (xs ! t)) r"
    using four1_pairs_dft [OF assms(1,2)] by blast
qed

theorem four1_is_dft_witness:
  "\<exists>ys. four1 exact_fft [0, 1] 0 2 [7, 1, 2, 3, 4] = Inr (7 # flat ys) \<and>
    length ys = 2 \<and> (\<forall>r < 2. cpx (ys ! r) = dft 2 (\<lambda>t. cpx ([(1, 2), (3, 4)] ! t)) r)"
proof -
  have "exact_lut 1 [0, 1]" by (auto simp: exact_lut_def le_Suc_eq)
  then show ?thesis using four1_is_dft [of 1 "[0, 1]" "[(1, 2), (3, 4)]" 0 "[7]" "[]"] by simp
qed

end
