(* ===== verification/FFT_Program.thy ===== *)
theory FFT_Program
  imports FFT_Fourier Task_Worker
begin

text \<open>
  The FFT benchmark around \<open>four1\<close> (benchmarks/fft/fft.c): \<open>fft\<close>, which splits rows of more than 512
  numbers, the two transpositions by blocks, the setup in \<open>main\<close>, and the four phases of a worker.
  The flags of the write-back strategies are never set in this benchmark and its two maintenance
  functions are empty, so that the descriptor buffer stays unused.
\<close>

section \<open>fft\<close>

text \<open>
  Step 4a: Duff's device. \<open>duff_loop\<close> enters the body with \<open>k\<close> copies left in the first pass and
  \<open>countdown\<close> as it is before the test of the loop.
\<close>

definition copy_one :: "'f list \<Rightarrow> nat \<times> nat \<times> 'f list \<Rightarrow> (nat \<times> nat \<times> 'f list) c_result" where
  "copy_one inp s =
     (case s of (p, q, out) \<Rightarrow> bnd (rd inp p) (\<lambda>v. bnd (wr out q v) (\<lambda>out. Inr (p + 1, q + 1, out))))"

function duff_loop :: "'f list \<Rightarrow> int \<Rightarrow> nat \<Rightarrow> nat \<times> nat \<times> 'f list \<Rightarrow> (nat \<times> nat \<times> 'f list) c_result" where
  "duff_loop inp countdown k s =
     bnd (for_n k (\<lambda>_. copy_one inp) s) (\<lambda>s.
       if countdown - 8 > 0 then duff_loop inp (countdown - 8) 8 s else Inr s)"
  by auto

termination duff_loop
  by (relation "measure (\<lambda>(inp, countdown, k, s). nat countdown)") auto

declare duff_loop.simps [simp del]

definition duff_copy :: "'f list \<Rightarrow> int \<Rightarrow> nat \<times> nat \<times> 'f list \<Rightarrow> (nat \<times> nat \<times> 'f list) c_result" where
  "duff_copy inp countdown =
     duff_loop inp countdown (if countdown mod 8 = 0 then 8 else nat (countdown mod 8))"

text \<open>One number of steps 2 and 3: read at \<open>inwalker\<close>, multiply, store at \<open>outwalker\<close> in the workspace.\<close>

definition twiddle_one ::
  "'f fft_arith \<Rightarrow> 'f list \<Rightarrow> int \<Rightarrow> 'f \<Rightarrow> 'f \<Rightarrow> nat \<Rightarrow> nat \<Rightarrow> nat \<Rightarrow> 'f list \<times> ('f \<times> 'f) \<Rightarrow> ('f list \<times> ('f \<times> 'f)) c_result" where
  "twiddle_one fo a base wpr wpi numffts i c s =
     (case s of (ws, w) \<Rightarrow>
        let inwalker = base + 1024 * int i + 2 * int c; outwalker = 2 * i + 2 * numffts * c in
        bnd (rdz a inwalker) (\<lambda>tempr.
        bnd (rdz a (inwalker - 1)) (\<lambda>tempi.
        let tempr = fa_sub fo (fa_mul fo (fst w) tempr) (fa_mul fo (snd w) tempi);
            tempi = fa_add fo (fa_mul fo (fst w) (fa_of_int fo (int i))) (fa_mul fo (snd w) tempr)
        in bnd (wr ws outwalker tempr) (\<lambda>ws. bnd (wr ws (outwalker + 1) tempi) (\<lambda>ws.
           Inr (ws, next_factor fo wpr wpi w))))))"

definition twiddle_row ::
  "'f fft_arith \<Rightarrow> 'f list \<Rightarrow> int \<Rightarrow> int \<Rightarrow> int \<Rightarrow> nat \<Rightarrow> 'f list \<Rightarrow> 'f list c_result" where
  "twiddle_row fo a base n isign i ws =
     (let theta = fa_mul fo (fa_of_int fo isign)
            (fa_div fo (fa_mul fo (fa_mul fo (fa_of_int fo 2) (fa_pi fo)) (fa_of_int fo (int i + 1))) (fa_of_int fo n));
          wtemp = fa_sin fo (fa_mul fo (fa_half fo) theta);
          wpr = fa_mul fo (fa_mul fo (fa_of_int fo (- 2)) wtemp) wtemp;
          wpi = fa_sin fo theta
      in bnd (for_list [0..<512] (twiddle_one fo a base wpr wpi (nat (n div 512)) i)
                (ws, (fa_of_int fo 1, fa_of_int fo 0)))
           (\<lambda>(ws, w). Inr ws))"

text \<open>
  The walk of step 2 stops where the end of a row is the end of the data. If 512 does not divide
  \<open>n\<close> no row ends there and the walk leaves the array.
\<close>

definition fft ::
  "'f fft_arith \<Rightarrow> 'f list \<Rightarrow> int \<Rightarrow> int \<Rightarrow> int \<Rightarrow> 'f list \<times> 'f list \<Rightarrow> ('f list \<times> 'f list) c_result" where
  "fft fo lut base n isign s =
     (case s of (a, ws) \<Rightarrow>
        if n \<le> 512 then bnd (four1 fo lut (base - 1) n a) (\<lambda>a. Inr (a, ws))
        else let numffts = nat (n div 512) in
          bnd (for_list [0..<numffts] (\<lambda>i. four1 fo lut (base + 1024 * int i - 1) 512) a) (\<lambda>a.
          bnd (if n mod 512 = 0 then for_list [0..<numffts] (twiddle_row fo a base n isign) ws
               else Inl OutOfBounds) (\<lambda>ws.
          bnd (for_list [0..<512] (\<lambda>i. four1 fo lut (2 * int numffts * int i - 1) (int numffts)) ws) (\<lambda>ws.
          bnd (duff_copy ws (2 * n) (0, nat base, a)) (\<lambda>(p, q, a). Inr (a, ws))))))"

section \<open>The transpositions\<close>

text \<open>
  The sizes are of type \<open>int\<close> in the code. They are not negative and \<open>2 R C\<close>, the number of floats
  allocated, fits an \<open>int\<close>, so that the unsigned words stand for the same numbers.
\<close>

record fft_globals =
  fg_R :: u32
  fg_C :: u32
  fg_BI :: u32
  fg_BJ :: u32
  fg_si :: u32
  fg_sj :: u32
  fg_sr :: u32
  fg_sc :: u32

definition fft_setup :: "u32 \<Rightarrow> u32 \<Rightarrow> u32 \<Rightarrow> u32 \<Rightarrow> fft_globals" where
  "fft_setup R C bi bj =
     \<lparr>fg_R = R, fg_C = C, fg_BI = bi, fg_BJ = bj,
      fg_si = count_shift (drop_bit 1 bi) 0, fg_sj = count_shift (drop_bit 1 bj) 0,
      fg_sr = count_shift (drop_bit 1 R) 0, fg_sc = count_shift (drop_bit 1 C) 0\<rparr>"

definition block_range :: "fft_globals \<Rightarrow> u32 \<Rightarrow> (u32 \<times> u32 \<times> u32 \<times> u32) c_result" where
  "block_range g v3 =
     (let tmp1 = unat (fg_sc g - fg_sj g) in
      if 32 \<le> tmp1 then Inl BadShift
      else let tmp2 = drop_bit tmp1 v3;
               tmp3 = v3 - push_bit tmp1 tmp2;
               ilow = fg_BI g * tmp2;
               ihigh = MIN_u32 (ilow + fg_BI g) (fg_R g);
               jlow = fg_BJ g * tmp3;
               jhigh = MIN_u32 (jlow + fg_BJ g) (fg_C g)
           in Inr (ilow, ihigh, jlow, jhigh))"

text \<open>
  One complex number is copied and the walkers advance by \<open>din\<close> and \<open>dout\<close> places: 2 and \<open>2 R\<close>
  forward, \<open>2 R\<close> and 2 backward.
\<close>

definition copy_pair ::
  "'f list \<Rightarrow> nat \<Rightarrow> nat \<Rightarrow> nat \<times> nat \<times> 'f list \<Rightarrow> (nat \<times> nat \<times> 'f list) c_result" where
  "copy_pair inp din dout s =
     (case s of (p, q, out) \<Rightarrow>
        bnd (rd inp p) (\<lambda>x. bnd (wr out q x) (\<lambda>out.
        bnd (rd inp (p + 1)) (\<lambda>y. bnd (wr out (q + 1) y) (\<lambda>out. Inr (p + din, q + dout, out))))))"

definition copy_four ::
  "'f list \<Rightarrow> nat \<Rightarrow> nat \<Rightarrow> nat \<times> nat \<times> 'f list \<Rightarrow> (nat \<times> nat \<times> 'f list) c_result" where
  "copy_four inp din dout s =
     bnd (copy_pair inp din dout s) (\<lambda>s. bnd (copy_pair inp din dout s) (\<lambda>s.
     bnd (copy_pair inp din dout s) (copy_pair inp din dout)))"

text \<open>
  \<open>while (countdown % 8)\<close> copies one number a round, \<open>while (countdown != 0)\<close> four: \<open>countdown\<close> is a
  multiple of 8 there.
\<close>

definition copy_row ::
  "'f list \<Rightarrow> nat \<Rightarrow> nat \<Rightarrow> nat \<Rightarrow> nat \<times> nat \<times> 'f list \<Rightarrow> (nat \<times> nat \<times> 'f list) c_result" where
  "copy_row inp din dout countdown s =
     bnd (for_n (countdown mod 8) (\<lambda>_. copy_pair inp din dout) s)
       (for_n ((countdown - countdown mod 8) div 4) (\<lambda>_. copy_four inp din dout))"

definition TransposeBlockTask :: "fft_globals \<Rightarrow> u32 \<Rightarrow> 'f list \<Rightarrow> 'f list \<Rightarrow> 'f list c_result" where
  "TransposeBlockTask g v3 inp out =
     bnd (block_range g v3) (\<lambda>(ilow, ihigh, jlow, jhigh).
       for_list (u32_range ilow ihigh) (\<lambda>i out.
         bnd (copy_row inp 2 (unat (fg_R g * 2)) (unat (jhigh - jlow))
                (unat (i * 2 * fg_C g + 2 * jlow), unat (jlow * 2 * fg_R g + 2 * i), out))
           (\<lambda>(p, q, out). Inr out)) out)"

definition TransposeBlockTaskBackward :: "fft_globals \<Rightarrow> u32 \<Rightarrow> 'f list \<Rightarrow> 'f list \<Rightarrow> 'f list c_result" where
  "TransposeBlockTaskBackward g v3 inp out =
     bnd (block_range g v3) (\<lambda>(ilow, ihigh, jlow, jhigh).
       for_list (u32_range ilow ihigh) (\<lambda>i out.
         bnd (copy_row inp (unat (fg_R g * 2)) 2 (unat (jhigh - jlow))
                (unat (jlow * 2 * fg_R g + 2 * i), unat (i * 2 * fg_C g + 2 * jlow), out))
           (\<lambda>(p, q, out). Inr out)) out)"

section \<open>The worker threads\<close>

record 'f fft_state =
  st_data :: "'f list"
  st_data2 :: "'f list"
  st_workspace :: "'f list list"

definition row_task :: "'f fft_arith \<Rightarrow> 'f list \<Rightarrow> fft_globals \<Rightarrow> nat \<Rightarrow> u32 \<Rightarrow> 'f fft_state \<Rightarrow> 'f fft_state c_result" where
  "row_task fo lut g thread v3 s =
     bnd (rd (st_workspace s) thread) (\<lambda>ws.
     bnd (fft fo lut (uint (v3 * fg_C g * 2)) (uint (fg_C g)) 1 (st_data s, ws)) (\<lambda>(a, ws).
     Inr (s\<lparr>st_data := a, st_workspace := (st_workspace s)[thread := ws]\<rparr>)))"

definition transpose_task :: "fft_globals \<Rightarrow> u32 \<Rightarrow> 'f fft_state \<Rightarrow> 'f fft_state c_result" where
  "transpose_task g v3 s =
     bnd (TransposeBlockTask g v3 (st_data s) (st_data2 s)) (\<lambda>out. Inr (s\<lparr>st_data2 := out\<rparr>))"

definition column_task :: "'f fft_arith \<Rightarrow> 'f list \<Rightarrow> fft_globals \<Rightarrow> nat \<Rightarrow> u32 \<Rightarrow> 'f fft_state \<Rightarrow> 'f fft_state c_result" where
  "column_task fo lut g thread v3 s =
     bnd (rd (st_workspace s) thread) (\<lambda>ws.
     bnd (fft fo lut (uint (v3 * fg_R g * 2)) (uint (fg_R g)) 1 (st_data2 s, ws)) (\<lambda>(a, ws).
     Inr (s\<lparr>st_data2 := a, st_workspace := (st_workspace s)[thread := ws]\<rparr>)))"

definition back_task :: "fft_globals \<Rightarrow> u32 \<Rightarrow> 'f fft_state \<Rightarrow> 'f fft_state c_result" where
  "back_task g v3 s =
     bnd (TransposeBlockTaskBackward g v3 (st_data2 s) (st_data s)) (\<lambda>out. Inr (s\<lparr>st_data := out\<rparr>))"

definition num_transpose_tasks :: "fft_globals \<Rightarrow> u32 c_result" where
  "num_transpose_tasks g =
     (let k = unat (fg_si g + fg_sj g) in
      if 32 \<le> k then Inl BadShift else Inr (drop_bit k (fg_R g * fg_C g)))"

text \<open>
  A phase: the loop is enqueued, then the worker runs what it dequeues until \<open>TQ_RET_SYNC\<close> and goes
  on to the rest; a worker whose results end before that stays in the phase.
\<close>

definition phase ::
  "(u32 \<Rightarrow> tq_ret_type) \<Rightarrow> u32 c_result \<Rightarrow> (u32 \<Rightarrow> 's \<Rightarrow> 's c_result) \<Rightarrow> (tq_ret_type \<times> tq_task_desc) list \<Rightarrow>
   ('s \<Rightarrow> (bool \<times> 's) c_result) \<Rightarrow> 's \<Rightarrow> (bool \<times> 's) c_result" where
  "phase rigel_loop count body ds rest s =
     bnd count (\<lambda>n.
       if rigel_loop n \<noteq> TQ_RET_SUCCESS then Inl Aborted
       else bnd (dequeue_loop (\<lambda>tdesc. body (td_begin tdesc)) ds s) (\<lambda>(synced, s).
            if synced then rest s else Inr (False, s)))"

definition FFTWorkerThread ::
  "'f fft_arith \<Rightarrow> 'f list \<Rightarrow> fft_globals \<Rightarrow> nat \<Rightarrow> (u32 \<Rightarrow> tq_ret_type) \<Rightarrow>
   (tq_ret_type \<times> tq_task_desc) list \<Rightarrow> (tq_ret_type \<times> tq_task_desc) list \<Rightarrow>
   (tq_ret_type \<times> tq_task_desc) list \<Rightarrow> (tq_ret_type \<times> tq_task_desc) list \<Rightarrow>
   'f fft_state \<Rightarrow> (bool \<times> 'f fft_state) c_result" where
  "FFTWorkerThread fo lut g thread rigel_loop ds1 ds2 ds3 ds4 =
     phase rigel_loop (Inr (fg_R g)) (row_task fo lut g thread) ds1 (
     phase rigel_loop (num_transpose_tasks g) (transpose_task g) ds2 (
     phase rigel_loop (Inr (fg_C g)) (column_task fo lut g thread) ds3 (
     phase rigel_loop (num_transpose_tasks g) (back_task g) ds4 (\<lambda>s. Inr (True, s)))))"

text \<open>
  All workers together: in every phase the tasks in the order in which they are run, each with the
  thread that runs it; the barrier implied by \<open>TQ_RET_SYNC\<close> separates the phases.
\<close>

definition fft_run ::
  "'f fft_arith \<Rightarrow> 'f list \<Rightarrow> fft_globals \<Rightarrow> (nat \<times> u32) list \<Rightarrow> (nat \<times> u32) list \<Rightarrow> (nat \<times> u32) list \<Rightarrow>
   (nat \<times> u32) list \<Rightarrow> 'f fft_state \<Rightarrow> 'f fft_state c_result" where
  "fft_run fo lut g ts1 ts2 ts3 ts4 s =
     bnd (for_list ts1 (\<lambda>(th, v). row_task fo lut g th v) s) (\<lambda>s.
     bnd (for_list ts2 (\<lambda>(th, v). transpose_task g v) s) (\<lambda>s.
     bnd (for_list ts3 (\<lambda>(th, v). column_task fo lut g th v) s)
         (for_list ts4 (\<lambda>(th, v). back_task g v))))"

section \<open>Copying\<close>

lemma for_n_add: "for_n (m + k) (\<lambda>_. f) s = bnd (for_n m (\<lambda>_. f) s) (for_n k (\<lambda>_. f))"
proof (induction k)
  case (Suc k)
  have "for_n (Suc k) (\<lambda>_. f) = (\<lambda>s. bnd (for_n k (\<lambda>_. f) s) f)" by (simp add: fun_eq_iff)
  with Suc show ?case by (simp add: bnd_assoc)
qed (simp add: fun_eq_iff [of "for_n 0 (\<lambda>_. f)" Inr, THEN iffD2])

lemma for_n_fun: "(\<lambda>s. for_n k f s) = for_n k f"
  by simp

lemma for_n_mult: "for_n m (\<lambda>_. for_n k (\<lambda>_. f)) s = for_n (m * k) (\<lambda>_. f) s"
proof (induction m)
  case (Suc m)
  then show ?case using for_n_add [of "m * k" k f s] by (simp add: add.commute)
qed simp

lemma duff_loop_copies:
  assumes "0 < countdown"
  shows "duff_loop inp countdown k s = for_n (k + 8 * nat ((countdown - 1) div 8)) (\<lambda>_. copy_one inp) s"
  using assms
proof (induction inp countdown k s rule: duff_loop.induct)
  case (1 inp countdown k s)
  show ?case
  proof (cases "countdown - 8 > 0")
    case True
    have "(countdown - 1) div 8 = (countdown - 8 - 1) div 8 + 1" by simp
    moreover have "0 \<le> (countdown - 8 - 1) div 8" using True by simp
    ultimately have n: "k + 8 * nat ((countdown - 1) div 8) = k + (8 + 8 * nat ((countdown - 8 - 1) div 8))" by simp
    have "duff_loop inp (countdown - 8) 8 = for_n (8 + 8 * nat ((countdown - 8 - 1) div 8)) (\<lambda>_. copy_one inp)"
      using 1 True by (simp add: fun_eq_iff)
    then show ?thesis using True unfolding n for_n_add by (subst duff_loop.simps) simp
  next
    case False
    then have "(countdown - 1) div 8 = 0" using 1(2) by auto
    then show ?thesis using False by (subst duff_loop.simps) simp
  qed
qed

lemma duff_is_loop:
  assumes "0 < countdown"
  shows "duff_copy inp countdown s = for_n (nat countdown) (\<lambda>_. copy_one inp) s"
proof -
  define q m where "q = (countdown - 1) div 8" and "m = (countdown - 1) mod 8"
  have qm: "countdown = 8 * q + (m + 1)" "0 \<le> m" "m \<le> 7" "0 \<le> q"
    using assms mult_div_mod_eq [of 8 "countdown - 1"] pos_mod_bound [of 8 "countdown - 1"]
    by (auto simp: q_def m_def)
  have "countdown mod 8 = (m + 1) mod 8" unfolding qm(1) by simp
  also have "\<dots> = (if m = 7 then 0 else m + 1)" using qm(2,3) by (simp add: mod_pos_pos_trivial)
  finally have "(if countdown mod 8 = 0 then 8 else nat (countdown mod 8)) = nat (m + 1)"
    using qm(2) by (auto split: if_splits)
  moreover have "nat countdown = nat (m + 1) + 8 * nat q"
    unfolding qm(1) using qm(2,4) by (simp add: nat_add_distrib nat_mult_distrib)
  ultimately show ?thesis unfolding duff_copy_def duff_loop_copies [OF assms] q_def by simp
qed

lemma copy_one_out: "\<not> (p < length inp \<and> q < length out) \<Longrightarrow> copy_one inp (p, q, out) = Inl OutOfBounds"
  by (auto simp: copy_one_def c_monad rd_def wr_def)

lemma copy_values:
  "for_n n (\<lambda>_. copy_one inp) (p, q, out) =
     (if n = 0 \<or> p + n \<le> length inp \<and> q + n \<le> length out
      then Inr (p + n, q + n, take q out @ take n (drop p inp) @ drop (q + n) out) else Inl OutOfBounds)"
proof (induction n)
  case (Suc n)
  show ?case
  proof (cases "p + n < length inp \<and> q + n < length out")
    case True
    let ?o = "take q out @ take n (drop p inp) @ drop (q + n) out"
    have "for_n n (\<lambda>_. copy_one inp) (p, q, out) = Inr (p + n, q + n, ?o)" using Suc True by auto
    moreover have "drop (q + n) out = out ! (q + n) # drop (q + Suc n) out" using True by (simp add: Cons_nth_drop_Suc)
    moreover have "take (Suc n) (drop p inp) = take n (drop p inp) @ [inp ! (p + n)]"
      using True by (subst take_Suc_conv_app_nth) auto
    ultimately have "for_n (Suc n) (\<lambda>_. copy_one inp) (p, q, out) =
        Inr (p + Suc n, q + Suc n, (take q out @ take n (drop p inp) @ out ! (q + n) # drop (q + Suc n) out)[q + n := inp ! (p + n)])"
      "take (Suc n) (drop p inp) = take n (drop p inp) @ [inp ! (p + n)]"
      using True by (simp_all add: copy_one_def c_monad wr_def) (auto simp: c_monad)
    then show ?thesis using True by (simp add: list_update_append min_def)
  next
    case False
    let ?o = "take q out @ take n (drop p inp) @ drop (q + n) out"
    have "length ?o = length out" if "n = 0 \<or> p + n \<le> length inp \<and> q + n \<le> length out" using that by auto
    then have "copy_one inp (p + n, q + n, ?o) = Inl OutOfBounds"
      if "n = 0 \<or> p + n \<le> length inp \<and> q + n \<le> length out"
      using that False by (intro copy_one_out) auto
    then have "for_n (Suc n) (\<lambda>_. copy_one inp) (p, q, out) = Inl OutOfBounds" using Suc by (auto simp: c_monad)
    with False show ?thesis by auto
  qed
qed simp

text \<open>
  C15: Duff's device. For every positive \<open>countdown\<close> the unrolled copy with its jump into the loop
  is the plain loop that copies \<open>countdown\<close> values one by one, faults included: it overwrites as many
  places from \<open>q\<close> on with the values from \<open>p\<close> on when both arrays are long enough, and otherwise it
  makes an access out of bounds. For a \<open>countdown\<close> of zero it copies eight values.
\<close>

theorem duff_is_plain_copy:
  assumes "0 < countdown"
  shows "duff_copy inp countdown (p, q, out) = for_n (nat countdown) (\<lambda>_. copy_one inp) (p, q, out) \<and>
    duff_copy inp countdown (p, q, out) =
      (if p + nat countdown \<le> length inp \<and> q + nat countdown \<le> length out
       then Inr (p + nat countdown, q + nat countdown,
                 take q out @ take (nat countdown) (drop p inp) @ drop (q + nat countdown) out)
       else Inl OutOfBounds) \<and>
    duff_copy inp 0 (p, q, out) = for_n 8 (\<lambda>_. copy_one inp) (p, q, out)"
proof -
  have "duff_copy inp 0 (p, q, out) = for_n 8 (\<lambda>_. copy_one inp) (p, q, out)"
    unfolding duff_copy_def by (subst duff_loop.simps) simp
  moreover have "duff_copy inp countdown (p, q, out) = for_n (nat countdown) (\<lambda>_. copy_one inp) (p, q, out)"
    by (rule duff_is_loop [OF assms])
  ultimately show ?thesis using assms by (simp add: copy_values)
qed

theorem duff_is_plain_copy_witness:
  "duff_copy [1, 2, 3, 4, 5, 6, 7, 8, 9, 10, 11 :: int] 11 (0, 1, replicate 12 0) =
     Inr (11, 12, [0, 1, 2, 3, 4, 5, 6, 7, 8, 9, 10, 11])"
proof -
  let ?inp = "[1, 2, 3, 4, 5, 6, 7, 8, 9, 10, 11 :: int]"
  have "duff_copy ?inp 11 (0, 1, replicate 12 0) =
      Inr (11, 12, take 1 (replicate 12 0) @ take 11 (drop 0 ?inp) @ drop 12 (replicate 12 0))"
    using conjunct1 [OF conjunct2 [OF duff_is_plain_copy [of 11 ?inp 0 1 "replicate 12 0"]]] by simp
  then show ?thesis by (simp add: numeral_eq_Suc)
qed

lemma copy_row_plain: "copy_row inp din dout countdown s = for_n countdown (\<lambda>_. copy_pair inp din dout) s"
proof -
  have four: "copy_four inp din dout = for_n 4 (\<lambda>_. copy_pair inp din dout)"
    by (simp add: fun_eq_iff copy_four_def numeral_eq_Suc bnd_assoc)
  have m: "countdown = countdown mod 8 + (countdown - countdown mod 8) div 4 * 4"
    by presburger
  have "for_n ((countdown - countdown mod 8) div 4) (\<lambda>_. copy_four inp din dout) =
      for_n ((countdown - countdown mod 8) div 4 * 4) (\<lambda>_. copy_pair inp din dout)"
    unfolding four by (intro ext for_n_mult)
  then show ?thesis
    unfolding copy_row_def by (subst (4) m) (simp only: for_n_add)
qed

definition copies :: "'a list \<Rightarrow> (nat \<times> nat) list \<Rightarrow> 'a list \<Rightarrow> 'a list" where
  "copies xs cs ys = foldl (\<lambda>ys (s, d). ys[d := xs ! s]) ys cs"

lemma copies_simps [simp]: "copies xs [] ys = ys" "copies xs (cs @ ds) ys = copies xs ds (copies xs cs ys)"
  "copies xs ((s, d) # cs) ys = copies xs cs (ys[d := xs ! s])"
  by (simp_all add: copies_def)

lemma length_copies [simp]: "length (copies xs cs ys) = length ys"
  by (induction cs arbitrary: ys) auto

lemma copies_nth:
  "\<forall>(s, d) \<in> set cs. s = \<sigma> d \<Longrightarrow> e < length ys \<Longrightarrow>
     copies xs cs ys ! e = (if e \<in> snd ` set cs then xs ! \<sigma> e else ys ! e)"
proof (induction cs arbitrary: ys)
  case (Cons c cs)
  obtain s d where c: "c = (s, d)" by (cases c)
  show ?case using Cons by (auto simp: c nth_list_update)
qed simp

lemma copy_pair_flat:
  assumes "p < length xs" "q < length ys"
  shows "copy_pair (flat xs) din dout (2 * p, 2 * q, flat ys) = Inr (2 * p + din, 2 * q + dout, flat (ys[q := xs ! p]))"
  using assms flat_nth [OF assms(1)] flat_update [OF assms(2)]
    flat_update(2) [of q "ys[q := (fst (xs ! p), snd (ys ! q))]"]
  by (simp add: copy_pair_def c_monad)

lemma copy_pairs:
  "(\<forall>k<m. p + k * d1 < length xs \<and> q + k * d2 < length ys) \<Longrightarrow>
     for_n m (\<lambda>_. copy_pair (flat xs) (2 * d1) (2 * d2)) (2 * p, 2 * q, flat ys) =
     Inr (2 * (p + m * d1), 2 * (q + m * d2), flat (copies xs (map (\<lambda>k. (p + k * d1, q + k * d2)) [0..<m]) ys))"
proof (induction m)
  case (Suc m)
  let ?ys = "copies xs (map (\<lambda>k. (p + k * d1, q + k * d2)) [0..<m]) ys"
  let ?p = "p + m * d1" and ?q = "q + m * d2"
  have len: "?p < length xs" "?q < length ?ys" using Suc.prems by auto
  have "copy_pair (flat xs) (2 * d1) (2 * d2) (2 * ?p, 2 * ?q, flat ?ys) =
      Inr (2 * ?p + 2 * d1, 2 * ?q + 2 * d2, flat (?ys[?q := xs ! ?p]))"
    by (rule copy_pair_flat [OF len])
  then show ?case using Suc by (simp add: algebra_simps)
qed simp

section \<open>The blocks\<close>

definition fft_sizes :: "nat \<Rightarrow> nat \<Rightarrow> nat \<Rightarrow> nat \<Rightarrow> bool" where
  "fft_sizes r c a b \<longleftrightarrow> a \<le> r \<and> b \<le> c \<and> r + c < 31"

definition exp_globals :: "nat \<Rightarrow> nat \<Rightarrow> nat \<Rightarrow> nat \<Rightarrow> fft_globals" where
  "exp_globals r c a b = fft_setup (2 ^ r) (2 ^ c) (2 ^ a) (2 ^ b)"

lemma exp_globals_fields:
  assumes "fft_sizes r c a b"
  shows "exp_globals r c a b =
    \<lparr>fg_R = of_nat (2 ^ r), fg_C = of_nat (2 ^ c), fg_BI = of_nat (2 ^ a), fg_BJ = of_nat (2 ^ b),
     fg_si = of_nat a, fg_sj = of_nat b, fg_sr = of_nat r, fg_sc = of_nat c\<rparr>"
  using assms by (simp add: exp_globals_def fft_setup_def fft_sizes_def count_shift_exp del: One_nat_def)

lemma drop_bit_of_nat_u32: "v < 2 ^ 32 \<Longrightarrow> drop_bit k (of_nat v :: u32) = of_nat (v div 2 ^ k)"
proof -
  assume v: "v < 2 ^ 32"
  then have "v div 2 ^ k < 2 ^ 32" by (meson div_le_dividend le_less_trans)
  then show ?thesis using v
    by (intro word_unat_eq_iff [THEN iffD2])
      (simp only: unat_drop_bit_eq unat_of_nat_u32 drop_bit_eq_div [where 'a = nat])
qed

lemma MIN_of_nat: "x \<le> y \<Longrightarrow> y < 2 ^ 32 \<Longrightarrow> MIN_u32 (of_nat x) (of_nat y) = of_nat x"
  by (simp add: MIN_u32_def word_less_nat_alt unat_of_nat_u32)

lemma u32_range_of_nat: "lo < 2 ^ 32 \<Longrightarrow> hi < 2 ^ 32 \<Longrightarrow> u32_range (of_nat lo) (of_nat hi) = map of_nat [lo..<hi]"
  by (simp add: u32_range_def unat_of_nat_u32)

lemma block_fits: "t < 2 ^ (r - a) \<Longrightarrow> a \<le> r \<Longrightarrow> 2 ^ a * t + 2 ^ a \<le> (2 :: nat) ^ r"
proof -
  assume t: "t < 2 ^ (r - a)" "a \<le> r"
  then have "2 ^ a * (t + 1) \<le> 2 ^ a * (2 :: nat) ^ (r - a)" by (intro mult_le_mono2) simp
  also have "\<dots> = 2 ^ r" using t(2) by (simp flip: power_add)
  finally show ?thesis by simp
qed

lemma exp_less_u32: "k < 32 \<Longrightarrow> (2 :: nat) ^ k < 2 ^ 32"
  by (rule power_strict_increasing) simp_all

lemma block_range_eq:
  assumes "fft_sizes r c a b" "v < 2 ^ (r - a) * 2 ^ (c - b)"
  defines "i0 \<equiv> 2 ^ a * (v div 2 ^ (c - b))" and "j0 \<equiv> 2 ^ b * (v mod 2 ^ (c - b))"
  shows "block_range (exp_globals r c a b) (of_nat v) =
           Inr (of_nat i0, of_nat (i0 + 2 ^ a), of_nat j0, of_nat (j0 + 2 ^ b))"
    and "i0 + 2 ^ a \<le> 2 ^ r" "j0 + 2 ^ b \<le> 2 ^ c"
proof -
  have sz: "a \<le> r" "b \<le> c" "r + c < 31" using assms(1) by (simp_all add: fft_sizes_def)
  have t2: "v div 2 ^ (c - b) < 2 ^ (r - a)" using assms(2) by (simp add: less_mult_imp_div_less)
  show i: "i0 + 2 ^ a \<le> 2 ^ r" unfolding i0_def by (rule block_fits [OF t2 sz(1)])
  show j: "j0 + 2 ^ b \<le> 2 ^ c" unfolding j0_def by (rule block_fits [OF _ sz(2)]) simp
  have rc: "(2 :: nat) ^ r < 2 ^ 32" "(2 :: nat) ^ c < 2 ^ 32" "(2 :: nat) ^ (r - a + (c - b)) < 2 ^ 32"
    using sz by (intro exp_less_u32; simp)+
  have v: "v < 2 ^ 32" using assms(2) rc(3) by (simp add: power_add)
  have shift: "of_nat c - of_nat b = (of_nat (c - b) :: u32)" using sz(2) by (simp add: of_nat_diff)
  have k: "unat (of_nat (c - b) :: u32) = c - b" using sz by (intro unat_of_nat_shift) simp
  have d: "drop_bit (c - b) (of_nat v :: u32) = of_nat (v div 2 ^ (c - b))" by (rule drop_bit_of_nat_u32 [OF v])
  have "of_nat v - push_bit (c - b) (of_nat (v div 2 ^ (c - b))) = (of_nat (v - v div 2 ^ (c - b) * 2 ^ (c - b)) :: u32)"
    by (simp add: push_bit_eq_mult of_nat_diff)
  also have "v - v div 2 ^ (c - b) * 2 ^ (c - b) = v mod 2 ^ (c - b)" by (simp add: minus_div_mult_eq_mod)
  finally have m: "of_nat v - push_bit (c - b) (of_nat (v div 2 ^ (c - b))) = (of_nat (v mod 2 ^ (c - b)) :: u32)" .
  have lows: "of_nat (2 ^ a) * of_nat (v div 2 ^ (c - b)) = (of_nat i0 :: u32)"
    "of_nat (2 ^ b) * of_nat (v mod 2 ^ (c - b)) = (of_nat j0 :: u32)"
    by (simp_all add: i0_def j0_def)
  have "\<not> 32 \<le> c - b" using sz by simp
  then show "block_range (exp_globals r c a b) (of_nat v) =
      Inr (of_nat i0, of_nat (i0 + 2 ^ a), of_nat j0, of_nat (j0 + 2 ^ b))"
    unfolding exp_globals_fields [OF assms(1)] block_range_def
    by (simp only: fft_globals.simps shift k Let_def d m lows if_False of_nat_add [symmetric]
        MIN_of_nat [OF i rc(1)] MIN_of_nat [OF j rc(2)])
qed

text \<open>The copies of a task, as pairs of a source and a destination.\<close>

definition block_copies :: "nat \<Rightarrow> nat \<Rightarrow> nat \<Rightarrow> nat \<Rightarrow> nat \<Rightarrow> (nat \<times> nat) list" where
  "block_copies r c a b v =
     (let i0 = 2 ^ a * (v div 2 ^ (c - b)); j0 = 2 ^ b * (v mod 2 ^ (c - b)) in
      concat (map (\<lambda>i. map (\<lambda>k. (i * 2 ^ c + j0 + k, j0 * 2 ^ r + i + k * 2 ^ r)) [0..<2 ^ b]) [i0..<i0 + 2 ^ a]))"

lemma cell_fits:
  assumes "i < 2 ^ r" "j < 2 ^ c"
  shows "i * 2 ^ c + j < (2 :: nat) ^ (r + c)" "j * 2 ^ r + i < (2 :: nat) ^ (r + c)"
proof -
  have "(i + 1) * 2 ^ c \<le> 2 ^ r * (2 :: nat) ^ c" "(j + 1) * 2 ^ r \<le> 2 ^ c * (2 :: nat) ^ r"
    using assms by (intro mult_le_mono1; simp)+
  then show "i * 2 ^ c + j < (2 :: nat) ^ (r + c)" "j * 2 ^ r + i < (2 :: nat) ^ (r + c)"
    using assms by (simp_all add: power_add mult.commute)
qed

lemma copies_concat_loop:
  assumes "\<And>i ys. i \<in> set is \<Longrightarrow> length ys = n \<Longrightarrow> f i (flat ys) = Inr (flat (copies xs (cs i) ys))" "length ys = n"
  shows "for_list is f (flat ys) = Inr (flat (copies xs (concat (map cs is)) ys))"
  using assms
proof (induction "is" arbitrary: ys)
  case (Cons i "is")
  have "for_list is f (flat (copies xs (cs i) ys)) = Inr (flat (copies xs (concat (map cs is)) (copies xs (cs i) ys)))"
    using Cons.prems by (intro Cons.IH) auto
  then show ?case using Cons.prems by simp
qed simp

text \<open>The words of the walkers of row \<open>i\<close> of a block, and the cells they pass.\<close>

lemma block_walkers:
  assumes "fft_sizes r c a b" "i < 2 ^ r" "j0 + 2 ^ b \<le> 2 ^ c"
  shows "unat (of_nat i * 2 * of_nat (2 ^ c) + 2 * of_nat j0 :: u32) = 2 * (i * 2 ^ c + j0)"
    "unat (of_nat j0 * 2 * of_nat (2 ^ r) + 2 * of_nat i :: u32) = 2 * (j0 * 2 ^ r + i)"
    "unat (of_nat (2 ^ r) * 2 :: u32) = 2 * 2 ^ r"
    "unat (of_nat (j0 + 2 ^ b) - of_nat j0 :: u32) = 2 ^ b"
    "\<forall>k<2 ^ b. i * 2 ^ c + j0 + k * 1 < 2 ^ (r + c) \<and> j0 * 2 ^ r + i + k * 2 ^ r < 2 ^ (r + c)"
proof -
  have rc: "2 * (2 :: nat) ^ (r + c) < 2 ^ 32" "2 * (2 :: nat) ^ r < 2 ^ 32" "b < 32"
    using assms(1) exp_less_u32 [of "Suc (r + c)"] exp_less_u32 [of "Suc r"] by (simp_all add: fft_sizes_def)
  have cells: "i * 2 ^ c + j0 + k < 2 ^ (r + c)" "j0 * 2 ^ r + i + k * 2 ^ r < 2 ^ (r + c)" if "k < 2 ^ b" for k
    using cell_fits [OF assms(2), of "j0 + k" c] that assms(3) by (simp_all add: algebra_simps)
  show "unat (of_nat i * 2 * of_nat (2 ^ c) + 2 * of_nat j0 :: u32) = 2 * (i * 2 ^ c + j0)"
    using unat_of_nat_u32 [of "2 * (i * 2 ^ c + j0)"] cells(1) [of 0] rc(1) by (simp add: algebra_simps)
  show "unat (of_nat j0 * 2 * of_nat (2 ^ r) + 2 * of_nat i :: u32) = 2 * (j0 * 2 ^ r + i)"
    using unat_of_nat_u32 [of "2 * (j0 * 2 ^ r + i)"] cells(2) [of 0] rc(1) by (simp add: algebra_simps)
  show "unat (of_nat (2 ^ r) * 2 :: u32) = 2 * 2 ^ r"
    using unat_of_nat_u32 [of "2 * 2 ^ r"] rc(2) by (simp add: mult.commute)
  show "unat (of_nat (j0 + 2 ^ b) - of_nat j0 :: u32) = 2 ^ b" using unat_exp [OF rc(3)] by simp
  show "\<forall>k<2 ^ b. i * 2 ^ c + j0 + k * 1 < 2 ^ (r + c) \<and> j0 * 2 ^ r + i + k * 2 ^ r < 2 ^ (r + c)"
    using cells by simp
qed

lemma TransposeBlockTask_eq:
  assumes "fft_sizes r c a b" "v < 2 ^ (r - a) * 2 ^ (c - b)" "length xs = 2 ^ (r + c)" "length ys = 2 ^ (r + c)"
  shows "TransposeBlockTask (exp_globals r c a b) (of_nat v) (flat xs) (flat ys) =
           Inr (flat (copies xs (block_copies r c a b v) ys))"
    and "TransposeBlockTaskBackward (exp_globals r c a b) (of_nat v) (flat xs) (flat ys) =
           Inr (flat (copies xs (map prod.swap (block_copies r c a b v)) ys))"
proof -
  define i0 j0 where "i0 = 2 ^ a * (v div 2 ^ (c - b))" and "j0 = 2 ^ b * (v mod 2 ^ (c - b))"
  note br = block_range_eq [OF assms(1,2), folded i0_def j0_def]
  have "(2 :: nat) ^ r < 2 ^ 32" using assms(1) by (intro exp_less_u32) (simp add: fft_sizes_def)
  then have bits: "i0 < 2 ^ 32" "i0 + 2 ^ a < 2 ^ 32" using br(2) by linarith+
  let ?cs = "\<lambda>i. map (\<lambda>k. (i * 2 ^ c + j0 + k, j0 * 2 ^ r + i + k * 2 ^ r)) [0..<2 ^ b]"
  have row: "bnd (copy_row (flat xs) 2 (unat (of_nat (2 ^ r) * 2 :: u32)) (unat (of_nat (j0 + 2 ^ b) - of_nat j0 :: u32))
      (unat (of_nat i * 2 * of_nat (2 ^ c) + 2 * of_nat j0 :: u32), unat (of_nat j0 * 2 * of_nat (2 ^ r) + 2 * of_nat i :: u32), flat ys))
      (\<lambda>(p, q, out). Inr out) = Inr (flat (copies xs (?cs i) ys))"
    if i: "i \<in> set [i0..<i0 + 2 ^ a]" and len: "length ys = 2 ^ (r + c)" for i and ys
  proof -
    have "i < 2 ^ r" using i br(2) by simp
    note w = block_walkers [OF assms(1) this br(3)]
    have "\<forall>k<2 ^ b. i * 2 ^ c + j0 + k * 1 < length xs \<and> j0 * 2 ^ r + i + k * 2 ^ r < length ys"
      using w(5) len assms(3) by auto
    then show ?thesis using copy_pairs [of "2 ^ b" "i * 2 ^ c + j0" 1 xs "j0 * 2 ^ r + i" "2 ^ r" ys]
      unfolding w(1-4) copy_row_plain by simp
  qed
  have rowb: "bnd (copy_row (flat xs) (unat (of_nat (2 ^ r) * 2 :: u32)) 2 (unat (of_nat (j0 + 2 ^ b) - of_nat j0 :: u32))
      (unat (of_nat j0 * 2 * of_nat (2 ^ r) + 2 * of_nat i :: u32), unat (of_nat i * 2 * of_nat (2 ^ c) + 2 * of_nat j0 :: u32), flat ys))
      (\<lambda>(p, q, out). Inr out) = Inr (flat (copies xs (map prod.swap (?cs i)) ys))"
    if i: "i \<in> set [i0..<i0 + 2 ^ a]" and len: "length ys = 2 ^ (r + c)" for i and ys
  proof -
    have "i < 2 ^ r" using i br(2) by simp
    note w = block_walkers [OF assms(1) this br(3)]
    have "\<forall>k<2 ^ b. j0 * 2 ^ r + i + k * 2 ^ r < length xs \<and> i * 2 ^ c + j0 + k * 1 < length ys"
      using w(5) len assms(3) by auto
    then show ?thesis using copy_pairs [of "2 ^ b" "j0 * 2 ^ r + i" "2 ^ r" xs "i * 2 ^ c + j0" 1 ys]
      unfolding w(1-4) copy_row_plain by (simp add: comp_def)
  qed
  have cs: "block_copies r c a b v = concat (map ?cs [i0..<i0 + 2 ^ a])"
    by (simp add: block_copies_def Let_def i0_def j0_def)
  have fields: "fg_R (exp_globals r c a b) = of_nat (2 ^ r)" "fg_C (exp_globals r c a b) = of_nat (2 ^ c)"
    by (simp_all add: exp_globals_fields [OF assms(1)])
  note unf = br(1) bnd_Inr prod.case u32_range_of_nat [OF bits] for_list_map fields
  show "TransposeBlockTask (exp_globals r c a b) (of_nat v) (flat xs) (flat ys) =
      Inr (flat (copies xs (block_copies r c a b v) ys))"
    unfolding TransposeBlockTask_def unf cs using row assms(4)
    by (intro copies_concat_loop [where n = "2 ^ (r + c)"]) simp_all
  show "TransposeBlockTaskBackward (exp_globals r c a b) (of_nat v) (flat xs) (flat ys) =
      Inr (flat (copies xs (map prod.swap (block_copies r c a b v)) ys))"
    unfolding TransposeBlockTaskBackward_def unf cs map_concat map_map using rowb assms(4)
    by (intro copies_concat_loop [where n = "2 ^ (r + c)"]) (simp_all add: comp_def)
qed

section \<open>The tasks of a phase in any order\<close>

text \<open>The block that holds the cell of row \<open>i\<close> and column \<open>j\<close>.\<close>

definition block_of :: "nat \<Rightarrow> nat \<Rightarrow> nat \<Rightarrow> nat \<Rightarrow> nat \<Rightarrow> nat" where
  "block_of c a b i j = (i div 2 ^ a) * 2 ^ (c - b) + j div 2 ^ b"

lemma in_block: "2 ^ k * t \<le> x \<and> x < 2 ^ k * t + 2 ^ k \<longleftrightarrow> x div 2 ^ k = t" for x t k :: nat
  using div_block [of "2 ^ k" x t] by (auto simp: mult.commute)

lemma block_of_eq:
  assumes "b \<le> c" "j < 2 ^ c"
  shows "block_of c a b i j = v \<longleftrightarrow> i div 2 ^ a = v div 2 ^ (c - b) \<and> j div 2 ^ b = v mod 2 ^ (c - b)"
proof -
  have "(2 :: nat) ^ c = 2 ^ (c - b) * 2 ^ b" using assms(1) by (simp flip: power_add)
  then have "j div 2 ^ b < 2 ^ (c - b)" using assms(2) by (simp add: less_mult_imp_div_less)
  then show ?thesis unfolding block_of_def by (auto simp: div_mult_mod_eq)
qed

lemma block_of_less:
  assumes "fft_sizes r c a b" "i < 2 ^ r" "j < 2 ^ c"
  shows "block_of c a b i j < 2 ^ (r - a) * 2 ^ (c - b)"
proof -
  have "(2 :: nat) ^ c = 2 ^ (c - b) * 2 ^ b" "(2 :: nat) ^ r = 2 ^ (r - a) * 2 ^ a"
    using assms(1) by (simp_all add: fft_sizes_def flip: power_add)
  then have lt: "j div 2 ^ b < 2 ^ (c - b)" "i div 2 ^ a < 2 ^ (r - a)"
    using assms(2,3) by (simp_all add: less_mult_imp_div_less)
  have "(i div 2 ^ a + 1) * 2 ^ (c - b) \<le> 2 ^ (r - a) * 2 ^ (c - b)" using lt(2) by (intro mult_le_mono1) simp
  with lt(1) show ?thesis by (simp add: block_of_def)
qed

lemma block_copies_set:
  assumes "fft_sizes r c a b" "v < 2 ^ (r - a) * 2 ^ (c - b)"
  shows "set (block_copies r c a b v) =
    {(i * 2 ^ c + j, j * 2 ^ r + i) |i j. i < 2 ^ r \<and> j < 2 ^ c \<and> block_of c a b i j = v}"
proof -
  define i0 j0 where "i0 = 2 ^ a * (v div 2 ^ (c - b))" and "j0 = 2 ^ b * (v mod 2 ^ (c - b))"
  note br = block_range_eq(2,3) [OF assms, folded i0_def j0_def]
  have "set (block_copies r c a b v) =
      {(i * 2 ^ c + j, j * 2 ^ r + i) |i j. i0 \<le> i \<and> i < i0 + 2 ^ a \<and> j0 \<le> j \<and> j < j0 + 2 ^ b}" (is "_ = ?B")
  proof -
    have e: "set (block_copies r c a b v) =
        (\<Union>i\<in>set [i0..<i0 + 2 ^ a]. (\<lambda>k. (i * 2 ^ c + j0 + k, j0 * 2 ^ r + i + k * 2 ^ r)) ` set [0..<2 ^ b])"
      by (simp only: block_copies_def Let_def i0_def j0_def set_concat set_map image_image)
    have "(i * 2 ^ c + j, j * 2 ^ r + i) \<in> set (block_copies r c a b v)"
      if "i0 \<le> i" "i < i0 + 2 ^ a" "j0 \<le> j" "j < j0 + 2 ^ b" for i j
    proof -
      define k where "k = j - j0"
      have k: "j = j0 + k" "k \<in> set [0..<2 ^ b]" "i \<in> set [i0..<i0 + 2 ^ a]" using that by (auto simp: k_def)
      have "(i * 2 ^ c + j, j * 2 ^ r + i) = (i * 2 ^ c + j0 + k, j0 * 2 ^ r + i + k * 2 ^ r)"
        unfolding k(1) by (simp add: add_mult_distrib)
      then have "(i * 2 ^ c + j, j * 2 ^ r + i) \<in>
          (\<lambda>k. (i * 2 ^ c + j0 + k, j0 * 2 ^ r + i + k * 2 ^ r)) ` set [0..<2 ^ b]"
        using k(2) by (rule image_eqI)
      with k(3) show ?thesis unfolding e by (rule UN_I)
    qed
    moreover have "x \<in> ?B" if x: "x \<in> set (block_copies r c a b v)" for x
    proof -
      have "\<exists>i\<in>{i0..<i0 + 2 ^ a}. \<exists>k\<in>{0..<2 ^ b}. x = (i * 2 ^ c + j0 + k, j0 * 2 ^ r + i + k * 2 ^ r)"
        using x unfolding e set_upt by blast
      then obtain i k where ik: "x = (i * 2 ^ c + j0 + k, j0 * 2 ^ r + i + k * 2 ^ r)"
        "i \<in> {i0..<i0 + 2 ^ a}" "k \<in> {0..<2 ^ b}" by blast
      then have "x = (i * 2 ^ c + (j0 + k), (j0 + k) * 2 ^ r + i)" by (simp add: algebra_simps)
      with ik(2,3) show ?thesis by (intro CollectI exI [of _ i] exI [of _ "j0 + k"]) simp
    qed
    ultimately show ?thesis by blast
  qed
  also have "\<dots> = {(i * 2 ^ c + j, j * 2 ^ r + i) |i j. i < 2 ^ r \<and> j < 2 ^ c \<and> block_of c a b i j = v}"
  proof -
    have "i0 \<le> i \<and> i < i0 + 2 ^ a \<and> j0 \<le> j \<and> j < j0 + 2 ^ b \<longleftrightarrow> i < 2 ^ r \<and> j < 2 ^ c \<and> block_of c a b i j = v" for i j
    proof -
      have "b \<le> c" using assms(1) by (simp add: fft_sizes_def)
      moreover have "i < i0 + 2 ^ a \<Longrightarrow> i < 2 ^ r" "j < j0 + 2 ^ b \<Longrightarrow> j < 2 ^ c" using br by auto
      ultimately show ?thesis
        using block_of_eq [of b c j a i v] in_block [of a "v div 2 ^ (c - b)" i] in_block [of b "v mod 2 ^ (c - b)" j]
        unfolding i0_def j0_def by blast
    qed
    then show ?thesis by simp
  qed
  finally show ?thesis .
qed

text \<open>The destinations whose block is done hold their source.\<close>

definition part :: "(nat \<Rightarrow> nat) \<Rightarrow> (nat \<Rightarrow> nat) \<Rightarrow> 'a list \<Rightarrow> 'a list \<Rightarrow> nat set \<Rightarrow> 'a list" where
  "part src blk xs ys S = map (\<lambda>d. if blk d \<in> S then xs ! src d else ys ! d) [0..<length ys]"

lemma length_part [simp]: "length (part src blk xs ys S) = length ys"
  by (simp add: part_def)

lemma part_empty [simp]: "part src blk xs ys {} = ys"
  by (simp add: part_def map_nth)

lemma part_step:
  assumes "set cs = {(src d, d) |d. d < length ys \<and> blk d = v}"
  shows "copies xs cs (part src blk xs ys S) = part src blk xs ys (insert v S)"
proof (rule nth_equalityI)
  fix e assume "e < length (copies xs cs (part src blk xs ys S))"
  then have e: "e < length ys" by simp
  have "e \<in> snd ` set cs \<longleftrightarrow> blk e = v" using e unfolding assms by force
  moreover have "\<forall>(s, d) \<in> set cs. s = src d" unfolding assms by auto
  ultimately show "copies xs cs (part src blk xs ys S) ! e = part src blk xs ys (insert v S) ! e"
    using e copies_nth [of cs src e "part src blk xs ys S" xs] by (auto simp: part_def)
qed simp

definition fw_src :: "nat \<Rightarrow> nat \<Rightarrow> nat \<Rightarrow> nat" where
  "fw_src r c d = (d mod 2 ^ r) * 2 ^ c + d div 2 ^ r"

lemma cell_cases:
  fixes d r c :: nat
  assumes "d < 2 ^ (r + c)"
  obtains i j where "d = j * 2 ^ r + i" "i < 2 ^ r" "j < 2 ^ c"
proof
  show "d = (d div 2 ^ r) * 2 ^ r + d mod 2 ^ r" by (rule div_mult_mod_eq [symmetric])
  show "d mod 2 ^ r < 2 ^ r" by simp
  show "d div 2 ^ r < 2 ^ c" using assms by (simp add: less_mult_imp_div_less power_add mult.commute)
qed

lemma forward_copies:
  assumes "fft_sizes r c a b" "v < 2 ^ (r - a) * 2 ^ (c - b)"
  shows "set (block_copies r c a b v) =
    {(fw_src r c d, d) |d. d < 2 ^ (r + c) \<and> block_of c a b (d mod 2 ^ r) (d div 2 ^ r) = v}" (is "_ = ?B")
proof -
  have "(i * 2 ^ c + j, j * 2 ^ r + i) \<in> ?B" if "i < 2 ^ r" "j < 2 ^ c" "block_of c a b i j = v" for i j
    using that cell_fits(2) [OF that(1,2)] by (intro CollectI exI [of _ "j * 2 ^ r + i"]) (simp add: fw_src_def)
  moreover have "x \<in> set (block_copies r c a b v)" if x: "x \<in> ?B" for x
  proof -
    obtain d where d: "x = (fw_src r c d, d)" "d < 2 ^ (r + c)" "block_of c a b (d mod 2 ^ r) (d div 2 ^ r) = v"
      using x by blast
    obtain i j where ij: "d = j * 2 ^ r + i" "i < 2 ^ r" "j < 2 ^ c" using d(2) by (rule cell_cases)
    then show ?thesis using d unfolding block_copies_set [OF assms] by (auto simp: fw_src_def)
  qed
  ultimately show ?thesis unfolding block_copies_set [OF assms] by blast
qed

lemma backward_copies:
  assumes "fft_sizes r c a b" "v < 2 ^ (r - a) * 2 ^ (c - b)"
  shows "set (map prod.swap (block_copies r c a b v)) =
    {(fw_src c r d, d) |d. d < 2 ^ (r + c) \<and> block_of c a b (d div 2 ^ c) (d mod 2 ^ c) = v}" (is "_ = ?B")
proof -
  have "(j * 2 ^ r + i, i * 2 ^ c + j) \<in> ?B" if "i < 2 ^ r" "j < 2 ^ c" "block_of c a b i j = v" for i j
    using that cell_fits(1) [OF that(1,2)] by (intro CollectI exI [of _ "i * 2 ^ c + j"]) (simp add: fw_src_def)
  moreover have "x \<in> prod.swap ` set (block_copies r c a b v)" if x: "x \<in> ?B" for x
  proof -
    obtain d where d: "x = (fw_src c r d, d)" "d < 2 ^ (c + r)" "block_of c a b (d div 2 ^ c) (d mod 2 ^ c) = v"
      using x unfolding add.commute [of r c] by blast
    obtain i j where ij: "d = i * 2 ^ c + j" "j < 2 ^ c" "i < 2 ^ r" using d(2) by (rule cell_cases)
    then show ?thesis using d unfolding block_copies_set [OF assms] by (force simp: fw_src_def)
  qed
  ultimately show ?thesis unfolding set_map block_copies_set [OF assms] by (auto simp: image_iff)
qed

text \<open>Every task of a phase is run once, by some thread.\<close>

definition all_tasks :: "nat \<Rightarrow> (nat \<times> u32) list \<Rightarrow> bool" where
  "all_tasks n ts \<longleftrightarrow> distinct (map snd ts) \<and> set (map snd ts) = of_nat ` {..<n}"

lemma all_tasks_function:
  assumes "all_tasks n ts" "n < 2 ^ 32"
  obtains th vs where "ts = map (\<lambda>t. (th t, of_nat t)) vs" "distinct vs" "set vs = {..<n}" "th ` set vs = fst ` set ts"
proof -
  define m where "m = map_of (map (\<lambda>(h, v). (unat v, h)) ts)"
  define th where "th t = the (m t)" for t
  define vs where "vs = map (unat \<circ> snd) ts"
  have keys: "distinct (map fst (map (\<lambda>(h, v). (unat v, h)) ts))"
    using assms(1) unfolding all_tasks_def
    by (simp add: comp_def case_prod_beta distinct_map inj_on_def word_unat_eq_iff)
  have th: "th (unat v) = h" if "(h, v) \<in> set ts" for h v
    unfolding th_def m_def using map_of_is_SomeI [OF keys, of "unat v" h] that by force
  have ts: "ts = map (\<lambda>t. (th t, of_nat t)) vs"
    unfolding vs_def map_map comp_def by (rule map_idI [symmetric]) (auto simp: th)
  have dvs: "distinct vs"
    using keys by (simp add: vs_def comp_def case_prod_beta)
  have "set vs = unat ` (of_nat ` {..<n} :: u32 set)"
    using assms(1) unfolding all_tasks_def vs_def by (metis image_comp set_map)
  also have "\<dots> = {..<n}"
  proof -
    have "unat (of_nat t :: u32) = t" if "t \<in> {..<n}" for t using that assms(2) by (intro unat_of_nat_u32) simp
    then have "(unat \<circ> (of_nat :: nat \<Rightarrow> u32)) ` {..<n} = id ` {..<n}" by (intro image_cong) auto
    then show ?thesis by (simp add: image_comp)
  qed
  finally have svs: "set vs = {..<n}" .
  have "th ` set vs = fst ` set ts"
    unfolding vs_def using th by (force simp: image_iff)
  then show ?thesis using that [OF ts dvs svs] by blast
qed

section \<open>The transposition phases\<close>

definition transposed :: "nat \<Rightarrow> nat \<Rightarrow> 'a list \<Rightarrow> 'a list" where
  "transposed r c xs = map (\<lambda>d. xs ! fw_src r c d) [0..<2 ^ (r + c)]"

interpretation forward_phase: order_free
  "\<lambda>S. s\<lparr>st_data := flat xs,
         st_data2 := flat (part (fw_src r c) (\<lambda>d. block_of c a b (d mod 2 ^ r) (d div 2 ^ r)) xs ys S)\<rparr>"
  "\<lambda>t. transpose_task (exp_globals r c a b) (of_nat t)"
  "if fft_sizes r c a b \<and> length xs = 2 ^ (r + c) \<and> length ys = 2 ^ (r + c) then 2 ^ (r - a) * 2 ^ (c - b) else 0"
  for r c a b xs ys s
proof (unfold_locales, goal_cases)
  case (1 S t)
  then have ok: "fft_sizes r c a b" "length xs = 2 ^ (r + c)" "length ys = 2 ^ (r + c)" "t < 2 ^ (r - a) * 2 ^ (c - b)"
    by (auto split: if_splits)
  show ?case
    using forward_copies [OF ok(1,4)] ok
    by (simp add: transpose_task_def TransposeBlockTask_eq(1) part_step)
qed

interpretation backward_phase: order_free
  "\<lambda>S. s\<lparr>st_data2 := flat xs,
         st_data := flat (part (fw_src c r) (\<lambda>d. block_of c a b (d div 2 ^ c) (d mod 2 ^ c)) xs ys S)\<rparr>"
  "\<lambda>t. back_task (exp_globals r c a b) (of_nat t)"
  "if fft_sizes r c a b \<and> length xs = 2 ^ (r + c) \<and> length ys = 2 ^ (r + c) then 2 ^ (r - a) * 2 ^ (c - b) else 0"
  for r c a b xs ys s
proof (unfold_locales, goal_cases)
  case (1 S t)
  then have ok: "fft_sizes r c a b" "length xs = 2 ^ (r + c)" "length ys = 2 ^ (r + c)" "t < 2 ^ (r - a) * 2 ^ (c - b)"
    by (auto split: if_splits)
  show ?case
    using backward_copies [OF ok(1,4)] ok
    by (simp add: back_task_def TransposeBlockTask_eq(2) part_step)
qed

lemma num_tasks:
  assumes "fft_sizes r c a b"
  shows "(2 :: nat) ^ (r - a) * 2 ^ (c - b) < 2 ^ 32"
    "num_transpose_tasks (exp_globals r c a b) = Inr (of_nat (2 ^ (r - a) * 2 ^ (c - b)))"
proof -
  have sz: "a \<le> r" "b \<le> c" "r + c < 31" using assms by (simp_all add: fft_sizes_def)
  show "(2 :: nat) ^ (r - a) * 2 ^ (c - b) < 2 ^ 32"
    using exp_less_u32 [of "r - a + (c - b)"] sz unfolding power_add by simp
  have "unat (of_nat a + of_nat b :: u32) = a + b" using unat_of_nat_u32 [of "a + b"] sz by simp
  moreover have "(2 :: nat) ^ (r + c) < 2 ^ 32" using sz by (intro exp_less_u32) simp
  then have "drop_bit (a + b) (of_nat (2 ^ (r + c)) :: u32) = of_nat (2 ^ (r + c) div 2 ^ (a + b))"
    by (rule drop_bit_of_nat_u32)
  moreover have "(2 :: nat) ^ (r + c) div 2 ^ (a + b) = 2 ^ (r - a) * 2 ^ (c - b)"
    using sz by (simp add: power_diff [symmetric] flip: power_add)
  ultimately show "num_transpose_tasks (exp_globals r c a b) = Inr (of_nat (2 ^ (r - a) * 2 ^ (c - b)))"
    using sz by (simp add: num_transpose_tasks_def exp_globals_fields [OF assms] power_add Let_def)
qed

lemma transpose_phase:
  assumes "fft_sizes r c a b" "all_tasks (2 ^ (r - a) * 2 ^ (c - b)) ts"
    and "st_data s = flat xs" "st_data2 s = flat ys" "length xs = 2 ^ (r + c)" "length ys = 2 ^ (r + c)"
  shows "for_list ts (\<lambda>(th, v). transpose_task (exp_globals r c a b) v) s = Inr (s\<lparr>st_data2 := flat (transposed r c xs)\<rparr>)"
proof -
  obtain th vs where ts: "ts = map (\<lambda>t. (th t, of_nat t)) vs" "distinct vs" "set vs = {..<2 ^ (r - a) * 2 ^ (c - b)}"
    using all_tasks_function [OF assms(2) num_tasks(1) [OF assms(1)]] by metis
  let ?p = "part (fw_src r c) (\<lambda>d. block_of c a b (d mod 2 ^ r) (d div 2 ^ r)) xs ys"
  have "?p {..<2 ^ (r - a) * 2 ^ (c - b)} = transposed r c xs"
  proof -
    have "block_of c a b (d mod 2 ^ r) (d div 2 ^ r) < 2 ^ (r - a) * 2 ^ (c - b)" if "d < 2 ^ (r + c)" for d
      using that by (intro block_of_less [OF assms(1)]) (simp_all add: less_mult_imp_div_less power_add mult.commute)
    then show ?thesis using assms(6) by (simp add: part_def transposed_def)
  qed
  moreover have e: "s\<lparr>st_data := flat xs, st_data2 := z\<rparr> = s\<lparr>st_data2 := z\<rparr>" "s\<lparr>st_data2 := flat ys\<rparr> = s" for z
    using assms(3,4) by (simp_all flip: assms(3,4))
  ultimately show ?thesis
    using forward_phase.any_order [of vs r c a b xs ys s, unfolded e part_empty] assms(1,5,6) ts by (simp add: for_list_map)
qed

lemma back_phase:
  assumes "fft_sizes r c a b" "all_tasks (2 ^ (r - a) * 2 ^ (c - b)) ts"
    and "st_data2 s = flat xs" "st_data s = flat ys" "length xs = 2 ^ (r + c)" "length ys = 2 ^ (r + c)"
  shows "for_list ts (\<lambda>(th, v). back_task (exp_globals r c a b) v) s = Inr (s\<lparr>st_data := flat (transposed c r xs)\<rparr>)"
proof -
  obtain th vs where ts: "ts = map (\<lambda>t. (th t, of_nat t)) vs" "distinct vs" "set vs = {..<2 ^ (r - a) * 2 ^ (c - b)}"
    using all_tasks_function [OF assms(2) num_tasks(1) [OF assms(1)]] by metis
  let ?p = "part (fw_src c r) (\<lambda>d. block_of c a b (d div 2 ^ c) (d mod 2 ^ c)) xs ys"
  have "?p {..<2 ^ (r - a) * 2 ^ (c - b)} = transposed c r xs"
  proof -
    have "block_of c a b (d div 2 ^ c) (d mod 2 ^ c) < 2 ^ (r - a) * 2 ^ (c - b)" if "d < 2 ^ (r + c)" for d
      using that by (intro block_of_less [OF assms(1)]) (simp_all add: less_mult_imp_div_less power_add)
    then show ?thesis using assms(6) by (simp add: part_def transposed_def add.commute)
  qed
  moreover have e: "s\<lparr>st_data2 := flat xs, st_data := z\<rparr> = s\<lparr>st_data := z\<rparr>" "s\<lparr>st_data := flat ys\<rparr> = s" for z
    using assms(3,4) by (simp_all flip: assms(3,4))
  ultimately show ?thesis
    using backward_phase.any_order [of vs r c a b xs ys s, unfolded e part_empty] assms(1,5,6) ts by (simp add: for_list_map)
qed

section \<open>The row phases\<close>

definition row_of :: "nat \<Rightarrow> nat \<Rightarrow> 'a list \<Rightarrow> 'a list" where
  "row_of k t xs = take (2 ^ k) (drop (t * 2 ^ k) xs)"

definition rows_done :: "nat \<Rightarrow> ('a list \<Rightarrow> 'a list) \<Rightarrow> 'a list \<Rightarrow> nat set \<Rightarrow> 'a list" where
  "rows_done k F xs S =
     map (\<lambda>p. if p div 2 ^ k \<in> S then F (row_of k (p div 2 ^ k) xs) ! (p mod 2 ^ k) else xs ! p) [0..<length xs]"

lemma length_rows_done [simp]: "length (rows_done k F xs S) = length xs"
  by (simp add: rows_done_def)

lemma rows_done_empty [simp]: "rows_done k F xs {} = xs"
  by (simp add: rows_done_def map_nth)

lemma row_inside: "t < m \<Longrightarrow> t * 2 ^ k + 2 ^ k \<le> m * (2 :: nat) ^ k"
  using mult_le_mono1 [of "t + 1" m "2 ^ k"] by simp

lemma row_of_length: "length xs = m * 2 ^ k \<Longrightarrow> t < m \<Longrightarrow> length (row_of k t xs) = 2 ^ k"
  using row_inside [of t m k] by (simp add: row_of_def)

lemma row_of_nth: "length xs = m * 2 ^ k \<Longrightarrow> t < m \<Longrightarrow> q < 2 ^ k \<Longrightarrow> row_of k t xs ! q = xs ! (t * 2 ^ k + q)"
  using row_inside [of t m k] by (simp add: row_of_def)

lemma row_of_untouched:
  assumes "length xs = m * 2 ^ k" "t < m" "t \<notin> S"
  shows "row_of k t (rows_done k F xs S) = row_of k t xs"
proof (rule nth_equalityI)
  show len: "length (row_of k t (rows_done k F xs S)) = length (row_of k t xs)"
    by (simp add: row_of_def)
  fix q assume "q < length (row_of k t (rows_done k F xs S))"
  then have q: "q < 2 ^ k" using row_of_length [OF assms(1,2)] len by simp
  then have "t * 2 ^ k + q < length xs" using row_inside [OF assms(2), of k] assms(1) by simp
  then show "row_of k t (rows_done k F xs S) ! q = row_of k t xs ! q"
    using q assms by (simp add: row_of_nth [of _ m] rows_done_def)
qed

lemma rows_done_step:
  assumes "length xs = m * 2 ^ k" "t < m" "t \<notin> S" "\<And>ys. length ys = 2 ^ k \<Longrightarrow> length (F ys) = 2 ^ k"
  shows "take (t * 2 ^ k) (rows_done k F xs S) @ F (row_of k t (rows_done k F xs S)) @
           drop (t * 2 ^ k + 2 ^ k) (rows_done k F xs S) = rows_done k F xs (insert t S)"
proof (rule nth_equalityI)
  have inside: "t * 2 ^ k + 2 ^ k \<le> length xs" using row_inside [OF assms(2), of k] assms(1) by simp
  have F: "length (F (row_of k t xs)) = 2 ^ k" using assms(4) row_of_length [OF assms(1,2)] by simp
  show "length (take (t * 2 ^ k) (rows_done k F xs S) @ F (row_of k t (rows_done k F xs S)) @
      drop (t * 2 ^ k + 2 ^ k) (rows_done k F xs S)) = length (rows_done k F xs (insert t S))"
    using inside F by (simp add: row_of_untouched [OF assms(1-3)])
  fix p assume "p < length (take (t * 2 ^ k) (rows_done k F xs S) @ F (row_of k t (rows_done k F xs S)) @
      drop (t * 2 ^ k + 2 ^ k) (rows_done k F xs S))"
  then have p: "p < length xs" using inside F by (simp add: row_of_untouched [OF assms(1-3)])
  have row: "p div 2 ^ k = t \<longleftrightarrow> t * 2 ^ k \<le> p \<and> p < t * 2 ^ k + 2 ^ k" by (rule div_block) simp
  then have off: "p mod 2 ^ k = p - t * 2 ^ k" if "t * 2 ^ k \<le> p" "p < t * 2 ^ k + 2 ^ k"
    using that minus_div_mult_eq_mod [of p "2 ^ k"] by simp
  show "(take (t * 2 ^ k) (rows_done k F xs S) @ F (row_of k t (rows_done k F xs S)) @
      drop (t * 2 ^ k + 2 ^ k) (rows_done k F xs S)) ! p = rows_done k F xs (insert t S) ! p"
  proof (cases "t * 2 ^ k \<le> p \<and> p < t * 2 ^ k + 2 ^ k")
    case True
    then have "p div 2 ^ k = t" "p mod 2 ^ k = p - t * 2 ^ k" "p - t * 2 ^ k < 2 ^ k"
      using row off by (blast, blast, linarith)
    then show ?thesis
      unfolding row_of_untouched [OF assms(1-3)] using True p inside F by (simp add: nth_append rows_done_def)
  next
    case False
    then have "p div 2 ^ k \<noteq> t" using row by blast
    then show ?thesis
      unfolding row_of_untouched [OF assms(1-3)] using False p inside F by (auto simp: nth_append rows_done_def)
  qed
qed

lemma length_four1_pairs: "length (four1_pairs fo lut k xs) = 2 ^ k"
  by (simp add: four1_pairs_def turned_def)

lemma fft_row:
  assumes "length xs = m * 2 ^ k" "t < m" "k \<le> 9" "k < length lut"
  shows "fft fo lut (int (2 * (t * 2 ^ k))) (2 ^ k) isign (flat xs, ws) =
    Inr (flat (take (t * 2 ^ k) xs @ four1_pairs fo lut k (row_of k t xs) @ drop (t * 2 ^ k + 2 ^ k) xs), ws)"
proof -
  have split: "flat xs = flat (take (t * 2 ^ k) xs) @ flat (row_of k t xs) @ flat (drop (t * 2 ^ k + 2 ^ k) xs)"
    unfolding row_of_def flat_simps(3) [symmetric] by (simp add: add.commute flip: drop_drop)
  have "length (take (t * 2 ^ k) xs) = t * 2 ^ k" using row_inside [OF assms(2), of k] assms(1) by simp
  then have base: "int (2 * (t * 2 ^ k)) - 1 = int (length (flat (take (t * 2 ^ k) xs))) - 1" by simp
  have "(2 :: int) ^ k \<le> 2 ^ 9" using assms(3) by (intro power_increasing) simp_all
  then have "(2 :: int) ^ k \<le> 512" by simp
  then show ?thesis
    unfolding fft_def prod.case split
    by (simp only: four1_eq [OF base row_of_length [OF assms(1,2)] assms(4)] if_True bnd_Inr flat_simps(3))
qed

lemma row_offset:
  assumes "t < m" "m * 2 ^ k < 2 ^ 31" "k < 32"
  shows "uint (of_nat t * of_nat (2 ^ k) * 2 :: u32) = int (2 * (t * 2 ^ k))" "uint (of_nat (2 ^ k) :: u32) = 2 ^ k"
proof -
  have "2 * (t * 2 ^ k) < 2 ^ 32" using row_inside [OF assms(1), of k] assms(2) by simp
  then have "unat (of_nat (2 * (t * 2 ^ k)) :: u32) = 2 * (t * 2 ^ k)" by (rule unat_of_nat_u32)
  moreover have "of_nat t * of_nat (2 ^ k) * 2 = (of_nat (2 * (t * 2 ^ k)) :: u32)" by simp
  ultimately show "uint (of_nat t * of_nat (2 ^ k) * 2 :: u32) = int (2 * (t * 2 ^ k))"
    by (metis of_nat_unat)
  show "uint (of_nat (2 ^ k) :: u32) = 2 ^ k"
    using unat_exp [OF assms(3)] by (metis of_nat_numeral of_nat_power of_nat_unat)
qed

interpretation row_phase: order_free
  "\<lambda>S. s\<lparr>st_data := flat (rows_done c (four1_pairs fo lut c) xs S)\<rparr>"
  "\<lambda>t. row_task fo lut (exp_globals r c a b) (th t) (of_nat t)"
  "if fft_sizes r c a b \<and> length xs = 2 ^ (r + c) \<and> c \<le> 9 \<and> c < length lut \<and>
      (\<forall>t<2 ^ r. th t < length (st_workspace s)) then 2 ^ r else 0"
  for r c a b xs s th fo lut
proof (unfold_locales, goal_cases)
  case (1 S t)
  then have ok: "fft_sizes r c a b" "length xs = 2 ^ r * 2 ^ c" "c \<le> 9" "c < length lut" "t < 2 ^ r"
    "th t < length (st_workspace s)" "t \<notin> S"
    by (auto simp: power_add split: if_splits)
  have "(2 :: nat) ^ (r + c) < 2 ^ 31" using ok(1) by (intro power_strict_increasing) (simp_all add: fft_sizes_def)
  then have off: "uint (of_nat t * of_nat (2 ^ c) * 2 :: u32) = int (2 * (t * 2 ^ c))" "uint (of_nat (2 ^ c) :: u32) = 2 ^ c"
    using row_offset [of t "2 ^ r" c] ok(3,5) by (simp_all only: power_add)
  have C: "fg_C (exp_globals r c a b) = of_nat (2 ^ c)" by (simp add: exp_globals_fields [OF ok(1)])
  have len: "length (rows_done c (four1_pairs fo lut c) xs S) = 2 ^ r * 2 ^ c" using ok(2) by simp
  note step = rows_done_step [OF ok(2,5,7), of "four1_pairs fo lut c", OF length_four1_pairs]
  show ?case
    unfolding row_task_def C off
    using ok(6) by (simp add: c_monad fft_row [OF len ok(5,3,4)] step del: flat_simps of_nat_mult of_nat_power)
qed

interpretation column_phase: order_free
  "\<lambda>S. s\<lparr>st_data2 := flat (rows_done r (four1_pairs fo lut r) xs S)\<rparr>"
  "\<lambda>t. column_task fo lut (exp_globals r c a b) (th t) (of_nat t)"
  "if fft_sizes r c a b \<and> length xs = 2 ^ (r + c) \<and> r \<le> 9 \<and> r < length lut \<and>
      (\<forall>t<2 ^ c. th t < length (st_workspace s)) then 2 ^ c else 0"
  for r c a b xs s th fo lut
proof (unfold_locales, goal_cases)
  case (1 S t)
  then have ok: "fft_sizes r c a b" "length xs = 2 ^ c * 2 ^ r" "r \<le> 9" "r < length lut" "t < 2 ^ c"
    "th t < length (st_workspace s)" "t \<notin> S"
    by (auto simp: power_add split: if_splits)
  have "(2 :: nat) ^ (c + r) < 2 ^ 31" using ok(1) by (intro power_strict_increasing) (simp_all add: fft_sizes_def)
  then have off: "uint (of_nat t * of_nat (2 ^ r) * 2 :: u32) = int (2 * (t * 2 ^ r))" "uint (of_nat (2 ^ r) :: u32) = 2 ^ r"
    using row_offset [of t "2 ^ c" r] ok(3,5) by (simp_all only: power_add)
  have R: "fg_R (exp_globals r c a b) = of_nat (2 ^ r)" by (simp add: exp_globals_fields [OF ok(1)])
  have len: "length (rows_done r (four1_pairs fo lut r) xs S) = 2 ^ c * 2 ^ r" using ok(2) by simp
  note step = rows_done_step [OF ok(2,5,7), of "four1_pairs fo lut r", OF length_four1_pairs]
  show ?case
    unfolding column_task_def R off
    using ok(6) by (simp add: c_monad fft_row [OF len ok(5,3,4)] step del: flat_simps of_nat_mult of_nat_power)
qed

section \<open>The whole transform\<close>

lemma rows_all_nth:
  assumes "length xs = 2 ^ r * 2 ^ c" "i < 2 ^ r" "j < 2 ^ c"
  shows "rows_done c F xs {..<2 ^ r} ! (i * 2 ^ c + j) = F (row_of c i xs) ! j"
  using assms row_inside [OF assms(2), of c] by (simp add: rows_done_def)

lemma transposed_nth:
  assumes "i < 2 ^ r" "j < 2 ^ c"
  shows "transposed r c xs ! (j * 2 ^ r + i) = xs ! (i * 2 ^ c + j)"
  using assms cell_fits(2) [OF assms] by (simp add: transposed_def fw_src_def)

lemma length_transposed [simp]: "length (transposed r c xs) = 2 ^ (r + c)"
  by (simp add: transposed_def)

lemma row_phase_all:
  assumes "fft_sizes r c a b" "c \<le> 9" "c < length lut" "length xs = 2 ^ (r + c)" "st_data s = flat xs"
    and "all_tasks (2 ^ r) ts" "\<forall>(th, v) \<in> set ts. th < length (st_workspace s)"
  shows "for_list ts (\<lambda>(th, v). row_task fo lut (exp_globals r c a b) th v) s =
    Inr (s\<lparr>st_data := flat (rows_done c (four1_pairs fo lut c) xs {..<2 ^ r})\<rparr>)"
proof -
  have lt: "(2 :: nat) ^ r < 2 ^ 32" using assms(1) by (intro exp_less_u32) (simp add: fft_sizes_def)
  obtain th vs where ts: "ts = map (\<lambda>t. (th t, of_nat t)) vs" "distinct vs" "set vs = {..<2 ^ r}" "th ` set vs = fst ` set ts"
    using all_tasks_function [OF assms(6) lt] .
  have "th t < length (st_workspace s)" if "t < 2 ^ r" for t
  proof -
    have "th t \<in> fst ` set ts" using that ts(3,4) by blast
    then show ?thesis using assms(7) by auto
  qed
  then have n: "(if fft_sizes r c a b \<and> length xs = 2 ^ (r + c) \<and> c \<le> 9 \<and> c < length lut \<and>
      (\<forall>t<2 ^ r. th t < length (st_workspace s)) then 2 ^ r else 0) = (2 :: nat) ^ r"
    using assms(1-4) by simp
  have e: "s\<lparr>st_data := flat xs\<rparr> = s" by (simp flip: assms(5))
  show ?thesis
    using row_phase.any_order [where r = r and c = c and a = a and b = b and xs = xs and lut = lut and th = th and s = s
      and fo = fo and ts = vs, unfolded n rows_done_empty e, OF ts(2,3)]
    unfolding ts(1) by (simp add: for_list_map)
qed

lemma column_phase_all:
  assumes "fft_sizes r c a b" "r \<le> 9" "r < length lut" "length xs = 2 ^ (r + c)" "st_data2 s = flat xs"
    and "all_tasks (2 ^ c) ts" "\<forall>(th, v) \<in> set ts. th < length (st_workspace s)"
  shows "for_list ts (\<lambda>(th, v). column_task fo lut (exp_globals r c a b) th v) s =
    Inr (s\<lparr>st_data2 := flat (rows_done r (four1_pairs fo lut r) xs {..<2 ^ c})\<rparr>)"
proof -
  have lt: "(2 :: nat) ^ c < 2 ^ 32" using assms(1) by (intro exp_less_u32) (simp add: fft_sizes_def)
  obtain th vs where ts: "ts = map (\<lambda>t. (th t, of_nat t)) vs" "distinct vs" "set vs = {..<2 ^ c}" "th ` set vs = fst ` set ts"
    using all_tasks_function [OF assms(6) lt] .
  have "th t < length (st_workspace s)" if "t < 2 ^ c" for t
  proof -
    have "th t \<in> fst ` set ts" using that ts(3,4) by blast
    then show ?thesis using assms(7) by auto
  qed
  then have n: "(if fft_sizes r c a b \<and> length xs = 2 ^ (r + c) \<and> r \<le> 9 \<and> r < length lut \<and>
      (\<forall>t<2 ^ c. th t < length (st_workspace s)) then 2 ^ c else 0) = (2 :: nat) ^ c"
    using assms(1-4) by simp
  have e: "s\<lparr>st_data2 := flat xs\<rparr> = s" by (simp flip: assms(5))
  show ?thesis
    using column_phase.any_order [where r = r and c = c and a = a and b = b and xs = xs and lut = lut and th = th and s = s
      and fo = fo and ts = vs, unfolded n rows_done_empty e, OF ts(2,3)]
    unfolding ts(1) by (simp add: for_list_map)
qed

text \<open>The four phases on the pairs.\<close>

definition fft_pairs :: "'f fft_arith \<Rightarrow> 'f list \<Rightarrow> nat \<Rightarrow> nat \<Rightarrow> ('f \<times> 'f) list \<Rightarrow> ('f \<times> 'f) list" where
  "fft_pairs fo lut r c xs =
     transposed c r (rows_done r (four1_pairs fo lut r)
       (transposed r c (rows_done c (four1_pairs fo lut c) xs {..<2 ^ r})) {..<2 ^ c})"

lemma fft_run_eq:
  assumes "fft_sizes r c a b" "r \<le> 9" "c \<le> 9" "r < length lut" "c < length lut"
    and "st_data s = flat xs" "st_data2 s = flat ys" "length xs = 2 ^ (r + c)" "length ys = 2 ^ (r + c)"
    and "all_tasks (2 ^ r) ts1" "all_tasks (2 ^ (r - a) * 2 ^ (c - b)) ts2"
    and "all_tasks (2 ^ c) ts3" "all_tasks (2 ^ (r - a) * 2 ^ (c - b)) ts4"
    and "\<forall>(th, v) \<in> set (ts1 @ ts3). th < length (st_workspace s)"
  shows "\<exists>s'. fft_run fo lut (exp_globals r c a b) ts1 ts2 ts3 ts4 s = Inr s' \<and> st_data s' = flat (fft_pairs fo lut r c xs)"
proof -
  define x1 where "x1 = rows_done c (four1_pairs fo lut c) xs {..<2 ^ r}"
  define x2 where "x2 = transposed r c x1"
  define x3 where "x3 = rows_done r (four1_pairs fo lut r) x2 {..<2 ^ c}"
  have len: "length x1 = 2 ^ (r + c)" "length x2 = 2 ^ (r + c)" "length x3 = 2 ^ (r + c)"
    using assms(8) by (simp_all add: x1_def x2_def x3_def)
  let ?g = "exp_globals r c a b"
  let ?s1 = "s\<lparr>st_data := flat x1\<rparr>"
  let ?s2 = "?s1\<lparr>st_data2 := flat x2\<rparr>"
  let ?s3 = "?s2\<lparr>st_data2 := flat x3\<rparr>"
  have 1: "for_list ts1 (\<lambda>(th, v). row_task fo lut ?g th v) s = Inr ?s1"
    using assms unfolding x1_def by (intro row_phase_all) auto
  have 2: "for_list ts2 (\<lambda>(th, v). transpose_task ?g v) ?s1 = Inr ?s2"
    using assms len unfolding x2_def by (intro transpose_phase [where ys = ys]) simp_all
  have 3: "for_list ts3 (\<lambda>(th, v). column_task fo lut ?g th v) ?s2 = Inr ?s3"
    using assms len unfolding x3_def by (intro column_phase_all) auto
  have 4: "for_list ts4 (\<lambda>(th, v). back_task ?g v) ?s3 = Inr (?s3\<lparr>st_data := flat (transposed c r x3)\<rparr>)"
    using assms len by (intro back_phase [where ys = x1]) simp_all
  show ?thesis
    unfolding fft_run_def 1 bnd_Inr 2 3 4 by (simp add: fft_pairs_def x1_def x2_def x3_def)
qed

lemma exact_lut_le: "exact_lut k lut \<Longrightarrow> k' \<le> k \<Longrightarrow> exact_lut k' lut"
  by (auto simp: exact_lut_def)

lemma fft_pairs_dft:
  assumes "exact_lut (max r c) lut" "length xs = 2 ^ (r + c)" "i < 2 ^ r" "j < 2 ^ c"
  shows "cpx (fft_pairs exact_fft lut r c xs ! (i * 2 ^ c + j)) =
    dft (2 ^ r) (\<lambda>i'. dft (2 ^ c) (\<lambda>j'. cpx (xs ! (i' * 2 ^ c + j'))) j) i"
proof -
  define x1 where "x1 = rows_done c (four1_pairs exact_fft lut c) xs {..<2 ^ r}"
  define x2 where "x2 = transposed r c x1"
  have len: "length xs = 2 ^ r * 2 ^ c" "length x2 = 2 ^ c * 2 ^ r" using assms(2) by (simp_all add: x2_def power_add)
  have row: "cpx (x1 ! (i' * 2 ^ c + j)) = dft (2 ^ c) (\<lambda>j'. cpx (xs ! (i' * 2 ^ c + j'))) j" if "i' < 2 ^ r" for i'
  proof -
    have "cpx (x1 ! (i' * 2 ^ c + j)) = dft (2 ^ c) (\<lambda>j'. cpx (row_of c i' xs ! j')) j"
      unfolding x1_def rows_all_nth [OF len(1) that assms(4)]
      using exact_lut_le [OF assms(1), of c] row_of_length [OF len(1) that] assms(4) by (intro four1_pairs_dft) simp_all
    also have "\<dots> = dft (2 ^ c) (\<lambda>j'. cpx (xs ! (i' * 2 ^ c + j'))) j"
      unfolding dft_def using row_of_nth [OF len(1) that] by (intro sum.cong) simp_all
    finally show ?thesis .
  qed
  have "cpx (fft_pairs exact_fft lut r c xs ! (i * 2 ^ c + j)) = cpx (four1_pairs exact_fft lut r (row_of r j x2) ! i)"
    unfolding fft_pairs_def x1_def [symmetric] x2_def [symmetric] transposed_nth [OF assms(4,3)]
      rows_all_nth [OF len(2) assms(4,3)] ..
  also have "\<dots> = dft (2 ^ r) (\<lambda>i'. cpx (row_of r j x2 ! i')) i"
    using exact_lut_le [OF assms(1), of r] row_of_length [OF len(2) assms(4)] assms(3) by (intro four1_pairs_dft) simp_all
  also have "\<dots> = dft (2 ^ r) (\<lambda>i'. dft (2 ^ c) (\<lambda>j'. cpx (xs ! (i' * 2 ^ c + j'))) j) i"
    unfolding dft_def [of "2 ^ r"] using row_of_nth [OF len(2) assms(4)]
    by (intro sum.cong) (simp_all add: x2_def transposed_nth [OF _ assms(4)] row)
  finally show ?thesis .
qed

lemma worker_alone:
  assumes "\<forall>ds \<in> {ds1, ds2, ds3, ds4}. \<forall>(r, d) \<in> set ds. r = TQ_RET_SUCCESS \<or> r = TQ_RET_BLOCK"
    and "num_transpose_tasks g = Inr k"
  shows "FFTWorkerThread fo lut g th (\<lambda>_. TQ_RET_SUCCESS) (ds1 @ [(TQ_RET_SYNC, d0)]) (ds2 @ [(TQ_RET_SYNC, d0)])
      (ds3 @ [(TQ_RET_SYNC, d0)]) (ds4 @ [(TQ_RET_SYNC, d0)]) s =
    bnd (fft_run fo lut g (map (Pair th) (delivered ds1)) (map (Pair th) (delivered ds2))
      (map (Pair th) (delivered ds3)) (map (Pair th) (delivered ds4)) s) (\<lambda>s. Inr (True, s))"
proof -
  have ph: "phase (\<lambda>_. TQ_RET_SUCCESS) (Inr n) body (ds @ [(TQ_RET_SYNC, d0)]) rest =
      (\<lambda>s. bnd (for_list (map (Pair th) (delivered ds)) (\<lambda>(th, v). body v) s) rest)"
    if "\<forall>(r, d) \<in> set ds. r = TQ_RET_SUCCESS \<or> r = TQ_RET_BLOCK" for n body ds rest
    by (simp add: fun_eq_iff phase_def dequeue_loop_tasks [OF that] bnd_assoc for_list_map)
  show ?thesis
    using assms unfolding FFTWorkerThread_def fft_run_def by (simp add: ph bnd_assoc for_list_map assms(2))
qed

text \<open>
  C3: The two-dimensional transform. With exact arithmetic and sines, for a matrix of up to 512 by
  512 numbers whose sizes and block sizes are powers of two, whatever the order in which the tasks
  of each phase are run and whichever threads run them, the benchmark returns without an access out
  of bounds and leaves the two-dimensional discrete Fourier transform of the input in \<open>data\<close>. A
  single worker that is handed all tasks does the same.
\<close>

theorem fft_is_2d_dft:
  assumes "fft_sizes r c a b" "r \<le> 9" "c \<le> 9" "exact_lut (max r c) lut"
    and "st_data s = flat xs" "st_data2 s = flat ys" "length xs = 2 ^ (r + c)" "length ys = 2 ^ (r + c)"
    and "all_tasks (2 ^ r) ts1" "all_tasks (2 ^ (r - a) * 2 ^ (c - b)) ts2"
    and "all_tasks (2 ^ c) ts3" "all_tasks (2 ^ (r - a) * 2 ^ (c - b)) ts4"
    and "\<forall>(th, v) \<in> set (ts1 @ ts3). th < length (st_workspace s)"
  shows "\<exists>s' out. fft_run exact_fft lut (fft_setup (2 ^ r) (2 ^ c) (2 ^ a) (2 ^ b)) ts1 ts2 ts3 ts4 s = Inr s' \<and>
    st_data s' = flat out \<and>
    (\<forall>i < 2 ^ r. \<forall>j < 2 ^ c. cpx (out ! (i * 2 ^ c + j)) =
       dft (2 ^ r) (\<lambda>i'. dft (2 ^ c) (\<lambda>j'. cpx (xs ! (i' * 2 ^ c + j'))) j) i) \<and>
    (\<forall>th ds1 ds2 ds3 ds4 d. (\<forall>ds \<in> {ds1, ds2, ds3, ds4}. \<forall>(r, d) \<in> set ds. r = TQ_RET_SUCCESS \<or> r = TQ_RET_BLOCK) \<longrightarrow>
       map (map (Pair th) \<circ> delivered) [ds1, ds2, ds3, ds4] = [ts1, ts2, ts3, ts4] \<longrightarrow>
       FFTWorkerThread exact_fft lut (fft_setup (2 ^ r) (2 ^ c) (2 ^ a) (2 ^ b)) th (\<lambda>_. TQ_RET_SUCCESS)
         (ds1 @ [(TQ_RET_SYNC, d)]) (ds2 @ [(TQ_RET_SYNC, d)]) (ds3 @ [(TQ_RET_SYNC, d)]) (ds4 @ [(TQ_RET_SYNC, d)]) s =
       Inr (True, s'))"
proof -
  have lut: "r < length lut" "c < length lut" using assms(4) by (simp_all add: exact_lut_def)
  obtain s' where s': "fft_run exact_fft lut (exp_globals r c a b) ts1 ts2 ts3 ts4 s = Inr s'"
    "st_data s' = flat (fft_pairs exact_fft lut r c xs)"
    using fft_run_eq [OF assms(1-3) lut assms(5-13)] by blast
  show ?thesis
  proof (rule exI [of _ s'], rule exI [of _ "fft_pairs exact_fft lut r c xs"], intro conjI)
    show "fft_run exact_fft lut (fft_setup (2 ^ r) (2 ^ c) (2 ^ a) (2 ^ b)) ts1 ts2 ts3 ts4 s = Inr s'"
      using s'(1) by (simp only: exp_globals_def)
    show "\<forall>i < 2 ^ r. \<forall>j < 2 ^ c. cpx (fft_pairs exact_fft lut r c xs ! (i * 2 ^ c + j)) =
       dft (2 ^ r) (\<lambda>i'. dft (2 ^ c) (\<lambda>j'. cpx (xs ! (i' * 2 ^ c + j'))) j) i"
      using fft_pairs_dft [OF assms(4,7)] by blast
    show "\<forall>th ds1 ds2 ds3 ds4 d. (\<forall>ds \<in> {ds1, ds2, ds3, ds4}. \<forall>(r, d) \<in> set ds. r = TQ_RET_SUCCESS \<or> r = TQ_RET_BLOCK) \<longrightarrow>
       map (map (Pair th) \<circ> delivered) [ds1, ds2, ds3, ds4] = [ts1, ts2, ts3, ts4] \<longrightarrow>
       FFTWorkerThread exact_fft lut (fft_setup (2 ^ r) (2 ^ c) (2 ^ a) (2 ^ b)) th (\<lambda>_. TQ_RET_SUCCESS)
         (ds1 @ [(TQ_RET_SYNC, d)]) (ds2 @ [(TQ_RET_SYNC, d)]) (ds3 @ [(TQ_RET_SYNC, d)]) (ds4 @ [(TQ_RET_SYNC, d)]) s =
       Inr (True, s')"
    proof (intro allI impI)
      fix th d and ds1 ds2 ds3 ds4 :: "(tq_ret_type \<times> tq_task_desc) list"
      assume ds: "\<forall>ds \<in> {ds1, ds2, ds3, ds4}. \<forall>(r, d) \<in> set ds. r = TQ_RET_SUCCESS \<or> r = TQ_RET_BLOCK"
      assume "map (map (Pair th) \<circ> delivered) [ds1, ds2, ds3, ds4] = [ts1, ts2, ts3, ts4]"
      then have "map (Pair th) (delivered ds1) = ts1" "map (Pair th) (delivered ds2) = ts2"
        "map (Pair th) (delivered ds3) = ts3" "map (Pair th) (delivered ds4) = ts4" by simp_all
      then show "FFTWorkerThread exact_fft lut (fft_setup (2 ^ r) (2 ^ c) (2 ^ a) (2 ^ b)) th (\<lambda>_. TQ_RET_SUCCESS)
         (ds1 @ [(TQ_RET_SYNC, d)]) (ds2 @ [(TQ_RET_SYNC, d)]) (ds3 @ [(TQ_RET_SYNC, d)]) (ds4 @ [(TQ_RET_SYNC, d)]) s =
       Inr (True, s')"
        unfolding exp_globals_def [symmetric] worker_alone [OF ds num_tasks(2) [OF assms(1)]] by (simp only: s'(1) bnd_Inr)
    qed
  qed (rule s'(2))
qed

theorem fft_is_2d_dft_witness:
  "\<exists>s' out. fft_run exact_fft [0, 1] (fft_setup 2 2 1 1) [(0, 1), (1, 0)] [(0, 3), (0, 1), (1, 2), (1, 0)]
      [(0, 0), (1, 1)] [(1, 3), (0, 1), (1, 2), (1, 0)]
      \<lparr>st_data = [1, 2, 3, 4, 5, 6, 7, 8], st_data2 = [0, 0, 0, 0, 0, 0, 0, 0], st_workspace = [[], []]\<rparr> = Inr s' \<and>
    st_data s' = flat out \<and>
    (\<forall>i < 2. \<forall>j < 2. cpx (out ! (i * 2 + j)) =
       dft 2 (\<lambda>i'. dft 2 (\<lambda>j'. cpx ([(1, 2), (3, 4), (5, 6), (7, 8)] ! (i' * 2 + j'))) j) i)"
proof -
  have lut: "exact_lut (max 1 1) [0, 1]" by (auto simp: exact_lut_def le_Suc_eq)
  have two: "{..<2 :: nat} = {0, 1}" and four: "{..<4 :: nat} = {0, 1, 2, 3}" by auto
  have ts: "all_tasks (2 ^ 1) [(0, 1), (1, 0)]" "all_tasks (2 ^ 1) [(0, 0), (1, 1)]"
    "all_tasks (2 ^ (1 - 0) * 2 ^ (1 - 0)) [(0, 3), (0, 1), (1, 2), (1, 0)]"
    "all_tasks (2 ^ (1 - 0) * 2 ^ (1 - 0)) [(1, 3), (0, 1), (1, 2), (1, 0)]"
    by (auto simp: all_tasks_def two four)
  have sz: "fft_sizes 1 1 0 0" by (simp add: fft_sizes_def)
  let ?s = "\<lparr>st_data = [1, 2, 3, 4, 5, 6, 7, 8], st_data2 = [0, 0, 0, 0, 0, 0, 0, 0], st_workspace = [[], []]\<rparr> :: real fft_state"
  show ?thesis
    using fft_is_2d_dft [OF sz _ _ lut _ _ _ _ ts(1,3,2,4), of ?s "[(1, 2), (3, 4), (5, 6), (7, 8)]" "[(0, 0), (0, 0), (0, 0), (0, 0)]"]
    by simp blast
qed

section \<open>Rows of more than 512 numbers\<close>

lemma for_list_ok:
  "(\<And>x s. x \<in> set xs \<Longrightarrow> P s \<Longrightarrow> \<exists>s'. f x s = Inr s' \<and> P s') \<Longrightarrow> P s \<Longrightarrow> \<exists>s'. for_list xs f s = Inr s' \<and> P s'"
proof (induction xs arbitrary: s)
  case (Cons x xs)
  obtain s1 where s1: "f x s = Inr s1" "P s1" using Cons.prems by (meson list.set_intros(1))
  then show ?case using Cons.IH [of s1] Cons.prems(1) by simp
qed simp

lemma fft_step1:
  fixes xs :: "('a \<times> 'a) list"
  assumes "length xs = m * 512" "9 < length lut"
  shows "\<exists>ys. for_list [0..<m] (\<lambda>i. four1 fo lut (0 + 1024 * int i - 1) 512) (flat xs) = Inr (flat ys) \<and> length ys = m * 512"
proof -
  let ?P = "\<lambda>a :: 'a list. \<exists>ys. a = flat ys \<and> length ys = m * 2 ^ 9"
  have "\<exists>s'. for_list [0..<m] (\<lambda>i. four1 fo lut (0 + 1024 * int i - 1) 512) (flat xs) = Inr s' \<and> ?P s'"
  proof (rule for_list_ok)
    fix i and a :: "'a list" assume i: "i \<in> set [0..<m]" and "?P a"
    then obtain ys where ys: "a = flat ys" "length ys = m * 2 ^ 9" by blast
    have "fft fo lut (int (2 * (i * 2 ^ 9))) (2 ^ 9) 1 (flat ys, []) =
        Inr (flat (take (i * 2 ^ 9) ys @ four1_pairs fo lut 9 (row_of 9 i ys) @ drop (i * 2 ^ 9 + 2 ^ 9) ys), [])"
      using i ys assms(2) by (intro fft_row) simp_all
    then have "four1 fo lut (0 + 1024 * int i - 1) 512 a =
        Inr (flat (take (i * 2 ^ 9) ys @ four1_pairs fo lut 9 (row_of 9 i ys) @ drop (i * 2 ^ 9 + 2 ^ 9) ys))"
      unfolding ys(1) by (cases "four1 fo lut (int (2 * (i * 2 ^ 9)) - 1) 512 (flat ys)") (simp_all add: fft_def mult.commute)
    moreover have "length (take (i * 2 ^ 9) ys @ four1_pairs fo lut 9 (row_of 9 i ys) @ drop (i * 2 ^ 9 + 2 ^ 9) ys) = m * 2 ^ 9"
      using i ys(2) row_inside [of i m 9] by (simp add: length_four1_pairs)
    ultimately show "\<exists>s'. four1 fo lut (0 + 1024 * int i - 1) 512 a = Inr s' \<and> ?P s'" by blast
  qed (use assms in auto)
  then show ?thesis by auto
qed

lemma fft_large_faults:
  assumes "length xs = m * 512" "2 \<le> m" "9 < length lut"
  shows "fft fo lut 0 (512 * int m) isign (flat xs, ws) = Inl OutOfBounds"
proof -
  obtain ys where ys: "for_list [0..<m] (\<lambda>i. four1 fo lut (0 + 1024 * int i - 1) 512) (flat xs) = Inr (flat ys)" "length ys = m * 512"
    using fft_step1 [OF assms(1,3)] by blast
  have "rdz (flat ys) 0 = Inr (flat ys ! 0)" using ys(2) assms(2) by (simp add: rdz_def c_monad)
  then have "twiddle_one fo (flat ys) 0 wpr wpi q 0 0 s = Inl OutOfBounds" for wpr wpi q s
    by (cases s) (simp add: twiddle_one_def rdz_def)
  then have row: "twiddle_row fo (flat ys) 0 n isign 0 ws = Inl OutOfBounds" for n
    by (simp add: twiddle_row_def Let_def upt_rec [of 0 512])
  have "[0..<m] = 0 # [1..<m]" using assms(2) by (simp add: upt_rec)
  then have "for_list [0..<m] (twiddle_row fo (flat ys) 0 (512 * int m) isign) ws = Inl OutOfBounds"
    using row by simp
  then show ?thesis using assms(2) ys(1) by (simp add: fft_def Let_def)
qed

end
