(* ===== verification/Rigel_Memory.thy ===== *)
theory Rigel_Memory
  imports Prelude
begin

text \<open>
  The memory the C library hands out (lib/newlib/newlib/libc/sys/rigel): the arena behind \<open>mmap\<close>
  (mman.c) with the bounds the start-up code gives it (crt0.c), \<open>_sbrk\<close> (libgloss/rigel/syscalls.c),
  and the table of coherent cache lines (crt0.c). The blocks of \<open>mmap\<close> are disjoint and inside the
  arena as long as no size wraps around; the table refines a set of lines. The offset of a line in
  the table is computed by an instruction (\<open>tbloffset\<close>) and is an argument.
\<close>

section \<open>The arena\<close>

record arena =
  malloc_arena_start :: u32
  malloc_arena_end :: u32
  malloc_arena_top :: u32

definition MAP_FAILED :: u32 where
  "MAP_FAILED = - 1"

text \<open>\<open>(len + 31) & (~(0x1F))\<close>\<close>

definition whole_lines :: "u32 \<Rightarrow> u32" where
  "whole_lines len = (len + 31) AND NOT 0x1F"

text \<open>The address, the protection, the flags and the file are ignored.\<close>

definition mmap :: "u32 \<Rightarrow> arena \<Rightarrow> u32 \<times> arena" where
  "mmap len a =
     (if malloc_arena_top a > malloc_arena_end a then (MAP_FAILED, a)
      else
        let ret = (if malloc_arena_top a = 0 then malloc_arena_start a else malloc_arena_top a);
            top = ret + whole_lines len;
            a = a\<lparr>malloc_arena_top := top\<rparr>
        in if top > malloc_arena_end a \<or> top < malloc_arena_start a then (MAP_FAILED, a) else (ret, a))"

definition munmap :: "u32 \<Rightarrow> u32 \<Rightarrow> arena \<Rightarrow> u32 \<times> arena" where
  "munmap addr len a = (0, a)"

definition mprotect :: "u32 \<Rightarrow> u32 \<Rightarrow> arena \<Rightarrow> (u32 \<times> arena) c_result" where
  "mprotect addr len a = Inl Aborted"

text \<open>What \<open>__start\<close> sets up from the end of the program's data.\<close>

definition start_arena :: "u32 \<Rightarrow> arena" where
  "start_arena data_end =
     \<lparr>malloc_arena_start = data_end, malloc_arena_end = 0xBFFFFFFF, malloc_arena_top = 0\<rparr>"

text \<open>A sequence of requests; \<open>munmap\<close> between them changes nothing.\<close>

fun mmap_calls :: "u32 list \<Rightarrow> arena \<Rightarrow> u32 list \<times> arena" where
  "mmap_calls [] a = ([], a)"
| "mmap_calls (len # lens) a =
     (case mmap len a of (r, a) \<Rightarrow> case mmap_calls lens a of (rs, a) \<Rightarrow> (r # rs, a))"

text \<open>\<open>heap_end\<close> is zero before the first call; \<open>data_end\<close> is the symbol of the linker.\<close>

definition sbrk :: "u32 \<Rightarrow> u32 \<Rightarrow> u32 \<Rightarrow> u32 \<times> u32" where
  "sbrk data_end incr heap_end =
     (let prev_heap_end = (if heap_end = 0 then data_end else heap_end)
      in (prev_heap_end, prev_heap_end + incr))"

section \<open>The table of coherent lines\<close>

text \<open>The table is aligned after its allocation at \<open>p\<close>.\<close>

definition hybridCC_base :: "u32 \<Rightarrow> u32" where
  "hybridCC_base p = p AND NOT (32 - 1)"

definition bit_offset :: "u32 \<Rightarrow> nat" where
  "bit_offset addr = unat (drop_bit 5 addr AND 0x1F)"

definition RigelSetCoherentLine :: "(u32 \<Rightarrow> u32) \<Rightarrow> u32 \<Rightarrow> u32 \<Rightarrow> (u32 \<Rightarrow> u32) \<Rightarrow> u32 \<Rightarrow> u32" where
  "RigelSetCoherentLine tbloffset base addr m =
     (let w = base + tbloffset addr; entry = push_bit (bit_offset addr) 1 in m(w := m w OR entry))"

definition RigelSetIncoherentLine :: "(u32 \<Rightarrow> u32) \<Rightarrow> u32 \<Rightarrow> u32 \<Rightarrow> (u32 \<Rightarrow> u32) \<Rightarrow> u32 \<Rightarrow> u32" where
  "RigelSetIncoherentLine tbloffset base addr m =
     (let w = base + tbloffset addr; entry = NOT (push_bit (bit_offset addr) 1) in m(w := m w AND entry))"

section \<open>Requests in a row\<close>

text \<open>The number of bytes a request takes.\<close>

definition taken :: "u32 \<Rightarrow> nat" where
  "taken len = (unat len + 31) div 32 * 32"

lemma and_not_31: "unat (w AND NOT 31) = unat w div 32 * 32" for w :: u32
proof -
  have "w = (w AND 31) + (w AND NOT 31)"
    by (subst disjunctive_add) (auto simp: bit_simps intro: bit_word_eqI)
  then have "w AND NOT 31 = w - (w AND 31)" by (metis add_diff_cancel_left')
  moreover have "(31 :: u32) = mask 5" by (simp add: mask_eq_exp_minus_1)
  then have "unat (w AND 31) = unat w mod 32" using unat_and_mask [of w 5] by simp
  ultimately show ?thesis
    by (simp add: unat_sub_if' minus_mod_eq_div_mult)
qed

lemma unat_whole_lines: "unat len + 31 < 2 ^ 32 \<Longrightarrow> unat (whole_lines len) = taken len"
  unfolding whole_lines_def and_not_31 taken_def by (simp add: unat_word_ariths)

lemma taken_bounds: "unat len \<le> taken len" "taken len \<le> unat len + 31"
  unfolding taken_def by presburger+

text \<open>The address the next request starts from.\<close>

definition next_start :: "arena \<Rightarrow> nat" where
  "next_start a = unat (if malloc_arena_top a = 0 then malloc_arena_start a else malloc_arena_top a)"

definition arena_ok :: "arena \<Rightarrow> bool" where
  "arena_ok a \<longleftrightarrow> 0 < malloc_arena_start a \<and> malloc_arena_start a \<le> malloc_arena_end a \<and>
     unat (malloc_arena_start a) \<le> next_start a"

lemma mmap_eq:
  assumes "arena_ok a" "unat (malloc_arena_end a) + unat len + 31 < 2 ^ 32"
  shows "\<exists>a'. mmap len a =
      (if next_start a + taken len \<le> unat (malloc_arena_end a) then of_nat (next_start a) else MAP_FAILED, a') \<and>
    arena_ok a' \<and> malloc_arena_end a' = malloc_arena_end a \<and>
    (next_start a' = next_start a + taken len \<or> unat (malloc_arena_end a) < next_start a' \<and> unat (malloc_arena_end a) < next_start a)"
proof (cases "malloc_arena_top a > malloc_arena_end a")
  case True
  then have "unat (malloc_arena_end a) < next_start a"
    by (auto simp: next_start_def word_less_nat_alt)
  then show ?thesis using True assms(1) by (simp add: mmap_def)
next
  case False
  let ?ret = "if malloc_arena_top a = 0 then malloc_arena_start a else malloc_arena_top a"
  let ?a = "a\<lparr>malloc_arena_top := ?ret + whole_lines len\<rparr>"
  have w: "unat (whole_lines len) = taken len" using assms(2) by (intro unat_whole_lines) simp
  have "next_start a \<le> unat (malloc_arena_end a)"
    using False assms(1) by (auto simp: next_start_def arena_ok_def word_le_nat_alt not_less)
  then have top: "unat (?ret + whole_lines len) = next_start a + taken len"
    using assms(2) taken_bounds [of len] by (simp add: unat_word_ariths w next_start_def)
  have pos: "0 < unat (malloc_arena_start a)" "unat (malloc_arena_start a) \<le> next_start a"
    using assms(1) by (simp_all add: arena_ok_def word_less_nat_alt)
  have nz: "?ret + whole_lines len \<noteq> 0" using top pos by (metis add_is_0 le_zero_eq not_gr_zero unat_0)
  have nx: "next_start ?a = next_start a + taken len" using nz top by (simp add: next_start_def)
  have "\<not> ?ret + whole_lines len < malloc_arena_start a"
    using pos(2) by (simp add: word_less_nat_alt top)
  moreover have "?ret + whole_lines len > malloc_arena_end a \<longleftrightarrow> \<not> next_start a + taken len \<le> unat (malloc_arena_end a)"
    by (simp add: word_less_nat_alt top not_le)
  moreover have "of_nat (next_start a) = ?ret" by (simp add: next_start_def)
  moreover have "arena_ok ?a" using assms(1) pos(2) unfolding arena_ok_def nx by simp
  ultimately show ?thesis using False nx by (simp add: mmap_def Let_def)
qed

lemma mmap_calls_eq:
  assumes "arena_ok a" "\<forall>len \<in> set lens. unat (malloc_arena_end a) + unat len + 31 < 2 ^ 32" "i < length lens"
  shows "fst (mmap_calls lens a) ! i =
    (if next_start a + sum_list (map taken (take (Suc i) lens)) \<le> unat (malloc_arena_end a)
     then of_nat (next_start a + sum_list (map taken (take i lens))) else MAP_FAILED)"
  using assms
proof (induction lens arbitrary: a i)
  case (Cons len lens)
  obtain a' where a': "mmap len a =
      (if next_start a + taken len \<le> unat (malloc_arena_end a) then of_nat (next_start a) else MAP_FAILED, a')"
    "arena_ok a'" "malloc_arena_end a' = malloc_arena_end a"
    "next_start a' = next_start a + taken len \<or> unat (malloc_arena_end a) < next_start a' \<and> unat (malloc_arena_end a) < next_start a"
    using mmap_eq [OF Cons.prems(1), of len] Cons.prems(2) by auto
  show ?case
  proof (cases i)
    case 0
    then show ?thesis by (simp add: a'(1) split: prod.split)
  next
    case (Suc j)
    then have "fst (mmap_calls lens a') ! j =
        (if next_start a' + sum_list (map taken (take (Suc j) lens)) \<le> unat (malloc_arena_end a)
         then of_nat (next_start a' + sum_list (map taken (take j lens))) else MAP_FAILED)"
      using Cons.IH [of a' j] Cons.prems a'(2,3) by simp
    then show ?thesis
      using a'(4) Suc by (auto simp: a'(1) add.assoc split: prod.split)
  qed
qed simp

lemma unat_MAP_FAILED: "unat MAP_FAILED = 4294967295"
  by (simp add: MAP_FAILED_def unsigned_minus_1_eq_mask mask_eq_exp_minus_1)

lemma sum_take_Suc: "i < length xs \<Longrightarrow> sum_list (map f (take (Suc i) xs)) = sum_list (map f (take i xs)) + (f (xs ! i) :: nat)"
  by (simp add: take_Suc_conv_app_nth)

lemma sum_take_mono: "i \<le> j \<Longrightarrow> sum_list (map f (take i xs)) \<le> (sum_list (map f (take j xs)) :: nat)"
  by (metis le_add1 map_append sum_list_append take_add le_Suc_ex)

lemma sum_taken_dvd: "32 dvd sum_list (map taken lens)"
  by (induction lens) (auto simp: taken_def)

text \<open>
  C33: The blocks of the arena. As long as no request wraps around when it is added to the end of the
  arena, the requests after the start of a program get consecutive blocks of whole cache lines from
  the start of the arena on, and \<open>MAP_FAILED\<close> exactly from the first request on that does not fit.
  The blocks are inside the arena, a whole number of lines apart, and never overlap.
\<close>

theorem mmap_blocks_disjoint:
  fixes lens :: "u32 list" and s e :: u32
  assumes "0 < s" "s \<le> e" "\<forall>len \<in> set lens. unat e + unat len + 31 < 2 ^ 32"
  defines "rs \<equiv> fst (mmap_calls lens \<lparr>malloc_arena_start = s, malloc_arena_end = e, malloc_arena_top = 0\<rparr>)"
  shows "(\<forall>i<length lens. rs ! i =
      (if unat s + sum_list (map taken (take (Suc i) lens)) \<le> unat e
       then of_nat (unat s + sum_list (map taken (take i lens))) else MAP_FAILED)) \<and>
    (\<forall>i<length lens. rs ! i \<noteq> MAP_FAILED \<longrightarrow>
       s \<le> rs ! i \<and> unat (rs ! i) + unat (lens ! i) \<le> unat e \<and> 32 dvd unat (rs ! i) - unat s) \<and>
    (\<forall>j<length lens. \<forall>i<j. rs ! j \<noteq> MAP_FAILED \<longrightarrow>
       rs ! i \<noteq> MAP_FAILED \<and> unat (rs ! i) + unat (lens ! i) \<le> unat (rs ! j))"
proof -
  let ?a = "\<lparr>malloc_arena_start = s, malloc_arena_end = e, malloc_arena_top = 0\<rparr>"
  let ?S = "\<lambda>i. sum_list (map taken (take i lens))"
  have ok: "arena_ok ?a" "next_start ?a = unat s" using assms(1,2) by (simp_all add: arena_ok_def next_start_def)
  have eq: "rs ! i = (if unat s + ?S (Suc i) \<le> unat e then of_nat (unat s + ?S i) else MAP_FAILED)"
    if "i < length lens" for i
    using mmap_calls_eq [OF ok(1) _ that] assms(3) unfolding rs_def ok(2) by simp
  have e: "unat e + 31 < 2 ^ 32" if "i < length lens" for i using assms(3) nth_mem [OF that] by fastforce
  have fits: "unat s + ?S (Suc i) \<le> unat e" "unat (rs ! i) = unat s + ?S i"
    if "i < length lens" "rs ! i \<noteq> MAP_FAILED" for i
  proof -
    show le: "unat s + ?S (Suc i) \<le> unat e" using eq [OF that(1)] that(2) by (simp split: if_splits)
    then have "unat s + ?S i < 2 ^ 32" using e [OF that(1)] sum_take_mono [of i "Suc i" taken lens] by simp
    then show "unat (rs ! i) = unat s + ?S i" using eq [OF that(1)] le by (simp only: if_True unat_of_nat_u32)
  qed
  have got: "rs ! i \<noteq> MAP_FAILED" if "i < length lens" "unat s + ?S (Suc i) \<le> unat e" for i
  proof -
    have "unat s + ?S i < 2 ^ 32 - 1" using e [OF that(1)] that(2) sum_take_mono [of i "Suc i" taken lens] by simp
    then have "unat (rs ! i) \<noteq> unat MAP_FAILED"
      using eq [OF that(1)] that(2) unat_of_nat_u32 [of "unat s + ?S i"] by (simp add: unat_MAP_FAILED del: of_nat_add)
    then show ?thesis by metis
  qed
  have "s \<le> rs ! i \<and> unat (rs ! i) + unat (lens ! i) \<le> unat e \<and> 32 dvd unat (rs ! i) - unat s"
    if "i < length lens" "rs ! i \<noteq> MAP_FAILED" for i
    using fits [OF that] sum_take_Suc [OF that(1), of taken] taken_bounds(1) [of "lens ! i"] sum_taken_dvd [of "take i lens"]
    by (simp add: word_le_nat_alt)
  moreover have "rs ! i \<noteq> MAP_FAILED \<and> unat (rs ! i) + unat (lens ! i) \<le> unat (rs ! j)"
    if "j < length lens" "i < j" "rs ! j \<noteq> MAP_FAILED" for i j
  proof -
    have mono: "?S (Suc i) \<le> ?S j" "?S j \<le> ?S (Suc j)" using that(2) by (intro sum_take_mono; simp)+
    then have i: "i < length lens" "rs ! i \<noteq> MAP_FAILED"
      using that fits(1) [OF that(1,3)] got [of i] by simp_all
    show ?thesis
      using i fits(2) [OF that(1,3)] fits(2) [OF i] mono sum_take_Suc [OF i(1), of taken] taken_bounds(1) [of "lens ! i"] by simp
  qed
  ultimately show ?thesis using eq by blast
qed

theorem mmap_blocks_disjoint_witness:
  "fst (mmap_calls [100, 32, 0x100000, 8] \<lparr>malloc_arena_start = 0x1000, malloc_arena_end = 0x2000, malloc_arena_top = 0\<rparr>) =
     [0x1000, 0x1080, MAP_FAILED, MAP_FAILED] \<and>
   unat (0x1000 :: u32) + unat (100 :: u32) \<le> unat (0x1080 :: u32)"
proof -
  let ?rs = "fst (mmap_calls [100, 32, 0x100000, 8] \<lparr>malloc_arena_start = 0x1000, malloc_arena_end = 0x2000, malloc_arena_top = 0\<rparr>)"
  have rs: "?rs = [0x1000, 0x1080, MAP_FAILED, MAP_FAILED]" by code_simp
  have h: "0 < (0x1000 :: u32)" "0x1000 \<le> (0x2000 :: u32)"
    "\<forall>len \<in> set [100, 32, 0x100000, 8 :: u32]. unat (0x2000 :: u32) + unat len + 31 < 2 ^ 32" by simp_all
  have "unat (0x1000 :: u32) + unat ([100, 32, 0x100000, 8 :: u32] ! 0) \<le> unat (0x1080 :: u32)"
    using mmap_blocks_disjoint [OF h, unfolded rs, THEN conjunct2, THEN conjunct2, THEN spec [of _ 1], THEN mp, THEN spec [of _ 0]]
    by (simp add: MAP_FAILED_def)
  then show ?thesis using rs by simp
qed

text \<open>
  The check against the start of the arena does not catch every wrap-around: a request of nearly
  the whole address space succeeds and moves the top back into a block that was handed out, and one
  that wraps when it is rounded up takes no memory at all.
\<close>

lemma mmap_wraps:
  "fst (mmap_calls [0x100000, 0xFFF80000, 0x1000] (start_arena 0x1000)) = [0x1000, 0x101000, 0x81000]"
  "mmap 0xFFFFFFF0 (start_arena 0x1000) = (0x1000, (start_arena 0x1000)\<lparr>malloc_arena_top := 0x1000\<rparr>)"
  by code_simp+

section \<open>The heap of sbrk\<close>

text \<open>Successive calls get consecutive pieces, from the end of the data on, without a bound.\<close>

fun sbrk_calls :: "u32 \<Rightarrow> u32 list \<Rightarrow> u32 \<Rightarrow> u32 list" where
  "sbrk_calls data_end [] heap_end = []"
| "sbrk_calls data_end (incr # incrs) heap_end =
     (case sbrk data_end incr heap_end of (p, heap_end) \<Rightarrow> p # sbrk_calls data_end incrs heap_end)"

lemma sbrk_and_mmap_overlap:
  "sbrk_calls data_end [incr] 0 = [data_end]"
  "0 < data_end \<Longrightarrow> data_end < 0xBFFFFF00 \<Longrightarrow> fst (mmap 1 (start_arena data_end)) = data_end"
proof -
  show "sbrk_calls data_end [incr] 0 = [data_end]" by (simp add: sbrk_def)
  assume d: "0 < data_end" "data_end < 0xBFFFFF00"
  then have "fst (mmap_calls [1] (start_arena data_end)) ! 0 = of_nat (unat data_end)"
    by (subst mmap_calls_eq) (auto simp: arena_ok_def start_arena_def next_start_def taken_def word_less_nat_alt word_le_nat_alt)
  then show "fst (mmap 1 (start_arena data_end)) = data_end" by (simp split: prod.splits)
qed

section \<open>Coherent lines\<close>

text \<open>
  The table has a bit for every line of 32 bytes. \<open>table_bits\<close> is what the comments in crt0.c say of
  the instruction: the offset is that of the word with the bits of 32 lines.
\<close>

definition table_bits :: "(u32 \<Rightarrow> u32) \<Rightarrow> bool" where
  "table_bits tbloffset \<longleftrightarrow> (\<forall>a b. tbloffset a = tbloffset b \<longleftrightarrow> drop_bit 10 a = drop_bit 10 b)"

definition coherent :: "(u32 \<Rightarrow> u32) \<Rightarrow> u32 \<Rightarrow> (u32 \<Rightarrow> u32) \<Rightarrow> u32 \<Rightarrow> bool" where
  "coherent tbloffset base m addr \<longleftrightarrow> bit (m (base + tbloffset addr)) (bit_offset addr)"

lemma bit_offset_eq: "bit_offset addr = unat addr div 32 mod 32"
proof -
  have "(0x1F :: u32) = mask 5" by (simp add: mask_eq_exp_minus_1)
  then show ?thesis
    unfolding bit_offset_def by (simp only: unat_and_mask unat_drop_bit_eq) (simp add: drop_bit_eq_div)
qed

lemma same_line: "drop_bit 10 a = drop_bit 10 b \<and> bit_offset a = bit_offset b \<longleftrightarrow> drop_bit 5 a = drop_bit 5 b" for a b :: u32
proof -
  have "x div 1024 = y div 1024 \<and> x div 32 mod 32 = y div 32 mod 32 \<longleftrightarrow> x div 32 = y div 32" for x y :: nat
  proof -
    have "z div 1024 = z div 32 div 32" for z :: nat by (simp add: div_mult2_eq [symmetric])
    then show ?thesis using div_mult_mod_eq [of "x div 32" 32] div_mult_mod_eq [of "y div 32" 32] by metis
  qed
  from this [of "unat a" "unat b"] show ?thesis
    by (simp only: bit_offset_eq word_unat_eq_iff unat_drop_bit_eq) (simp add: drop_bit_eq_div)
qed

lemma bit_offset_less: "bit_offset a < 32"
  by (simp add: bit_offset_eq)

lemma bit_entry: "bit (2 ^ k :: u32) n \<longleftrightarrow> n = k \<and> k < 32"
  by (auto simp: bit_exp_iff)

text \<open>
  C34: The table of coherent lines refines a set of lines: setting a line coherent adds exactly the
  line of the address and clearing it removes exactly that line, whatever the other bits of the
  table; clearing a line that was set just before, and was clear, restores the table.
\<close>

theorem coherent_lines_refine:
  assumes "table_bits tbloffset"
  shows "(coherent tbloffset base (RigelSetCoherentLine tbloffset base a m) b \<longleftrightarrow>
      drop_bit 5 b = drop_bit 5 a \<or> coherent tbloffset base m b) \<and>
    (coherent tbloffset base (RigelSetIncoherentLine tbloffset base a m) b \<longleftrightarrow>
      drop_bit 5 b \<noteq> drop_bit 5 a \<and> coherent tbloffset base m b) \<and>
    (\<not> coherent tbloffset base m a \<longrightarrow>
      RigelSetIncoherentLine tbloffset base a (RigelSetCoherentLine tbloffset base a m) = m)"
proof -
  have line: "drop_bit 5 b = drop_bit 5 a \<longleftrightarrow> tbloffset b = tbloffset a \<and> bit_offset b = bit_offset a"
    using assms same_line [of b a] by (simp add: table_bits_def)
  have bits: "bit (w OR 2 ^ bit_offset a) n \<longleftrightarrow> bit w n \<or> n = bit_offset a"
    "n < 32 \<Longrightarrow> bit (w AND NOT (2 ^ bit_offset a)) n \<longleftrightarrow> bit w n \<and> n \<noteq> bit_offset a" for w :: u32 and n
    using bit_offset_less [of a] by (auto simp: bit_or_iff bit_and_iff bit_not_iff bit_entry)
  have "(w OR 2 ^ bit_offset a) AND NOT (2 ^ bit_offset a) = w" if "\<not> bit w (bit_offset a)" for w :: u32
    using that by (intro bit_word_eqI) (auto simp: bits)
  then show ?thesis
    unfolding coherent_def RigelSetCoherentLine_def RigelSetIncoherentLine_def Let_def line
    by (auto simp: bits bit_offset_less fun_upd_same fun_upd_idem)
qed

theorem coherent_lines_refine_witness:
  "\<not> coherent (\<lambda>a. push_bit 2 (drop_bit 10 a)) 0x2000 (RigelSetIncoherentLine (\<lambda>a. push_bit 2 (drop_bit 10 a)) 0x2000 0x1234
     (\<lambda>_. - 1)) 0x1220 \<and>
   coherent (\<lambda>a. push_bit 2 (drop_bit 10 a)) 0x2000 (RigelSetIncoherentLine (\<lambda>a. push_bit 2 (drop_bit 10 a)) 0x2000 0x1234
     (\<lambda>_. - 1)) 0x1240"
proof -
  have "push_bit 2 (drop_bit 10 a) = push_bit 2 (drop_bit 10 b) \<longleftrightarrow> drop_bit 10 a = drop_bit 10 b" for a b :: u32
  proof
    assume "push_bit 2 (drop_bit 10 a) = push_bit 2 (drop_bit 10 b)"
    then have eq: "bit (push_bit 2 (drop_bit 10 a)) (n + 2) = bit (push_bit 2 (drop_bit 10 b)) (n + 2)" for n by simp
    have "bit (drop_bit 10 a) n = bit (drop_bit 10 b) n" if "n < 22" for n
      using that eq [of n] by (simp add: bit_push_bit_iff)
    moreover have "\<not> bit (drop_bit 10 w) n" if "\<not> n < 22" for w :: u32 and n
      using that bit_imp_le_length [of w "10 + n"] by (auto simp: bit_drop_bit_eq)
    ultimately show "drop_bit 10 a = drop_bit 10 b" by (intro bit_word_eqI) metis
  qed simp
  then have tb: "table_bits (\<lambda>a. push_bit 2 (drop_bit 10 a))" by (simp add: table_bits_def)
  have d: "drop_bit 5 (0x1220 :: u32) = drop_bit 5 0x1234" "drop_bit 5 (0x1240 :: u32) \<noteq> drop_bit 5 0x1234"
    by simp_all
  have "coherent t base (\<lambda>_. - 1) b" for t base b using bit_offset_less [of b] by (simp add: coherent_def)
  then show ?thesis
    using coherent_lines_refine [OF tb, of "0x2000" "0x1234" "\<lambda>_. - 1" "0x1220"]
      coherent_lines_refine [OF tb, of "0x2000" "0x1234" "\<lambda>_. - 1" "0x1240"] d by simp
qed

text \<open>
  The table is allocated with room for its alignment, but the address is rounded down: unless the
  allocator returns a multiple of the line size, the table starts before its block.
\<close>

lemma hybrid_table_before_block:
  "unat (hybridCC_base p) = unat p div 32 * 32" "\<not> 32 dvd unat p \<Longrightarrow> hybridCC_base p < p"
proof -
  show eq: "unat (hybridCC_base p) = unat p div 32 * 32" for p
    unfolding hybridCC_base_def using and_not_31 [of p] by simp
  show "hybridCC_base p < p" if "\<not> 32 dvd unat p"
    using that div_mult_mod_eq [of "unat p" 32] unfolding word_less_nat_alt eq dvd_eq_mod_eq_0 by linarith
qed

end
