(* ===== verification/Crt_Words.thy ===== *)
theory Crt_Words
  imports Prelude "HOL-Library.Log_Nat"
begin

text \<open>
  The run-time arithmetic the compiler calls on the 32-bit target (lib/compiler-rt/lib), first part:
  the two halves of a 64-bit word (int_lib.h), the shifts by a variable amount, the counts of leading
  and trailing zeros, of set bits and their parity, and the comparisons. Each routine is shown to
  compute the operation its name promises. Signed values are words; the arithmetic shift is
  \<open>signed_drop_bit\<close>, as int_lib.h assumes, and signed arithmetic wraps around, as these routines rely on.
\<close>

section \<open>The code\<close>

text \<open>The unions \<open>dwords\<close> and \<open>udwords\<close>: \<open>all\<close> as seen through \<open>s.low\<close> and \<open>s.high\<close>, and back.\<close>

definition dw_low :: "u64 \<Rightarrow> u32" where
  "dw_low x = ucast x"

definition dw_high :: "u64 \<Rightarrow> u32" where
  "dw_high x = ucast (drop_bit 32 x)"

definition dw_all :: "u32 \<Rightarrow> u32 \<Rightarrow> u64" where
  "dw_all high low = push_bit 32 (ucast high) OR ucast low"

text \<open>A shift by an amount outside the width is undefined.\<close>

definition shl32 :: "u32 \<Rightarrow> int \<Rightarrow> u32 c_result" where
  "shl32 w k = (if 0 \<le> k \<and> k < 32 then Inr (push_bit (nat k) w) else Inl BadShift)"

definition shr32 :: "u32 \<Rightarrow> int \<Rightarrow> u32 c_result" where
  "shr32 w k = (if 0 \<le> k \<and> k < 32 then Inr (drop_bit (nat k) w) else Inl BadShift)"

definition sar32 :: "u32 \<Rightarrow> int \<Rightarrow> u32 c_result" where
  "sar32 w k = (if 0 \<le> k \<and> k < 32 then Inr (signed_drop_bit (nat k) w) else Inl BadShift)"

definition ashldi3 :: "u64 \<Rightarrow> int \<Rightarrow> u64 c_result" where
  "ashldi3 a b =
     (if b AND 32 \<noteq> 0 then bnd (shl32 (dw_low a) (b - 32)) (\<lambda>high. Inr (dw_all high 0))
      else if b = 0 then Inr a
      else bnd (shl32 (dw_low a) b) (\<lambda>low.
           bnd (shl32 (dw_high a) b) (\<lambda>h.
           bnd (shr32 (dw_low a) (32 - b)) (\<lambda>l. Inr (dw_all (h OR l) low)))))"

definition ashrdi3 :: "u64 \<Rightarrow> int \<Rightarrow> u64 c_result" where
  "ashrdi3 a b =
     (if b AND 32 \<noteq> 0
      then bnd (sar32 (dw_high a) 31) (\<lambda>high. bnd (sar32 (dw_high a) (b - 32)) (\<lambda>low. Inr (dw_all high low)))
      else if b = 0 then Inr a
      else bnd (sar32 (dw_high a) b) (\<lambda>high.
           bnd (shl32 (dw_high a) (32 - b)) (\<lambda>h.
           bnd (shr32 (dw_low a) b) (\<lambda>l. Inr (dw_all high (h OR l))))))"

definition lshrdi3 :: "u64 \<Rightarrow> int \<Rightarrow> u64 c_result" where
  "lshrdi3 a b =
     (if b AND 32 \<noteq> 0 then bnd (shr32 (dw_high a) (b - 32)) (\<lambda>low. Inr (dw_all 0 low))
      else if b = 0 then Inr a
      else bnd (shr32 (dw_high a) b) (\<lambda>high.
           bnd (shl32 (dw_high a) (32 - b)) (\<lambda>h.
           bnd (shr32 (dw_low a) b) (\<lambda>l. Inr (dw_all high (h OR l))))))"

text \<open>\<open>(cond) << k\<close> of a truth value, and its negation.\<close>

definition flag_bit :: "bool \<Rightarrow> nat \<Rightarrow> nat" where
  "flag_bit c k = (if c then 2 ^ k else 0)"

definition flag_mask :: "bool \<Rightarrow> 'a::len word" where
  "flag_mask c = (if c then - 1 else 0)"

definition clzsi2 :: "u32 \<Rightarrow> u32" where
  "clzsi2 a =
     (let x = a;
          t = flag_bit (x AND 0xFFFF0000 = 0) 4; x = drop_bit (16 - t) x; r = of_nat t;
          t = flag_bit (x AND 0xFF00 = 0) 3; x = drop_bit (8 - t) x; r = r + of_nat t;
          t = flag_bit (x AND 0xF0 = 0) 2; x = drop_bit (4 - t) x; r = r + of_nat t;
          t = flag_bit (x AND 0xC = 0) 1; x = drop_bit (2 - t) x; r = r + of_nat t
      in r + ((2 - x) AND flag_mask (x AND 2 = 0)))"

definition ctzsi2 :: "u32 \<Rightarrow> u32" where
  "ctzsi2 a =
     (let x = a;
          t = flag_bit (x AND 0x0000FFFF = 0) 4; x = drop_bit t x; r = of_nat t;
          t = flag_bit (x AND 0x00FF = 0) 3; x = drop_bit t x; r = r + of_nat t;
          t = flag_bit (x AND 0x0F = 0) 2; x = drop_bit t x; r = r + of_nat t;
          t = flag_bit (x AND 0x3 = 0) 1; x = drop_bit t x; x = x AND 3; r = r + of_nat t
      in r + ((2 - drop_bit 1 x) AND flag_mask (x AND 1 = 0)))"

text \<open>
  \<open>__builtin_clz\<close> and \<open>__builtin_ctz\<close> are arguments: the compiler documents the counts for arguments
  other than zero and leaves the value on zero open.
\<close>

definition clzdi2 :: "(u32 \<Rightarrow> u32) \<Rightarrow> u64 \<Rightarrow> u32" where
  "clzdi2 builtin_clz a =
     (let f = flag_mask (dw_high a = 0)
      in builtin_clz ((dw_high a AND NOT f) OR (dw_low a AND f)) + (f AND 32))"

definition ctzdi2 :: "(u32 \<Rightarrow> u32) \<Rightarrow> u64 \<Rightarrow> u32" where
  "ctzdi2 builtin_ctz a =
     (let f = flag_mask (dw_low a = 0)
      in builtin_ctz ((dw_high a AND f) OR (dw_low a AND NOT f)) + (f AND 32))"

definition ffsdi2 :: "(u32 \<Rightarrow> u32) \<Rightarrow> u64 \<Rightarrow> u32" where
  "ffsdi2 builtin_ctz a =
     (if dw_low a = 0
      then if dw_high a = 0 then 0 else builtin_ctz (dw_high a) + (1 + 32)
      else builtin_ctz (dw_low a) + 1)"

definition popcountsi2 :: "u32 \<Rightarrow> u32" where
  "popcountsi2 a =
     (let x = a - (drop_bit 1 a AND 0x55555555);
          x = (drop_bit 2 x AND 0x33333333) + (x AND 0x33333333);
          x = (x + drop_bit 4 x) AND 0x0F0F0F0F;
          x = x + drop_bit 16 x
      in (x + drop_bit 8 x) AND 0x0000003F)"

definition popcountdi2 :: "u64 \<Rightarrow> u32" where
  "popcountdi2 a =
     (let x2 = a - (drop_bit 1 a AND 0x5555555555555555);
          x2 = (drop_bit 2 x2 AND 0x3333333333333333) + (x2 AND 0x3333333333333333);
          x2 = (x2 + drop_bit 4 x2) AND 0x0F0F0F0F0F0F0F0F;
          x = ucast (x2 + drop_bit 32 x2) :: u32;
          x = x + drop_bit 16 x
      in (x + drop_bit 8 x) AND 0x0000007F)"

definition paritysi2 :: "u32 \<Rightarrow> u32" where
  "paritysi2 a =
     (let x = a XOR drop_bit 16 a; x = x XOR drop_bit 8 x; x = x XOR drop_bit 4 x
      in drop_bit (unat (x AND 0xF)) 0x6996 AND 1)"

definition paritydi2 :: "u64 \<Rightarrow> u32" where
  "paritydi2 a = paritysi2 (dw_high a XOR dw_low a)"

definition negdi2 :: "u64 \<Rightarrow> u64" where
  "negdi2 a = - a"

definition cmpdi2 :: "u64 \<Rightarrow> u64 \<Rightarrow> u32" where
  "cmpdi2 a b =
     (if sint (dw_high a) < sint (dw_high b) then 0
      else if sint (dw_high a) > sint (dw_high b) then 2
      else if dw_low a < dw_low b then 0
      else if dw_low a > dw_low b then 2
      else 1)"

definition ucmpdi2 :: "u64 \<Rightarrow> u64 \<Rightarrow> u32" where
  "ucmpdi2 a b =
     (if dw_high a < dw_high b then 0
      else if dw_high a > dw_high b then 2
      else if dw_low a < dw_low b then 0
      else if dw_low a > dw_low b then 2
      else 1)"

section \<open>Halves\<close>

lemma bit_dw [bit_simps]:
  "bit (dw_low x) n \<longleftrightarrow> n < 32 \<and> bit x n"
  "bit (dw_high x) n \<longleftrightarrow> n < 32 \<and> bit x (n + 32)"
  "bit (dw_all h l) n \<longleftrightarrow> (if n < 32 then bit l n else n < 64 \<and> bit h (n - 32))"
  by (auto simp: dw_low_def dw_high_def dw_all_def bit_simps ac_simps dest: bit_imp_le_length)

lemma dw_cover [simp]:
  "dw_all (dw_high x) (dw_low x) = x" "dw_high (dw_all h l) = h" "dw_low (dw_all h l) = l"
  by (rule bit_word_eqI; auto simp: bit_simps)+

lemma unat_dw:
  "unat (dw_low x) = unat x mod 2 ^ 32" "unat (dw_high x) = unat x div 2 ^ 32"
  "unat (dw_all h l) = unat h * 2 ^ 32 + unat l"
proof -
  show low: "unat (dw_low x) = unat x mod 2 ^ 32" for x
    by (simp add: dw_low_def unsigned_ucast_eq take_bit_eq_mod)
  show high: "unat (dw_high x) = unat x div 2 ^ 32" for x
  proof -
    have "unat x div 2 ^ 32 < 2 ^ 32" using unsigned_less [of x, where ?'a = nat] by (simp add: less_mult_imp_div_less)
    moreover have "unat (drop_bit 32 x) = unat x div 2 ^ 32" unfolding unat_drop_bit_eq by (rule drop_bit_eq_div)
    ultimately show ?thesis by (simp only: dw_high_def unsigned_ucast_eq) (simp add: take_bit_nat_eq_self)
  qed
  show "unat (dw_all h l) = unat h * 2 ^ 32 + unat l"
    using low [of "dw_all h l"] high [of "dw_all h l"] div_mult_mod_eq [of "unat (dw_all h l)" "2 ^ 32"] by simp
qed

section \<open>Shifts\<close>

lemma bit_sar: "bit (signed_drop_bit k w) n \<longleftrightarrow> n < LENGTH('a) \<and> bit w (min (k + n) (LENGTH('a) - 1))" for w :: "'a::len word"
proof (cases "k + n < LENGTH('a)")
  case True
  then show ?thesis by (auto simp: bit_signed_drop_bit_iff min_def)
next
  case False
  then show ?thesis by (auto simp: bit_signed_drop_bit_iff min_def dest: bit_imp_le_length)
qed

lemma bit_sar_high: "n < 32 \<Longrightarrow> bit (signed_drop_bit k (dw_high a)) n \<longleftrightarrow> bit a (min (k + n) 31 + 32)"
  using min.cobounded2 [of "k + n" 31] by (auto simp: bit_sar bit_dw)

lemma sar_far: "m < 32 \<Longrightarrow> dw_all (signed_drop_bit 31 (dw_high a)) (signed_drop_bit m (dw_high a)) = signed_drop_bit (m + 32) a"
proof (rule bit_word_eqI)
  fix n assume m: "m < 32" and n: "n < LENGTH(64)"
  show "bit (dw_all (signed_drop_bit 31 (dw_high a)) (signed_drop_bit m (dw_high a))) n = bit (signed_drop_bit (m + 32) a) n"
  proof (cases "n < 32")
    case True
    moreover have "min (m + n) 31 + 32 = min (m + 32 + n) 63" by linarith
    ultimately show ?thesis using n by (simp only: bit_dw(3) bit_sar_high bit_sar [of "m + 32"]) simp
  next
    case False
    moreover have "min (31 + (n - 32)) 31 + 32 = (63 :: nat)" "min (m + 32 + n) 63 = 63" "n - 32 < 32" using False n by auto
    ultimately show ?thesis using n by (simp only: bit_dw(3) bit_sar) (simp add: bit_dw)
  qed
qed

lemma sar_near:
  "k < 32 \<Longrightarrow> dw_all (signed_drop_bit k (dw_high a)) (push_bit (32 - k) (dw_high a) OR drop_bit k (dw_low a)) = signed_drop_bit k a"
proof (rule bit_word_eqI)
  fix n assume k: "k < 32" and n: "n < LENGTH(64)"
  show "bit (dw_all (signed_drop_bit k (dw_high a)) (push_bit (32 - k) (dw_high a) OR drop_bit k (dw_low a))) n =
      bit (signed_drop_bit k a) n"
  proof (cases "n < 32")
    case True
    moreover have "min (k + n) 63 = k + n" using True k by simp
    moreover have "32 - k \<le> n \<Longrightarrow> n - (32 - k) + 32 = k + n" using k by simp
    ultimately show ?thesis using k by (auto simp: bit_dw bit_sar bit_simps add.commute)
  next
    case False
    moreover have "min (k + (n - 32)) 31 + 32 = min (k + n) 63" using False by linarith
    ultimately show ?thesis using n by (simp only: bit_dw(3) if_False) (simp add: bit_sar_high bit_sar [of k a])
  qed
qed

lemma dw_shift:
  "k < 32 \<Longrightarrow> dw_all (push_bit k (dw_low a)) 0 = push_bit (k + 32) a"
  "k < 32 \<Longrightarrow> dw_all 0 (drop_bit k (dw_high a)) = drop_bit (k + 32) a"
  "0 < k \<Longrightarrow> k < 32 \<Longrightarrow> dw_all (push_bit k (dw_high a) OR drop_bit (32 - k) (dw_low a)) (push_bit k (dw_low a)) = push_bit k a"
  "0 < k \<Longrightarrow> k < 32 \<Longrightarrow> dw_all (drop_bit k (dw_high a)) (push_bit (32 - k) (dw_high a) OR drop_bit k (dw_low a)) = drop_bit k a"
  by (intro bit_word_eqI; auto simp: bit_simps ac_simps dest: bit_imp_le_length; fail)+

lemma and_32_iff: "0 \<le> b \<Longrightarrow> b < 64 \<Longrightarrow> b AND 32 \<noteq> 0 \<longleftrightarrow> 32 \<le> b" for b :: int
proof -
  assume b: "0 \<le> b" "b < 64"
  have "b AND 32 \<noteq> 0 \<longleftrightarrow> bit b 5" using and_exp_eq_0_iff_not_bit [of b 5] by simp
  also have "\<dots> \<longleftrightarrow> odd (b div 32)" by (simp add: bit_iff_odd)
  also have "\<dots> \<longleftrightarrow> 32 \<le> b"
  proof (cases "32 \<le> b")
    case True
    then have "b div 32 = 1" using b by (intro div_pos_geq [THEN trans]) auto
    with True show ?thesis by simp
  qed (use b in \<open>simp add: div_pos_pos_trivial\<close>)
  finally show ?thesis .
qed

text \<open>
  C32: The 64-bit shifts composed of 32-bit ones. For every amount from 0 to 63 they return the left
  shift, the logical and the arithmetic right shift of the 64-bit word, without an undefined shift of
  a half.
\<close>

theorem shifts_di3:
  assumes "0 \<le> b" "b < 64"
  shows "ashldi3 a b = Inr (push_bit (nat b) a) \<and> lshrdi3 a b = Inr (drop_bit (nat b) a) \<and>
    ashrdi3 a b = Inr (signed_drop_bit (nat b) a)"
proof (cases "32 \<le> b")
  case True
  have n: "nat b = nat (b - 32) + 32" "nat (b - 32) < 32" using True assms(2) by simp_all
  have "dw_all (push_bit (nat (b - 32)) (dw_low a)) 0 = push_bit (nat b) a"
    unfolding n(1) using n(2) by (rule dw_shift)
  moreover have "dw_all 0 (drop_bit (nat (b - 32)) (dw_high a)) = drop_bit (nat b) a"
    unfolding n(1) using n(2) by (rule dw_shift)
  moreover have "dw_all (signed_drop_bit 31 (dw_high a)) (signed_drop_bit (nat (b - 32)) (dw_high a)) = signed_drop_bit (nat b) a"
    unfolding n(1) using n(2) by (rule sar_far)
  moreover have "b AND 32 \<noteq> 0" using and_32_iff [OF assms] True by simp
  ultimately show ?thesis
    using True assms by (simp add: ashldi3_def lshrdi3_def ashrdi3_def shl32_def shr32_def sar32_def)
next
  case False
  have z: "b AND 32 = 0" using and_32_iff [OF assms] False by simp
  show ?thesis
  proof (cases "b = 0")
    case True
    then show ?thesis by (simp add: ashldi3_def lshrdi3_def ashrdi3_def)
  next
    case nz: False
    define k where "k = nat b"
    have k: "b = int k" "0 < k" "k < 32" "nat (32 - b) = 32 - k" using False nz assms(1) by (simp_all add: k_def)
    have "dw_all (push_bit k (dw_high a) OR drop_bit (32 - k) (dw_low a)) (push_bit k (dw_low a)) = push_bit k a"
      using k(2,3) by (rule dw_shift)
    moreover have "dw_all (drop_bit k (dw_high a)) (push_bit (32 - k) (dw_high a) OR drop_bit k (dw_low a)) = drop_bit k a"
      using k(2,3) by (rule dw_shift)
    moreover note sar_near [OF k(3), of a]
    ultimately show ?thesis
      using k(2-4) nz False z by (simp add: ashldi3_def lshrdi3_def ashrdi3_def shl32_def shr32_def sar32_def k(1))
  qed
qed

theorem shifts_di3_witness:
  "ashldi3 0x123456789 40 = Inr (push_bit 40 0x123456789) \<and> ashrdi3 (- 5) 1 = Inr (- 3)"
proof -
  have "signed_drop_bit 1 (- 5) = (- 3 :: u64)" by code_simp
  then show ?thesis using shifts_di3 [of 40 "0x123456789"] shifts_di3 [of 1 "- 5"] by simp
qed

section \<open>Leading and trailing zeros\<close>

definition leading_zeros :: "'a::len word \<Rightarrow> nat" where
  "leading_zeros w = LENGTH('a) - floorlog 2 (unat w)"

definition trailing_zeros :: "'a::len word \<Rightarrow> nat" where
  "trailing_zeros w = (if w = 0 then LENGTH('a) else LEAST n. bit w n)"

lemma word_eq_0_iff: "w = 0 \<longleftrightarrow> (\<forall>n. \<not> bit w n)" for w :: "'a::len word"
  by (auto intro: bit_word_eqI)

lemma floorlog_unique: "2 ^ m \<le> n \<Longrightarrow> n < 2 ^ Suc m \<Longrightarrow> floorlog 2 n = Suc m"
  by (intro antisym floorlog_leI floorlog_geI) simp_all

lemma floorlog_bounds_nat: "0 < n \<Longrightarrow> 2 ^ (floorlog 2 n - 1) \<le> n \<and> n < 2 ^ floorlog 2 n \<and> 0 < floorlog 2 n"
  using floorlog_bounds [of n 2] floorlog_eq_zero_iff [of 2 n] by fastforce

lemma floorlog_shift: "2 ^ k \<le> n \<Longrightarrow> floorlog 2 n = floorlog 2 (n div 2 ^ k) + k"
proof -
  assume k: "2 ^ k \<le> n"
  define m where "m = floorlog 2 (n div 2 ^ k) - 1"
  have "0 < n div 2 ^ k" using k by (simp add: div_greater_zero_iff)
  from floorlog_bounds_nat [OF this] have m: "2 ^ m \<le> n div 2 ^ k" "n div 2 ^ k < 2 ^ Suc m" "floorlog 2 (n div 2 ^ k) = Suc m"
    by (simp_all add: m_def)
  have "2 ^ m * 2 ^ k \<le> n" using m(1) by (simp add: less_eq_div_iff_mult_less_eq)
  moreover have "n < 2 ^ Suc m * 2 ^ k" using m(2) by (simp only: div_less_iff_less_mult [of "2 ^ k"] zero_less_power pos2)
  ultimately have "floorlog 2 n = Suc (m + k)" by (intro floorlog_unique) (simp_all add: power_add)
  then show ?thesis by (simp add: m(3))
qed

lemma small_iff: "x AND push_bit k (mask k) = 0 \<longleftrightarrow> unat x < 2 ^ k"
  if "unat x < 2 ^ (2 * k)" for x :: u32
proof -
  have "x AND push_bit k (mask k) = 0 \<longleftrightarrow> (\<forall>n. k \<le> n \<and> n < 2 * k \<longrightarrow> \<not> bit x n)"
  proof -
    have "bit (x AND push_bit k (mask k)) n \<longleftrightarrow> bit x n \<and> k \<le> n \<and> n < 2 * k" for n
      using bit_imp_le_length [of x n] by (auto simp: bit_simps)
    then show ?thesis unfolding word_eq_0_iff by blast
  qed
  also have "\<dots> \<longleftrightarrow> (\<forall>n. k \<le> n \<longrightarrow> \<not> bit x n)"
  proof -
    have "take_bit (2 * k) x = x" using that by (simp add: word_unat_eq_iff unsigned_take_bit_eq take_bit_nat_eq_self)
    then have "n < 2 * k" if "bit x n" for n using that by (metis bit_take_bit_iff)
    then show ?thesis by blast
  qed
  also have "\<dots> \<longleftrightarrow> take_bit k x = x"
  proof
    assume "\<forall>n. k \<le> n \<longrightarrow> \<not> bit x n"
    then show "take_bit k x = x" by (intro bit_word_eqI) (auto simp: bit_take_bit_iff, metis leI)
  next
    assume "take_bit k x = x"
    then show "\<forall>n. k \<le> n \<longrightarrow> \<not> bit x n" by (metis bit_take_bit_iff not_less)
  qed
  also have "\<dots> \<longleftrightarrow> unat x < 2 ^ k"
    by (simp add: word_unat_eq_iff unsigned_take_bit_eq take_bit_nat_eq_self_iff)
  finally show ?thesis .
qed

lemma clz_step:
  fixes x :: u32
  assumes "unat x < 2 ^ (2 * k)" "msk = push_bit k (mask k)"
  defines "t \<equiv> if x AND msk = 0 then k else 0"
  shows "unat (drop_bit (k - t) x) < 2 ^ k \<and> floorlog 2 (unat x) + t = floorlog 2 (unat (drop_bit (k - t) x)) + k"
proof (cases "unat x < 2 ^ k")
  case True
  then show ?thesis using small_iff [OF assms(1)] by (simp add: t_def assms(2))
next
  case False
  have "unat (drop_bit k x) = unat x div 2 ^ k" unfolding unat_drop_bit_eq by (rule drop_bit_eq_div)
  moreover have "unat x div 2 ^ k < 2 ^ k" using assms(1) by (simp add: less_mult_imp_div_less mult_2 power_add)
  ultimately show ?thesis using False small_iff [OF assms(1)] floorlog_shift [of k "unat x"] by (simp add: t_def assms(2))
qed

lemma clz_last: "unat x < 4 \<Longrightarrow> unat ((2 - x) AND flag_mask (x AND 2 = 0)) + floorlog 2 (unat x) = 2" for x :: u32
proof -
  assume "unat x < 4"
  then have "unat x = 0 \<or> unat x = 1 \<or> unat x = 2 \<or> unat x = 3" by auto
  then have "x = 0 \<or> x = 1 \<or> x = 2 \<or> x = 3" by (auto simp: word_unat_eq_iff)
  then show ?thesis by (elim disjE) (simp_all add: flag_mask_def floorlog_unique [of 0] floorlog_unique [of 1] floorlog_eq_zero_iff)
qed

lemma clzsi2_eq: "unat (clzsi2 a) = leading_zeros a"
proof -
  define t1 where "t1 = (if a AND 0xFFFF0000 = 0 then 16 else 0 :: nat)"
  define x1 where "x1 = drop_bit (16 - t1) a"
  define t2 where "t2 = (if x1 AND 0xFF00 = 0 then 8 else 0 :: nat)"
  define x2 where "x2 = drop_bit (8 - t2) x1"
  define t3 where "t3 = (if x2 AND 0xF0 = 0 then 4 else 0 :: nat)"
  define x3 where "x3 = drop_bit (4 - t3) x2"
  define t4 where "t4 = (if x3 AND 0xC = 0 then 2 else 0 :: nat)"
  define x4 where "x4 = drop_bit (2 - t4) x3"
  have a: "unat a < 2 ^ (2 * 16)" using unat_u32_less [of a] by simp
  note 1 = clz_step [OF a, of "0xFFFF0000", folded t1_def x1_def]
  have x1: "unat x1 < 2 ^ (2 * 8)" using 1 by (simp add: mask_eq_exp_minus_1)
  note 2 = clz_step [OF x1, of "0xFF00", folded t2_def x2_def]
  have x2: "unat x2 < 2 ^ (2 * 4)" using 2 by (simp add: mask_eq_exp_minus_1)
  note 3 = clz_step [OF x2, of "0xF0", folded t3_def x3_def]
  have x3: "unat x3 < 2 ^ (2 * 2)" using 3 by (simp add: mask_eq_exp_minus_1)
  note 4 = clz_step [OF x3, of "0xC", folded t4_def x4_def]
  have x4: "unat x4 < 4" using 4 by (simp add: mask_eq_exp_minus_1)
  let ?e = "(2 - x4) AND flag_mask (x4 AND 2 = 0)"
  have bounds: "t1 + t2 + t3 + t4 \<le> 30" by (simp add: t1_def t2_def t3_def t4_def)
  have "floorlog 2 (unat a) + t1 + t2 + t3 + t4 = floorlog 2 (unat x4) + 30"
    using 1 2 3 4 by (simp add: mask_eq_exp_minus_1)
  then have e: "unat ?e + floorlog 2 (unat a) + (t1 + t2 + t3 + t4) = 32" using clz_last [OF x4] by simp
  have flags: "flag_bit c 4 = (if c then 16 else 0)" "flag_bit c 3 = (if c then 8 else 0)"
    "flag_bit c 2 = (if c then 4 else 0)" "flag_bit c 1 = (if c then 2 else 0)" for c
    by (simp_all add: flag_bit_def)
  have "clzsi2 a = of_nat t1 + of_nat t2 + of_nat t3 + of_nat t4 + ?e"
    unfolding clzsi2_def Let_def flags t1_def [symmetric] x1_def [symmetric] t2_def [symmetric] x2_def [symmetric]
      t3_def [symmetric] x3_def [symmetric] t4_def [symmetric] x4_def [symmetric] ..
  then have "clzsi2 a = of_nat (t1 + t2 + t3 + t4 + unat ?e)" by simp
  moreover have "unat (of_nat (t1 + t2 + t3 + t4 + unat ?e) :: u32) = t1 + t2 + t3 + t4 + unat ?e"
    using e by (intro unat_of_nat_u32) simp
  ultimately show ?thesis using e by (simp add: leading_zeros_def)
qed

lemma trailing_zeros_bit: "w \<noteq> 0 \<Longrightarrow> bit w (trailing_zeros w)" "j < trailing_zeros w \<Longrightarrow> \<not> bit w j" for w :: "'a::len word"
proof -
  show "bit w (trailing_zeros w)" if nz: "w \<noteq> 0"
  proof -
    obtain n where "bit w n" using nz word_eq_0_iff by blast
    then have "bit w (LEAST n. bit w n)" by (rule LeastI)
    then show ?thesis using nz by (simp add: trailing_zeros_def)
  qed
  show "\<not> bit w j" if "j < trailing_zeros w"
    using that not_less_Least [of j "bit w"] by (auto simp: trailing_zeros_def split: if_splits)
qed

lemma trailing_zeros_eqI: "bit w n \<Longrightarrow> (\<And>j. j < n \<Longrightarrow> \<not> bit w j) \<Longrightarrow> trailing_zeros w = n" for w :: "'a::len word"
proof -
  assume n: "bit w n" "\<And>j. j < n \<Longrightarrow> \<not> bit w j"
  then have "w \<noteq> 0" by auto
  then show ?thesis using trailing_zeros_bit(1) [of w] trailing_zeros_bit(2) [of n w] n by (meson nat_neq_iff)
qed

lemma ctz_step:
  fixes x :: u32
  assumes "take_bit (2 * k) x \<noteq> 0"
  defines "t \<equiv> if x AND mask k = 0 then k else 0"
  shows "take_bit k (drop_bit t x) \<noteq> 0 \<and> trailing_zeros x = trailing_zeros (drop_bit t x) + t"
proof (cases "take_bit k x = 0")
  case True
  then have t: "t = k" by (simp add: t_def take_bit_eq_mask)
  obtain n where n: "n < 2 * k" "bit x n" using assms(1) by (auto simp: word_eq_0_iff bit_simps)
  have low: "\<not> bit x j" if "j < k" for j using True that by (metis bit_0_eq bit_take_bit_iff bot_apply bot_bool_def)
  with n have "k \<le> n" using not_le by blast
  then have ne: "bit (take_bit k (drop_bit t x)) (n - k)" using n t by (simp add: bit_simps)
  then have "drop_bit t x \<noteq> 0" by auto
  from trailing_zeros_bit(1) [OF this] trailing_zeros_bit(2) [of _ "drop_bit t x"]
  have "trailing_zeros x = k + trailing_zeros (drop_bit t x)"
    using low t by (intro trailing_zeros_eqI) (auto simp: bit_drop_bit_eq, metis add_diff_inverse_nat nat_add_left_cancel_less not_less)
  then show ?thesis using ne t by auto
next
  case False
  then show ?thesis by (simp add: t_def take_bit_eq_mask)
qed

lemma ctz_last:
  "take_bit 2 x \<noteq> 0 \<Longrightarrow> unat ((2 - drop_bit 1 (x AND 3)) AND flag_mask ((x AND 3) AND 1 = 0)) = trailing_zeros x" for x :: u32
proof -
  assume nz: "take_bit 2 x \<noteq> 0"
  have "x AND 3 = of_bool (bit x 0) OR push_bit 1 (of_bool (bit x 1))"
  proof (rule bit_word_eqI)
    fix n :: nat
    have "x AND 3 = take_bit 2 x" by (simp add: take_bit_eq_mask mask_eq_exp_minus_1)
    moreover have "n < 2 \<longleftrightarrow> n = 0 \<or> n = 1" by auto
    ultimately show "bit (x AND 3) n = bit (of_bool (bit x 0) OR push_bit 1 (of_bool (bit x 1)) :: u32) n"
      by (auto simp: bit_simps)
  qed
  moreover have "bit x 0 \<or> bit x 1" using nz by (auto simp: word_eq_0_iff bit_simps less_Suc_eq numeral_2_eq_2)
  moreover have "trailing_zeros x = (if bit x 0 then 0 else 1)" using calculation(2)
    by (intro trailing_zeros_eqI) (auto simp: less_Suc_eq split: if_splits)
  ultimately show ?thesis by (auto simp: flag_mask_def)
qed


lemma ctzsi2_eq: "unat (ctzsi2 a) = trailing_zeros a"
proof (cases "a = 0")
  case True
  then show ?thesis by (simp add: ctzsi2_def trailing_zeros_def flag_bit_def flag_mask_def Let_def)
next
  case False
  define t1 where "t1 = (if a AND mask 16 = 0 then 16 else 0 :: nat)"
  define x1 where "x1 = drop_bit t1 a"
  define t2 where "t2 = (if x1 AND mask 8 = 0 then 8 else 0 :: nat)"
  define x2 where "x2 = drop_bit t2 x1"
  define t3 where "t3 = (if x2 AND mask 4 = 0 then 4 else 0 :: nat)"
  define x3 where "x3 = drop_bit t3 x2"
  define t4 where "t4 = (if x3 AND mask 2 = 0 then 2 else 0 :: nat)"
  define x4 where "x4 = drop_bit t4 x3"
  let ?e = "(2 - drop_bit 1 (x4 AND 3)) AND flag_mask ((x4 AND 3) AND 1 = 0)"
  have "take_bit (2 * 16) a \<noteq> 0" using False by (simp add: take_bit_word_eq_self)
  note 1 = ctz_step [OF this, folded t1_def x1_def]
  then have "take_bit (2 * 8) x1 \<noteq> 0" by simp
  note 2 = ctz_step [OF this, folded t2_def x2_def]
  then have "take_bit (2 * 4) x2 \<noteq> 0" by simp
  note 3 = ctz_step [OF this, folded t3_def x3_def]
  then have "take_bit (2 * 2) x3 \<noteq> 0" by simp
  note 4 = ctz_step [OF this, folded t4_def x4_def]
  then have e: "unat ?e = trailing_zeros x4" by (intro ctz_last) simp
  have "trailing_zeros a = t1 + t2 + t3 + t4 + unat ?e" using 1 2 3 4 e by simp
  moreover have "trailing_zeros a < 32" using trailing_zeros_bit(1) [OF False] bit_imp_le_length by fastforce
  moreover have flags: "flag_bit c 4 = (if c then 16 else 0)" "flag_bit c 3 = (if c then 8 else 0)"
    "flag_bit c 2 = (if c then 4 else 0)" "flag_bit c 1 = (if c then 2 else 0)" for c
    by (simp_all add: flag_bit_def)
  have masks: "(0x0000FFFF :: u32) = mask 16" "(0x00FF :: u32) = mask 8" "(0x0F :: u32) = mask 4" "(0x3 :: u32) = mask 2"
    by (simp_all add: mask_eq_exp_minus_1)
  have "ctzsi2 a = of_nat t1 + of_nat t2 + of_nat t3 + of_nat t4 + ?e"
    unfolding ctzsi2_def Let_def flags masks t1_def [symmetric] x1_def [symmetric] t2_def [symmetric] x2_def [symmetric]
      t3_def [symmetric] x3_def [symmetric] t4_def [symmetric] x4_def [symmetric] ..
  then have "ctzsi2 a = of_nat (t1 + t2 + t3 + t4 + unat ?e)" by simp
  ultimately show ?thesis using unat_of_nat_u32 [of "trailing_zeros a"] by simp
qed

lemma leading_zeros_dw: "leading_zeros a = (if dw_high a = 0 then leading_zeros (dw_low a) + 32 else leading_zeros (dw_high a))"
proof (cases "unat a < 2 ^ 32")
  case True
  then have "dw_high a = 0" "unat (dw_low a) = unat a" by (simp_all add: word_unat_eq_iff unat_dw)
  moreover have "floorlog 2 (unat a) \<le> 32" using True by (intro floorlog_leI) simp_all
  ultimately show ?thesis by (simp add: leading_zeros_def)
next
  case False
  then have "dw_high a \<noteq> 0" by (auto simp: word_unat_eq_iff unat_dw div_eq_0_iff)
  moreover have "floorlog 2 (unat a) = floorlog 2 (unat (dw_high a)) + 32"
    using floorlog_shift [of 32 "unat a"] False by (simp add: unat_dw)
  ultimately show ?thesis by (simp add: leading_zeros_def)
qed

lemma trailing_zeros_dw: "trailing_zeros a = (if dw_low a = 0 then trailing_zeros (dw_high a) + 32 else trailing_zeros (dw_low a))"
proof (cases "dw_low a = 0")
  case True
  then have low: "\<not> bit a n" if "n < 32" for n using that bit_dw(1) [of a n] by simp
  show ?thesis
  proof (cases "dw_high a = 0")
    case h: True
    then have "a = 0" using True dw_cover(1) [of a] by (simp add: dw_all_def)
    then show ?thesis using True h by (simp add: trailing_zeros_def)
  next
    case h: False
    have "trailing_zeros a = trailing_zeros (dw_high a) + 32"
    proof (rule trailing_zeros_eqI)
      show "bit a (trailing_zeros (dw_high a) + 32)" using trailing_zeros_bit(1) [OF h] by (simp add: bit_dw)
      fix j assume j: "j < trailing_zeros (dw_high a) + 32"
      show "\<not> bit a j"
      proof (cases "j < 32")
        case False
        then have "\<not> bit (dw_high a) (j - 32)" using j by (intro trailing_zeros_bit(2)) simp
        then show ?thesis using False bit_imp_le_length [of a j] by (auto simp: bit_dw)
      qed (simp add: low)
    qed
    with True show ?thesis by simp
  qed
next
  case False
  have "trailing_zeros a = trailing_zeros (dw_low a)"
  proof (rule trailing_zeros_eqI)
    have b: "bit (dw_low a) (trailing_zeros (dw_low a))" using trailing_zeros_bit(1) [OF False] .
    then show "bit a (trailing_zeros (dw_low a))" by (simp add: bit_dw)
    fix j assume j: "j < trailing_zeros (dw_low a)"
    moreover have "trailing_zeros (dw_low a) < 32" using b by (simp add: bit_dw)
    ultimately show "\<not> bit a j" using trailing_zeros_bit(2) [OF j] by (simp add: bit_dw)
  qed
  with False show ?thesis by simp
qed

lemma leading_zeros_le: "leading_zeros (w :: 'a::len word) \<le> LENGTH('a)"
  by (simp add: leading_zeros_def)

text \<open>
  C30: The counts of zeros. Given compiler intrinsics that count for arguments other than zero, the
  64-bit routines return the number of leading and of trailing zeros of every word but zero, and
  \<open>ffs\<close> one more than the place of the lowest set bit and zero for zero; the 32-bit routines, which
  halve the window four times, count in every word, zero included.
\<close>

theorem zero_counts:
  assumes "\<And>x. x \<noteq> 0 \<Longrightarrow> unat (builtin_clz x) = leading_zeros x"
    and "\<And>x. x \<noteq> 0 \<Longrightarrow> unat (builtin_ctz x) = trailing_zeros x"
  shows "unat (clzsi2 x) = leading_zeros x \<and> unat (ctzsi2 x) = trailing_zeros x \<and>
    (a \<noteq> 0 \<longrightarrow> unat (clzdi2 builtin_clz a) = leading_zeros a \<and> unat (ctzdi2 builtin_ctz a) = trailing_zeros a) \<and>
    unat (ffsdi2 builtin_ctz a) = (if a = 0 then 0 else Suc (trailing_zeros a))"
proof -
  have z: "a = 0 \<longleftrightarrow> dw_low a = 0 \<and> dw_high a = 0" using dw_cover(1) [of a] by (auto simp: dw_all_def dw_low_def dw_high_def)
  have small: "unat (r + of_nat k :: u32) = unat r + k" if "unat r \<le> 32" "k \<le> 33" for r :: u32 and k
    using that by (subst unat_word_ariths) (simp add: unsigned_of_nat take_bit_nat_eq_self)
  have tz: "trailing_zeros x \<le> 32" for x :: u32
    using trailing_zeros_bit(1) [of x] bit_imp_le_length [of x "trailing_zeros x"] by (cases "x = 0") (auto simp: trailing_zeros_def)
  have lz: "leading_zeros x \<le> 32" for x :: u32 using leading_zeros_le [of x] by simp
  have small32: "unat (r + 32 :: u32) = unat r + 32" "unat (r + 33) = unat r + 33" "unat (r + 1) = unat r + 1" if "unat r \<le> 32" for r
    using small [OF that, of 32] small [OF that, of 33] small [OF that, of 1] by simp_all
  have "unat (clzdi2 builtin_clz a) = leading_zeros a" if "a \<noteq> 0"
    using that lz [of "dw_low a"] small32 [of "builtin_clz (dw_low a)"]
    by (auto simp: clzdi2_def flag_mask_def z leading_zeros_dw [of a] assms(1))
  moreover have "unat (ctzdi2 builtin_ctz a) = trailing_zeros a" if "a \<noteq> 0"
    using that tz [of "dw_high a"] small32 [of "builtin_ctz (dw_high a)"]
    by (auto simp: ctzdi2_def flag_mask_def z trailing_zeros_dw [of a] assms(2))
  moreover have "unat (ffsdi2 builtin_ctz a) = (if a = 0 then 0 else Suc (trailing_zeros a))"
    using tz [of "dw_high a"] tz [of "dw_low a"] small32 [of "builtin_ctz (dw_high a)"] small32 [of "builtin_ctz (dw_low a)"]
    by (auto simp: ffsdi2_def z trailing_zeros_dw [of a] assms(2))
  ultimately show ?thesis by (simp add: clzsi2_eq ctzsi2_eq)
qed

theorem zero_counts_witness:
  "unat (clzdi2 clzsi2 0x10) = leading_zeros (0x10 :: u64) \<and> unat (ffsdi2 ctzsi2 0x500000000) = Suc (trailing_zeros (0x500000000 :: u64))"
  using zero_counts [OF clzsi2_eq ctzsi2_eq, of 0 "0x10"] zero_counts [OF clzsi2_eq ctzsi2_eq, of 0 "0x500000000"] by simp

section \<open>Counting set bits\<close>

text \<open>
  A word as equal lanes: \<open>lanes k m f\<close> is the number whose \<open>m\<close> digits of \<open>k\<close> bits are \<open>f 0\<close>, \<open>f 1\<close>, and
  so on. The counting routine adds neighbouring lanes and doubles their width.
\<close>

primrec lanes :: "nat \<Rightarrow> nat \<Rightarrow> (nat \<Rightarrow> nat) \<Rightarrow> nat" where
  "lanes k 0 f = 0"
| "lanes k (Suc m) f = f 0 + 2 ^ k * lanes k m (\<lambda>i. f (Suc i))"

lemma lanes_cong: "(\<And>i. i < m \<Longrightarrow> f i = g i) \<Longrightarrow> lanes k m f = lanes k m g"
proof (induction m arbitrary: f g)
  case (Suc m)
  from Suc.IH [of "\<lambda>i. f (Suc i)" "\<lambda>i. g (Suc i)"] show ?case using Suc.prems by simp
qed simp

lemma lanes_add: "lanes k m f + lanes k m g = lanes k m (\<lambda>i. f i + g i)"
proof (induction m arbitrary: f g)
  case (Suc m)
  show ?case by (simp add: algebra_simps flip: Suc.IH)
qed simp

lemma lanes_less: "(\<And>i. i < m \<Longrightarrow> f i < 2 ^ k) \<Longrightarrow> lanes k m f < 2 ^ (k * m)"
proof (induction m arbitrary: f)
  case (Suc m)
  have "lanes k m (\<lambda>i. f (Suc i)) < 2 ^ (k * m)" using Suc.prems by (intro Suc.IH) simp
  then have "2 ^ k * Suc (lanes k m (\<lambda>i. f (Suc i))) \<le> 2 ^ k * 2 ^ (k * m)" by (intro mult_le_mono2) simp
  moreover have "f 0 < 2 ^ k" using Suc.prems by simp
  ultimately show ?case by (simp add: power_add)
qed simp

lemma join_and: "(x + 2 ^ k * X) AND (y + 2 ^ k * Y) = (x AND y) + 2 ^ k * (X AND Y)" if "x < 2 ^ k" "y < 2 ^ k" for x y X Y :: nat
proof -
  have join: "u + 2 ^ k * U = u OR push_bit k U" if "u < 2 ^ k" for u U :: nat
  proof -
    have "u AND push_bit k U = 0"
    proof (rule bit_eqI)
      fix n
      have "\<not> bit u n" if "k \<le> n" using \<open>u < 2 ^ k\<close> that by (metis bit_take_bit_iff leD take_bit_nat_eq_self)
      then show "bit (u AND push_bit k U) n = bit 0 n" by (auto simp: bit_simps)
    qed
    then have "u + push_bit k U = u OR push_bit k U" by (rule disjunctive_add_eq_or)
    then show ?thesis by (simp add: push_bit_eq_mult mult.commute)
  qed
  have high: "\<not> bit u n" if "u < 2 ^ k" "k \<le> n" for u n :: nat using that by (metis bit_take_bit_iff leD take_bit_nat_eq_self)
  have "x AND y < 2 ^ k" using that(1) by (metis bit_and_iff bit_eq_iff bit_take_bit_iff take_bit_nat_eq_self take_bit_nat_less_exp)
  then show ?thesis using that by (simp only: join) (rule bit_eqI, auto simp: bit_simps dest: high)
qed

lemma lanes_and:
  "(\<And>i. i < m \<Longrightarrow> f i < 2 ^ k) \<Longrightarrow> (\<And>i. i < m \<Longrightarrow> g i < 2 ^ k) \<Longrightarrow>
   lanes k m f AND lanes k m g = lanes k m (\<lambda>i. f i AND g i)"
proof (induction m arbitrary: f g)
  case (Suc m)
  from Suc.IH [of "\<lambda>i. f (Suc i)" "\<lambda>i. g (Suc i)"] show ?case using Suc.prems by (simp add: join_and)
qed simp

lemma lanes_pair: "lanes k (2 * m) f = lanes (2 * k) m (\<lambda>i. f (2 * i) + 2 ^ k * f (2 * i + 1))"
proof (induction m arbitrary: f)
  case (Suc m)
  from Suc.IH [of "\<lambda>i. f (Suc (Suc i))"] show ?case by (simp add: distrib_left mult.assoc power_add mult_2)
qed simp

lemma lanes_div: "(\<And>i. i < m \<Longrightarrow> f i < 2 ^ k) \<Longrightarrow> lanes k m f div 2 ^ k = lanes k m (\<lambda>i. if Suc i < m then f (Suc i) else 0)"
proof (cases m)
  case (Suc n)
  assume "\<And>i. i < m \<Longrightarrow> f i < 2 ^ k"
  moreover have pad: "lanes k n g = lanes k (Suc n) (\<lambda>i. if i < n then g i else 0)" for g
  proof (induction n arbitrary: g)
    case (Suc n)
    from Suc.IH [of "\<lambda>i. g (Suc i)"] show ?case by simp
  qed simp
  moreover note pad [of "\<lambda>i. f (Suc i)"]
  ultimately show ?thesis unfolding Suc by (simp del: lanes.simps(2) add: lanes.simps(2) [of k n f])
qed simp

lemma sum_pair: "(\<Sum>i<2 * m. f i) = (\<Sum>i<m. f (2 * i) + f (2 * i + 1))" for f :: "nat \<Rightarrow> nat"
  by (induction m) simp_all

lemma and_mask_lane: "(x + 2 ^ k * y) AND (2 ^ k - 1) = x" if "x < 2 ^ k" for x y :: nat
proof -
  have "(x + 2 ^ k * y) AND (2 ^ k - 1) = (x + 2 ^ k * y) mod 2 ^ k"
    unfolding mask_eq_exp_minus_1 [symmetric] take_bit_eq_mask [symmetric] by (rule take_bit_eq_mod)
  then show ?thesis using that by simp
qed

lemma lane_less: "x < 2 ^ k \<Longrightarrow> y < 2 ^ k \<Longrightarrow> x + 2 ^ k * y < 2 ^ (2 * k)" for x y :: nat
proof -
  assume x: "x < 2 ^ k" and "y < 2 ^ k"
  then have "2 ^ k * Suc y \<le> 2 ^ k * 2 ^ k" by (intro mult_le_mono2) simp
  then show ?thesis using x by (simp add: power_add mult_2)
qed

lemma lanes_even_odd:
  assumes "\<And>i. i < 2 * m \<Longrightarrow> f i < 2 ^ k"
  shows "lanes k (2 * m) f AND lanes (2 * k) m (\<lambda>_. 2 ^ k - 1) = lanes (2 * k) m (\<lambda>i. f (2 * i))"
    and "lanes k (2 * m) f div 2 ^ k AND lanes (2 * k) m (\<lambda>_. 2 ^ k - 1) = lanes (2 * k) m (\<lambda>i. f (2 * i + 1))"
proof -
  have even: "lanes k (2 * m) f AND lanes (2 * k) m (\<lambda>_. 2 ^ k - 1) = lanes (2 * k) m (\<lambda>i. f (2 * i))"
    if f: "\<And>i. i < 2 * m \<Longrightarrow> f i < 2 ^ k" for f
  proof -
    have "(2 ^ k - 1 :: nat) < 2 ^ (2 * k)" by (rule less_le_trans [of _ "2 ^ k"]) simp_all
    then have "lanes k (2 * m) f AND lanes (2 * k) m (\<lambda>_. 2 ^ k - 1) =
        lanes (2 * k) m (\<lambda>i. (f (2 * i) + 2 ^ k * f (2 * i + 1)) AND (2 ^ k - 1))"
      unfolding lanes_pair by (intro lanes_and lane_less f) simp_all
    also have "\<dots> = lanes (2 * k) m (\<lambda>i. f (2 * i))" by (intro lanes_cong and_mask_lane f) simp
    finally show ?thesis .
  qed
  show "lanes k (2 * m) f AND lanes (2 * k) m (\<lambda>_. 2 ^ k - 1) = lanes (2 * k) m (\<lambda>i. f (2 * i))" using assms by (rule even)
  show "lanes k (2 * m) f div 2 ^ k AND lanes (2 * k) m (\<lambda>_. 2 ^ k - 1) = lanes (2 * k) m (\<lambda>i. f (2 * i + 1))"
    using even [of "\<lambda>i. if Suc i < 2 * m then f (Suc i) else 0"] assms by (simp add: lanes_div) (rule lanes_cong, simp)
qed

lemma lanes_bits: "lanes 1 n (\<lambda>i. of_bool (bit x i)) = take_bit n x" for x :: nat
proof (induction n arbitrary: x)
  case (Suc n)
  from Suc.IH [of "x div 2"] show ?case by (simp add: take_bit_Suc bit_Suc mod_2_eq_odd bit_0)
qed simp

lemma lanes_const: "(2 ^ k - 1) * lanes k m (\<lambda>_. c) + c = c * 2 ^ (k * m)"
proof (induction m)
  case (Suc m)
  obtain p where "(2 :: nat) ^ k = Suc p" using not0_implies_Suc [of "2 ^ k"] by auto
  then have "(2 ^ k - 1) * lanes k (Suc m) (\<lambda>_. c) + c = 2 ^ k * ((2 ^ k - 1) * lanes k m (\<lambda>_. c) + c)"
    by (simp add: algebra_simps)
  then show ?case unfolding Suc.IH by (simp add: power_add)
qed simp

lemma lanes_masks:
  "lanes 2 16 (\<lambda>_. 1) = 0x55555555" "lanes 4 8 (\<lambda>_. 3) = 0x33333333" "lanes 8 4 (\<lambda>_. 15) = 0x0F0F0F0F"
  "lanes 2 32 (\<lambda>_. 1) = 0x5555555555555555" "lanes 4 16 (\<lambda>_. 3) = 0x3333333333333333" "lanes 8 8 (\<lambda>_. 15) = 0x0F0F0F0F0F0F0F0F"
  using lanes_const [of 2 16 1] lanes_const [of 4 8 3] lanes_const [of 8 4 15] lanes_const [of 2 32 1] lanes_const [of 4 16 3] lanes_const [of 8 8 15]
  by simp_all


lemma lanes_narrow:
  assumes "\<And>i. i < 2 * m \<Longrightarrow> f i \<le> 1"
  shows "lanes 1 (2 * m) f - (lanes 1 (2 * m) f div 2 AND lanes 2 m (\<lambda>_. 1)) = lanes 2 m (\<lambda>i. f (2 * i) + f (2 * i + 1))"
    and "(lanes 1 (2 * m) f div 2 AND lanes 2 m (\<lambda>_. 1)) \<le> lanes 1 (2 * m) f"
proof -
  have "f i < 2 ^ 1" if "i < 2 * m" for i using assms [OF that] by simp
  from lanes_even_odd(2) [of m f 1, OF this] have odd: "lanes 1 (2 * m) f div 2 AND lanes 2 m (\<lambda>_. 1) = lanes 2 m (\<lambda>i. f (2 * i + 1))"
    by simp
  moreover have "lanes 1 (2 * m) f = lanes 2 m (\<lambda>i. f (2 * i) + f (2 * i + 1)) + lanes 2 m (\<lambda>i. f (2 * i + 1))"
    unfolding lanes_pair lanes_add by (simp add: mult_2 add.assoc)
  ultimately show "lanes 1 (2 * m) f - (lanes 1 (2 * m) f div 2 AND lanes 2 m (\<lambda>_. 1)) = lanes 2 m (\<lambda>i. f (2 * i) + f (2 * i + 1))"
    "(lanes 1 (2 * m) f div 2 AND lanes 2 m (\<lambda>_. 1)) \<le> lanes 1 (2 * m) f" by simp_all
qed

lemma unat_drop: "unat (drop_bit k w) = unat w div 2 ^ k" for w :: "'a::len word"
  unfolding unat_drop_bit_eq by (rule drop_bit_eq_div)

lemma unat_and: "unat (v AND w) = unat v AND unat w" for v w :: "'a::len word"
  by (simp add: unsigned_and_eq)

lemma unat_plus_less: "unat v + unat w < 2 ^ LENGTH('a) \<Longrightarrow> unat (v + w) = unat v + unat w" for v w :: "'a::len word"
  by (simp add: unat_word_ariths)

text \<open>The first three stages leave the count of each byte in that byte.\<close>

lemma byte_counts:
  fixes a :: "'a::len word"
  assumes len: "LENGTH('a) = 8 * m"
    and masks: "unat M1 = lanes 2 (4 * m) (\<lambda>_. 1)" "unat M2 = lanes 4 (2 * m) (\<lambda>_. 3)" "unat M3 = lanes 8 m (\<lambda>_. 15)"
  defines "x1 \<equiv> a - (drop_bit 1 a AND M1)"
  defines "x2 \<equiv> (drop_bit 2 x1 AND M2) + (x1 AND M2)"
  defines "x3 \<equiv> (x2 + drop_bit 4 x2) AND M3"
  shows "\<exists>g. unat x3 = lanes 8 m g \<and> (\<forall>i<m. g i \<le> 8) \<and> (\<Sum>i<m. g i) = card {i. bit a i}"
proof -
  let ?b = "\<lambda>i. of_bool (bit (unat a) i) :: nat"
  let ?c = "\<lambda>i. ?b (2 * i) + ?b (2 * i + 1)"
  let ?d = "\<lambda>i. ?c (2 * i) + ?c (2 * i + 1)"
  let ?e = "\<lambda>i. ?d (2 * i) + ?d (2 * i + 1)"
  let ?s = "\<lambda>i. if Suc i < 2 * m then ?d (Suc i) else 0"
  have pow: "(2 :: nat) ^ LENGTH('a) = 2 ^ (4 * (2 * m))" by (simp add: len)
  have "unat a = take_bit (2 * (4 * m)) (unat a)" using unsigned_less [of a, where ?'a = nat]
    by (simp add: take_bit_nat_eq_self len)
  then have "unat a = lanes 1 (2 * (4 * m)) ?b" by (simp only: lanes_bits)
  then have 1: "unat x1 = lanes 2 (2 * (2 * m)) ?c"
    using lanes_narrow [of "4 * m" ?b] by (simp add: x1_def unat_sub unat_and unat_drop word_le_nat_alt masks)
  have "?c i < 2 ^ 2" for i by simp
  note eo = lanes_even_odd [of "2 * m" ?c 2, OF this]
  have "lanes 4 (2 * m) ?d < 2 ^ (4 * (2 * m))" by (rule lanes_less) simp
  then have 2: "unat x2 = lanes 4 (2 * m) ?d"
    unfolding x2_def using eo lanes_add [of 4 "2 * m" "\<lambda>i. ?c (2 * i + 1)" "\<lambda>i. ?c (2 * i)"]
    by (subst unat_plus_less) (simp_all add: unat_and unat_drop 1 masks pow add.commute)
  have d: "?d i < 2 ^ 4" for i by simp
  have "unat x2 + unat x2 div 2 ^ 4 = lanes 4 (2 * m) (\<lambda>i. ?d i + ?s i)"
    unfolding 2 lanes_div [of "2 * m" ?d 4, OF d] by (rule lanes_add)
  moreover have "?d i + ?s i < 2 ^ 4" for i by simp
  note lanes_less [of "2 * m" "\<lambda>i. ?d i + ?s i", OF this] lanes_even_odd(1) [of m "\<lambda>i. ?d i + ?s i", OF this]
  ultimately have "unat x3 = lanes 8 m (\<lambda>i. ?d (2 * i) + ?s (2 * i))"
    unfolding x3_def by (simp only: unat_and) (subst unat_plus_less, simp_all add: unat_drop masks pow)
  also have "\<dots> = lanes 8 m ?e" by (rule lanes_cong) simp
  finally have "unat x3 = lanes 8 m ?e" .
  moreover have "(\<Sum>i<m. ?e i) = (\<Sum>i<8 * m. ?b i)"
    using sum_pair [of ?b "4 * m"] sum_pair [of ?c "2 * m"] sum_pair [of ?d m] by simp
  moreover have "(\<Sum>i<8 * m. ?b i) = card {i. bit a i}"
  proof -
    have "{i \<in> {..<8 * m}. bit (unat a) i} = {i. bit a i}" using bit_imp_le_length [of a] len by (auto simp: bit_simps)
    then show ?thesis by (simp add: sum.If_cases of_bool_def Int_def)
  qed
  moreover have "?e i \<le> 8" for i by simp
  ultimately show ?thesis by (intro exI [of _ ?e] conjI allI impI) (simp_all only:)
qed


lemma lanes_numeral: "lanes k (numeral v) f = f 0 + 2 ^ k * lanes k (pred_numeral v) (\<lambda>i. f (Suc i))"
  by (simp add: numeral_eq_Suc)

text \<open>The remaining stages add the bytes.\<close>

lemma fold_bytes:
  fixes x :: u32
  assumes "unat x = lanes 8 4 g" and "\<And>i. i < 4 \<Longrightarrow> g i \<le> 16" and "(\<Sum>i<4. g i) < 2 ^ k" "k \<le> 8"
  defines "y \<equiv> x + drop_bit 16 x"
  shows "unat ((y + drop_bit 8 y) AND mask k) = (\<Sum>i<4. g i)"
proof -
  have four: "lanes 8 4 g = g 0 + 256 * (g 1 + 256 * (g 2 + 256 * g 3))"
    by (simp add: lanes_numeral flip: numeral_2_eq_2)
  have sum: "(\<Sum>i<4. g i) = g 0 + g 1 + g 2 + g 3"
    by (simp add: numeral_eq_Suc)
  have le: "g 0 \<le> 16" "g 1 \<le> 16" "g 2 \<le> 16" "g 3 \<le> 16" using assms(2) by simp_all
  have x: "unat x = g 0 + 256 * (g 1 + 256 * (g 2 + 256 * g 3))" using assms(1) by (simp only: four)
  have "unat x div 2 ^ 16 = g 2 + 256 * g 3" using le unfolding x by simp
  then have y: "unat y = (g 0 + g 2) + 256 * (g 1 + g 3 + 256 * (g 2 + 256 * g 3))"
    using le unfolding y_def by (subst unat_plus_less) (simp_all add: unat_drop x)
  have "unat y div 2 ^ 8 = g 1 + g 3 + 256 * (g 2 + 256 * g 3)" using le unfolding y by simp
  then have "unat (y + drop_bit 8 y) = (g 0 + g 1 + g 2 + g 3) + 256 * (g 1 + g 2 + 257 * g 3 + 256 * (g 2 + 256 * g 3))"
    using le by (subst unat_plus_less) (simp_all add: unat_drop y)
  moreover have "(256 :: nat) = 2 ^ k * 2 ^ (8 - k)" using assms(4) by (simp flip: power_add)
  ultimately show ?thesis using assms(3) unfolding sum
    by (simp add: unat_and_mask mult.assoc)
qed

lemma popcountsi2_eq: "unat (popcountsi2 a) = card {i. bit a i}"
proof -
  let ?x = "let x = a - (drop_bit 1 a AND 0x55555555); x = (drop_bit 2 x AND 0x33333333) + (x AND 0x33333333)
    in (x + drop_bit 4 x) AND 0x0F0F0F0F"
  have "\<exists>g. unat ?x = lanes 8 4 g \<and> (\<forall>i<4. g i \<le> 8) \<and> (\<Sum>i<4. g i) = card {i. bit a i}"
    unfolding Let_def by (rule byte_counts) (simp_all add: lanes_masks lanes_masks [unfolded One_nat_def])
  then obtain g where g: "unat ?x = lanes 8 4 g" "\<forall>i<4. g i \<le> 8" "(\<Sum>i<4. g i) = card {i. bit a i}" by blast
  have "(\<Sum>i<4. g i) < 2 ^ 6" using g(2) sum_bounded_above [of "{..<4}" g 8] by simp
  moreover have "g i \<le> 16" if "i < 4" for i using g(2) that by fastforce
  ultimately show ?thesis using fold_bytes [OF g(1), of 6] g(3) by (simp add: popcountsi2_def Let_def mask_eq_exp_minus_1)
qed

lemma popcountdi2_eq: "unat (popcountdi2 a) = card {i. bit a i}"
proof -
  define x where "x = (let x = a - (drop_bit 1 a AND 0x5555555555555555);
      x = (drop_bit 2 x AND 0x3333333333333333) + (x AND 0x3333333333333333) in (x + drop_bit 4 x) AND 0x0F0F0F0F0F0F0F0F)"
  have "\<exists>g. unat x = lanes 8 8 g \<and> (\<forall>i<8. g i \<le> 8) \<and> (\<Sum>i<8. g i) = card {i. bit a i}"
    unfolding x_def Let_def by (rule byte_counts) (simp_all add: lanes_masks lanes_masks [unfolded One_nat_def])
  then obtain g where g: "unat x = lanes 8 8 g" "\<forall>i<8. g i \<le> 8" "(\<Sum>i<8. g i) = card {i. bit a i}" by blast
  define h where "h = (\<lambda>i. g i + g (i + 4))"
  define L where "L = lanes 8 4 g"
  define H where "H = lanes 8 4 (\<lambda>i. g (i + 4))"
  have sums: "(\<Sum>i<8. g i) = (\<Sum>i<4. h i)" by (simp add: numeral_eq_Suc h_def)
  have x: "unat x = L + 2 ^ 32 * H" unfolding g(1) L_def H_def by (simp add: lanes_numeral flip: numeral_2_eq_2)
  have le: "g i < 2 ^ 8" "g (i + 4) < 2 ^ 8" "h i < 2 ^ 8" "h i \<le> 16" if "i < 4" for i
    using g(2) [rule_format, of i] g(2) [rule_format, of "i + 4"] that by (simp_all add: h_def)
  have "L < 2 ^ (8 * 4)" "H < 2 ^ (8 * 4)" "lanes 8 4 h < 2 ^ (8 * 4)" unfolding L_def H_def by (rule lanes_less; use le in simp)+
  then have b: "L < 4294967296" "H < 4294967296" "L + H < 4294967296" by (simp_all add: L_def H_def lanes_add h_def)
  have "unat (x + drop_bit 32 x) = L + H + 2 ^ 32 * H"
    using b by (subst unat_plus_less) (simp_all add: unat_drop x)
  moreover have "(L + H + 2 ^ 32 * H) mod 2 ^ 32 = L + H" unfolding mod_mult_self2 using b by simp
  ultimately have "unat (ucast (x + drop_bit 32 x) :: u32) = L + H"
    unfolding unsigned_ucast_eq by (simp add: take_bit_eq_mod)
  then have x32: "unat (ucast (x + drop_bit 32 x) :: u32) = lanes 8 4 h" by (simp add: L_def H_def h_def lanes_add)
  have "(\<Sum>i<4. h i) < 2 ^ 7" using le(4) sum_bounded_above [of "{..<4}" h 16] by simp
  from fold_bytes [OF x32 le(4) this] show ?thesis
    using g(3) sums by (simp add: popcountdi2_def x_def Let_def mask_eq_exp_minus_1)
qed

section \<open>Parity\<close>

lemma parity_card_xor: "finite A \<Longrightarrow> finite B \<Longrightarrow> even (card (A - B \<union> (B - A))) \<longleftrightarrow> even (card A + card B)"
proof -
  assume f: "finite A" "finite B"
  have "card (A - B \<union> (B - A)) + 2 * card (A \<inter> B) = card A + card B"
  proof -
    have "(A - B) \<inter> (B - A) = {}" by blast
    then show ?thesis using f card_Un_disjoint [of "A - B" "B - A"] card_Diff_subset_Int [of A B] card_Diff_subset_Int [of B A]
      card_mono [of A "A \<inter> B"] card_mono [of B "A \<inter> B"] by (auto simp: Int_commute)
  qed
  then show ?thesis by presburger
qed

text \<open>Folding the upper half of a window onto the lower keeps the parity.\<close>

definition low_parity :: "nat \<Rightarrow> 'a::len word \<Rightarrow> bool" where
  "low_parity k w = odd (card {i. i < k \<and> bit w i})"

lemma low_parity_fold: "low_parity k (w XOR drop_bit k w) \<longleftrightarrow> low_parity (2 * k) w"
proof -
  have "{i. i < k \<and> bit (w XOR drop_bit k w) i} =
      ({i. i < k \<and> bit w i} - {i. i < k \<and> bit w (k + i)}) \<union> ({i. i < k \<and> bit w (k + i)} - {i. i < k \<and> bit w i})"
    by (auto simp: bit_simps)
  then have "low_parity k (w XOR drop_bit k w) \<longleftrightarrow> odd (card {i. i < k \<and> bit w i} + card {i. i < k \<and> bit w (k + i)})"
    using parity_card_xor [of "{i. i < k \<and> bit w i}" "{i. i < k \<and> bit w (k + i)}"] by (simp add: low_parity_def)
  moreover have "card {i. i < 2 * k \<and> bit w i} = card {i. i < k \<and> bit w i} + card {i. i < k \<and> bit w (k + i)}"
  proof -
    have "{i. i < 2 * k \<and> bit w i} = {i. i < k \<and> bit w i} \<union> (\<lambda>i. k + i) ` {i. i < k \<and> bit w (k + i)}"
      by (auto simp: image_iff) (metis add_diff_inverse_nat add_less_cancel_left mult_2 not_less)
    moreover have "{i. i < k \<and> bit w i} \<inter> (\<lambda>i. k + i) ` {i. i < k \<and> bit w (k + i)} = {}" by auto
    ultimately show ?thesis by (simp add: card_Un_disjoint card_image inj_on_def)
  qed
  ultimately show ?thesis by (simp add: low_parity_def)
qed

lemma low_parity_nibble: "drop_bit (unat (x AND 0xF)) 0x6996 AND 1 = (of_bool (low_parity 4 x) :: u32)" for x :: u32
proof -
  have "unat (x AND 0xF) = unat x mod 2 ^ 4" using unat_and_mask [of x 4] by (simp add: mask_eq_exp_minus_1)
  moreover have "{i. i < 4 \<and> bit x i} = {i. i < 4 \<and> bit (unat x mod 2 ^ 4) i}" unfolding take_bit_eq_mod [symmetric] by (auto simp: bit_take_bit_iff bit_unsigned_iff)
  moreover have "drop_bit n 0x6996 AND 1 = (of_bool (odd (card {i. i < 4 \<and> bit n i})) :: u32)" if "n < 16" for n :: nat
  proof -
    have "card {i. i < 4 \<and> bit n i} = (\<Sum>i<4. of_bool (bit n i))"
      by (simp add: sum.If_cases of_bool_def Int_def)
    also have "\<dots> = sum_list (map (\<lambda>i. of_bool (bit n i)) [0..<4])"
      by (simp add: sum_list_distinct_conv_sum_set atLeast0LessThan del: upt_rec_numeral)
    finally have "card {i. i < 4 \<and> bit n i} = sum_list (map (\<lambda>i. of_bool (bit n i)) [0..<4])" .
    moreover have "\<forall>n\<in>set [0..<16]. drop_bit n 0x6996 AND 1 =
        (of_bool (odd (sum_list (map (\<lambda>i. of_bool (bit n i)) [0..<4]) :: nat)) :: u32)" by code_simp
    ultimately show ?thesis using that by simp
  qed
  ultimately show ?thesis unfolding low_parity_def by simp
qed

lemma paritysi2_eq: "paritysi2 a = of_bool (low_parity 32 a)"
  unfolding paritysi2_def Let_def low_parity_nibble
  by (simp only: low_parity_fold [of 4, simplified] low_parity_fold [of 8, simplified] low_parity_fold [of 16, simplified])

lemma paritydi2_eq: "paritydi2 a = of_bool (low_parity 64 a)"
proof -
  have "{i. i < 32 \<and> bit (dw_high a XOR dw_low a) i} = {i. i < 32 \<and> bit (a XOR drop_bit 32 a) i}"
    by (auto simp: bit_simps add.commute)
  then have "low_parity 32 (dw_high a XOR dw_low a) = low_parity 32 (a XOR drop_bit 32 a)" by (simp only: low_parity_def)
  then show ?thesis using low_parity_fold [of 32 a] by (simp add: paritydi2_def paritysi2_eq)
qed

lemma low_parity_all: "low_parity (LENGTH('a)) w \<longleftrightarrow> odd (card {i. bit w i})" for w :: "'a::len word"
proof -
  have "{i. i < LENGTH('a) \<and> bit w i} = {i. bit w i}" by (auto dest: bit_imp_le_length)
  then show ?thesis by (simp add: low_parity_def)
qed

text \<open>
  C29: The counts of set bits. The routines that add neighbouring lanes of two, four and eight bits
  return the number of set bits of every 32- and 64-bit word, with no carry from one lane into the
  next, and the parity routines, which fold halves and look the last four bits up in a constant, its
  remainder by two.
\<close>

theorem set_bit_counts:
  "unat (popcountsi2 x) = card {i. bit x i} \<and> unat (popcountdi2 a) = card {i. bit a i} \<and>
   unat (paritysi2 x) = card {i. bit x i} mod 2 \<and> unat (paritydi2 a) = card {i. bit a i} mod 2"
  using low_parity_all [of x] low_parity_all [of a]
  by (simp add: popcountsi2_eq popcountdi2_eq paritysi2_eq paritydi2_eq mod_2_eq_odd)

section \<open>Comparisons\<close>

lemma join_less: "h * B + l < h' * B + l' \<longleftrightarrow> h < h' \<or> h = h' \<and> l < l'"
  if "0 \<le> l" "l < B" "0 \<le> l'" "l' < B" for h h' l l' B :: int
proof (cases "h = h'")
  case False
  then consider "h + 1 \<le> h'" | "h' + 1 \<le> h" by linarith
  then show ?thesis
  proof cases
    case 1
    then have "(h + 1) * B \<le> h' * B" using that by (intro mult_right_mono) simp_all
    then show ?thesis using 1 that by (simp add: distrib_right)
  next
    case 2
    then have "(h' + 1) * B \<le> h * B" using that by (intro mult_right_mono) simp_all
    then show ?thesis using 2 that by (simp add: distrib_right)
  qed
qed simp

lemma join_less_iff: "h * 2 ^ 32 + int (unat l) < h' * 2 ^ 32 + int (unat l') \<longleftrightarrow> h < h' \<or> h = h' \<and> l < l'" for l l' :: u32
proof -
  have "int (unat l) < int (unat l') \<longleftrightarrow> l < l'" by (simp only: word_less_nat_alt of_nat_less_iff)
  then show ?thesis using join_less [of "int (unat l)" "2 ^ 32" "int (unat l')" h h']
      unsigned_less [of l, where ?'a = int] unsigned_less [of l', where ?'a = int] by simp
qed

lemma sint_unat: "sint w = int (unat w) - 2 ^ LENGTH('a) * of_bool (bit w (LENGTH('a) - 1))" for w :: "'a::len word"
proof -
  have "take_bit LENGTH('a) (uint w) = uint w" by (rule take_bit_int_eq_self) simp_all
  then show ?thesis
    using signed_take_bit_eq_take_bit_minus [of "LENGTH('a) - 1" "uint w"] by (simp add: sint_uint bit_simps)
qed

lemma sint_dw: "sint a = sint (dw_high a) * 2 ^ 32 + int (unat (dw_low a))"
proof -
  have "bit a 63 \<longleftrightarrow> bit (dw_high a) 31" by (simp add: bit_dw)
  moreover have "int (unat a) = int (unat (dw_high a)) * 2 ^ 32 + int (unat (dw_low a))"
    using unat_dw(3) [of "dw_high a" "dw_low a"] by simp
  ultimately show ?thesis using sint_unat [of a] sint_unat [of "dw_high a"] by (simp del: unat_eq_nat_uint of_nat_nat)
qed

lemma less_dw:
  "sint a < sint b \<longleftrightarrow> sint (dw_high a) < sint (dw_high b) \<or> dw_high a = dw_high b \<and> dw_low a < dw_low b"
  "a < b \<longleftrightarrow> dw_high a < dw_high b \<or> dw_high a = dw_high b \<and> dw_low a < dw_low b"
proof -
  show "sint a < sint b \<longleftrightarrow> sint (dw_high a) < sint (dw_high b) \<or> dw_high a = dw_high b \<and> dw_low a < dw_low b"
    unfolding sint_dw join_less_iff by (metis signed_word_eqI)
  have u: "int (unat a) = int (unat (dw_high a)) * 2 ^ 32 + int (unat (dw_low a))" for a
    using unat_dw(3) [of "dw_high a" "dw_low a"] by simp
  have "a < b \<longleftrightarrow> int (unat a) < int (unat b)" by (simp only: word_less_nat_alt of_nat_less_iff)
  then show "a < b \<longleftrightarrow> dw_high a < dw_high b \<or> dw_high a = dw_high b \<and> dw_low a < dw_low b"
    unfolding u join_less_iff of_nat_less_iff of_nat_eq_iff by (simp only: word_less_nat_alt word_unat_eq_iff)
qed

lemma eq_dw: "a = b \<longleftrightarrow> dw_high a = dw_high b \<and> dw_low a = dw_low b"
  by (metis dw_cover(1))

text \<open>
  The three-way comparisons. They return 0, 1 or 2 as the first argument is less than, equal to
  or greater than the second, as signed and as unsigned 64-bit numbers.
\<close>

theorem comparisons_di2:
  "cmpdi2 a b = (if sint a < sint b then 0 else if sint a = sint b then 1 else 2) \<and>
   ucmpdi2 a b = (if a < b then 0 else if a = b then 1 else 2)"
proof -
  have s: "sint a = sint b \<longleftrightarrow> sint (dw_high a) = sint (dw_high b) \<and> dw_low a = dw_low b"
    and h: "dw_high a = dw_high b \<longleftrightarrow> sint (dw_high a) = sint (dw_high b)"
    using eq_dw signed_word_eqI by metis+
  have "cmpdi2 a b = (if sint a < sint b then 0 else if sint a = sint b then 1 else 2)"
    unfolding cmpdi2_def s less_dw h by auto
  then show ?thesis by (auto simp: ucmpdi2_def less_dw(2) eq_dw [of a b])
qed

end
