(* ===== verification/Crt_Arith.thy ===== *)
theory Crt_Arith
  imports Crt_Words "HOL-Library.Signed_Division"
begin

text \<open>
  The run-time arithmetic the compiler calls, second part: the operations that trap on overflow
  (\<open>-ftrapv\<close>: absolute value, negation, addition, subtraction and multiplication, for 32 and for 64
  bits) and the 64-bit product from 32-bit ones. The two widths of a trapping operation have the same
  text but for the type; each is written out. Signed overflow wraps around here, as the tests after
  the operation assume; \<open>compilerrt_abort\<close> is the fault \<open>Aborted\<close>.
\<close>

section \<open>The code\<close>

text \<open>
  The sign of a word as a mask (\<open>a >> (N - 1)\<close>), the idiom \<open>(a ^ s) - s\<close> and the signed quotient of the
  source's \<open>/\<close>.
\<close>

definition sign_mask :: "'a::len word \<Rightarrow> 'a word" where
  "sign_mask a = signed_drop_bit (LENGTH('a) - 1) a"

definition negate_if :: "'a::len word \<Rightarrow> 'a word \<Rightarrow> 'a word" where
  "negate_if s a = (a XOR s) - s"

definition c_sdiv :: "'a::len word \<Rightarrow> 'a word \<Rightarrow> 'a word c_result" where
  "c_sdiv a b = (if b = 0 then Inl DivByZero else Inr (word_of_int (sint a sdiv sint b)))"

definition absvsi2 :: "u32 \<Rightarrow> u32 c_result" where
  "absvsi2 a = (if a = push_bit 31 1 then Inl Aborted else Inr (negate_if (sign_mask a) a))"

definition absvdi2 :: "u64 \<Rightarrow> u64 c_result" where
  "absvdi2 a = (if a = push_bit 63 1 then Inl Aborted else Inr (negate_if (sign_mask a) a))"

definition negvsi2 :: "u32 \<Rightarrow> u32 c_result" where
  "negvsi2 a = (if a = push_bit 31 1 then Inl Aborted else Inr (- a))"

definition negvdi2 :: "u64 \<Rightarrow> u64 c_result" where
  "negvdi2 a = (if a = push_bit 63 1 then Inl Aborted else Inr (- a))"

definition addvsi3 :: "u32 \<Rightarrow> u32 \<Rightarrow> u32 c_result" where
  "addvsi3 a b =
     (let s = a + b
      in if sint b \<ge> 0 then if sint s < sint a then Inl Aborted else Inr s
         else if sint s \<ge> sint a then Inl Aborted else Inr s)"

definition addvdi3 :: "u64 \<Rightarrow> u64 \<Rightarrow> u64 c_result" where
  "addvdi3 a b =
     (let s = a + b
      in if sint b \<ge> 0 then if sint s < sint a then Inl Aborted else Inr s
         else if sint s \<ge> sint a then Inl Aborted else Inr s)"

definition subvsi3 :: "u32 \<Rightarrow> u32 \<Rightarrow> u32 c_result" where
  "subvsi3 a b =
     (let s = a - b
      in if sint b \<ge> 0 then if sint s > sint a then Inl Aborted else Inr s
         else if sint s \<le> sint a then Inl Aborted else Inr s)"

definition subvdi3 :: "u64 \<Rightarrow> u64 \<Rightarrow> u64 c_result" where
  "subvdi3 a b =
     (let s = a - b
      in if sint b \<ge> 0 then if sint s > sint a then Inl Aborted else Inr s
         else if sint s \<le> sint a then Inl Aborted else Inr s)"

definition mulvsi3 :: "u32 \<Rightarrow> u32 \<Rightarrow> u32 c_result" where
  "mulvsi3 a b =
     (let lo = push_bit 31 1; hi = NOT lo
      in if a = lo then if b = 0 \<or> b = 1 then Inr (a * b) else Inl Aborted
         else if b = lo then if a = 0 \<or> a = 1 then Inr (a * b) else Inl Aborted
         else
           let sa = sign_mask a; abs_a = negate_if sa a; sb = sign_mask b; abs_b = negate_if sb b
           in if sint abs_a < 2 \<or> sint abs_b < 2 then Inr (a * b)
              else if sa = sb
              then bnd (c_sdiv hi abs_b) (\<lambda>m. if sint abs_a > sint m then Inl Aborted else Inr (a * b))
              else bnd (c_sdiv lo (- abs_b)) (\<lambda>m. if sint abs_a > sint m then Inl Aborted else Inr (a * b)))"

definition mulvdi3 :: "u64 \<Rightarrow> u64 \<Rightarrow> u64 c_result" where
  "mulvdi3 a b =
     (let lo = push_bit 63 1; hi = NOT lo
      in if a = lo then if b = 0 \<or> b = 1 then Inr (a * b) else Inl Aborted
         else if b = lo then if a = 0 \<or> a = 1 then Inr (a * b) else Inl Aborted
         else
           let sa = sign_mask a; abs_a = negate_if sa a; sb = sign_mask b; abs_b = negate_if sb b
           in if sint abs_a < 2 \<or> sint abs_b < 2 then Inr (a * b)
              else if sa = sb
              then bnd (c_sdiv hi abs_b) (\<lambda>m. if sint abs_a > sint m then Inl Aborted else Inr (a * b))
              else bnd (c_sdiv lo (- abs_b)) (\<lambda>m. if sint abs_a > sint m then Inl Aborted else Inr (a * b)))"

text \<open>The product of two 32-bit words from four products of their halves, and the 64-bit product.\<close>

definition muldsi3 :: "u32 \<Rightarrow> u32 \<Rightarrow> u64" where
  "muldsi3 a b =
     (let lower_mask = drop_bit 16 (- 1);
          low = (a AND lower_mask) * (b AND lower_mask);
          t = drop_bit 16 low;
          low = low AND lower_mask;
          t = t + drop_bit 16 a * (b AND lower_mask);
          low = low + push_bit 16 (t AND lower_mask);
          high = drop_bit 16 t;
          t = drop_bit 16 low;
          low = low AND lower_mask;
          t = t + drop_bit 16 b * (a AND lower_mask);
          low = low + push_bit 16 (t AND lower_mask);
          high = high + drop_bit 16 t;
          high = high + drop_bit 16 a * drop_bit 16 b
      in dw_all high low)"

definition muldi3 :: "u64 \<Rightarrow> u64 \<Rightarrow> u64" where
  "muldi3 a b =
     (let r = muldsi3 (dw_low a) (dw_low b)
      in dw_all (dw_high r + (dw_high a * dw_low b + dw_low a * dw_high b)) (dw_low r))"

section \<open>Signs\<close>

text \<open>Half of the range of a word, and the values a signed word can have.\<close>

definition half :: "'a::len itself \<Rightarrow> int" where
  "half _ = 2 ^ (LENGTH('a) - 1)"

lemma half_pos [simp]: "0 < half T"
  by (simp add: half_def)

definition fits :: "'a::len itself \<Rightarrow> int \<Rightarrow> bool" where
  "fits T k \<longleftrightarrow> - half T \<le> k \<and> k < half T"

lemma fits_sint [simp]: "fits TYPE('a) (sint w)" for w :: "'a::len word"
  using sint_ge [of w] sint_lt [of w] by (simp add: fits_def half_def)

lemma full_half: "(2 :: int) ^ LENGTH('a::len) = 2 * half TYPE('a)"
  unfolding half_def by (cases "LENGTH('a)") simp_all

lemma sint_word_of_int: "sint (word_of_int k :: 'a::len word) = (k + half TYPE('a)) mod (2 * half TYPE('a)) - half TYPE('a)"
  unfolding full_half [symmetric] unfolding half_def by (simp add: signed_of_int signed_take_bit_eq_take_bit_shift take_bit_eq_mod)

lemma sint_fits: "fits TYPE('a) k \<Longrightarrow> sint (word_of_int k :: 'a::len word) = k"
  by (simp add: sint_word_of_int fits_def)

lemma sint_above: "half TYPE('a) \<le> k \<Longrightarrow> k < 3 * half TYPE('a) \<Longrightarrow> sint (word_of_int k :: 'a::len word) = k - 2 * half TYPE('a)"
proof -
  assume k: "half TYPE('a) \<le> k" "k < 3 * half TYPE('a)"
  have "(k + half TYPE('a)) mod (2 * half TYPE('a)) = (k - half TYPE('a) + 2 * half TYPE('a)) mod (2 * half TYPE('a))"
    by (simp add: algebra_simps)
  also have "\<dots> = k - half TYPE('a)" unfolding mod_add_self2 using k by (intro mod_pos_pos_trivial) simp_all
  finally show ?thesis by (simp add: sint_word_of_int)
qed

lemma sint_below: "- 3 * half TYPE('a) \<le> k \<Longrightarrow> k < - half TYPE('a) \<Longrightarrow> sint (word_of_int k :: 'a::len word) = k + 2 * half TYPE('a)"
proof -
  assume k: "- 3 * half TYPE('a) \<le> k" "k < - half TYPE('a)"
  have "(k + half TYPE('a)) mod (2 * half TYPE('a)) = (k + half TYPE('a) + 2 * half TYPE('a)) mod (2 * half TYPE('a))"
    by (simp only: mod_add_self2)
  also have "\<dots> = k + 3 * half TYPE('a)" using k by (subst mod_pos_pos_trivial) simp_all
  finally show ?thesis by (simp add: sint_word_of_int)
qed

lemma sint_neg_iff: "bit a (LENGTH('a) - 1) \<longleftrightarrow> sint a < 0" for a :: "'a::len word"
proof -
  have "int (unat a) < 2 ^ LENGTH('a)" using unsigned_less [of a, where ?'a = int] by simp
  moreover have "0 \<le> int (unat a)" by (rule of_nat_0_le_iff)
  ultimately show ?thesis using sint_unat [of a] by (cases "bit a (LENGTH('a) - 1)") (simp_all add: of_bool_def)
qed

lemma sign_mask_eq: "sign_mask a = (if sint a < 0 then - 1 else 0)" for a :: "'a::len word"
proof -
  have "bit (sign_mask a) n \<longleftrightarrow> n < LENGTH('a) \<and> bit a (LENGTH('a) - 1)" for n
  proof -
    have "min (LENGTH('a) - 1 + n) (LENGTH('a) - 1) = LENGTH('a) - 1" by simp
    then show ?thesis by (simp only: sign_mask_def bit_sar)
  qed
  then show ?thesis unfolding sint_neg_iff [symmetric] by (intro bit_word_eqI) (simp split: if_splits)
qed

lemma negate_if_simps [simp]: "negate_if 0 a = a" "negate_if (- 1) a = - a" for a :: "'a::len word"
  using not_eq_complement [of a] by (simp_all add: negate_if_def)

lemma of_int_sint_ariths:
  "a + b = word_of_int (sint a + sint b)" "a - b = word_of_int (sint a - sint b)"
  "a * b = word_of_int (sint a * sint b)" "- a = word_of_int (- sint a)" for a b :: "'a::len word"
  unfolding of_int_add of_int_diff of_int_mult of_int_minus by (simp_all only: of_int_sint scast_id)

lemma push_top: "a = push_bit (LENGTH('a) - 1) 1 \<longleftrightarrow> sint a = - half TYPE('a)" for a :: "'a::len word"
proof -
  have "push_bit (LENGTH('a) - 1) 1 = (word_of_int (half TYPE('a)) :: 'a word)" by (simp add: push_bit_eq_mult half_def)
  moreover have "sint (word_of_int (half TYPE('a)) :: 'a word) = - half TYPE('a)" using half_pos [of "TYPE('a)"] by (subst sint_above) simp_all
  ultimately show ?thesis by (metis signed_word_eqI)
qed


lemma sint_uminus: "sint a \<noteq> - half TYPE('a) \<Longrightarrow> sint (- a) = - sint a" for a :: "'a::len word"
  unfolding of_int_sint_ariths using fits_sint [of a] by (intro sint_fits) (simp add: fits_def)

section \<open>Operations that trap on overflow\<close>

text \<open>
  The contract of a trapping operation: it returns a word exactly when the exact result fits its width,
  and then the word whose value is that result; otherwise it aborts.
\<close>

definition exact :: "int \<Rightarrow> 'a::len word c_result \<Rightarrow> bool" where
  "exact k r = (if fits TYPE('a) k then \<exists>w. r = Inr w \<and> sint w = k else r = Inl Aborted)"

lemma exact_abs:
  "exact \<bar>sint a\<bar> (if a = push_bit (LENGTH('a) - 1) 1 then Inl Aborted else Inr (negate_if (sign_mask a) a))" for a :: "'a::len word"
  unfolding push_top using fits_sint [of a] by (auto simp: exact_def sign_mask_eq sint_uminus fits_def)

lemma exact_neg: "exact (- sint a) (if a = push_bit (LENGTH('a) - 1) 1 then Inl Aborted else Inr (- a))" for a :: "'a::len word"
  unfolding push_top using fits_sint [of a] by (auto simp: exact_def sint_uminus fits_def)

lemma exact_add:
  fixes a b :: "'a::len word"
  defines "s \<equiv> a + b"
  shows "exact (sint a + sint b) (if sint b \<ge> 0 then if sint s < sint a then Inl Aborted else Inr s
    else if sint s \<ge> sint a then Inl Aborted else Inr s)"
proof -
  have f: "fits TYPE('a) (sint a)" "fits TYPE('a) (sint b)" by simp_all
  have s: "s = word_of_int (sint a + sint b)" unfolding s_def by (rule of_int_sint_ariths)
  consider "fits TYPE('a) (sint a + sint b)" | "half TYPE('a) \<le> sint a + sint b" | "sint a + sint b < - half TYPE('a)"
    unfolding fits_def by linarith
  then show ?thesis
  proof cases
    case 1
    then show ?thesis using f sint_fits [OF 1] by (simp add: exact_def s)
  next
    case 2
    then have "sint s = sint a + sint b - 2 * half TYPE('a)" using f unfolding s by (intro sint_above) (simp_all add: fits_def)
    then show ?thesis using f 2 by (auto simp: exact_def fits_def)
  next
    case 3
    then have "sint s = sint a + sint b + 2 * half TYPE('a)" using f unfolding s by (intro sint_below) (simp_all add: fits_def)
    then show ?thesis using f 3 by (auto simp: exact_def fits_def)
  qed
qed

lemma exact_sub:
  fixes a b :: "'a::len word"
  defines "s \<equiv> a - b"
  shows "exact (sint a - sint b) (if sint b \<ge> 0 then if sint s > sint a then Inl Aborted else Inr s
    else if sint s \<le> sint a then Inl Aborted else Inr s)"
proof -
  have f: "fits TYPE('a) (sint a)" "fits TYPE('a) (sint b)" by simp_all
  have s: "s = word_of_int (sint a - sint b)" unfolding s_def by (rule of_int_sint_ariths)
  consider "fits TYPE('a) (sint a - sint b)" | "half TYPE('a) \<le> sint a - sint b" | "sint a - sint b < - half TYPE('a)"
    unfolding fits_def by linarith
  then show ?thesis
  proof cases
    case 1
    then show ?thesis using f sint_fits [OF 1] by (simp add: exact_def s)
  next
    case 2
    then have "sint s = sint a - sint b - 2 * half TYPE('a)" using f unfolding s by (intro sint_above) (simp_all add: fits_def)
    then show ?thesis using f 2 by (auto simp: exact_def fits_def)
  next
    case 3
    then have "sint s = sint a - sint b + 2 * half TYPE('a)" using f unfolding s by (intro sint_below) (simp_all add: fits_def)
    then show ?thesis using f 3 by (auto simp: exact_def fits_def)
  qed
qed


lemma sint_not: "sint (NOT w) = - sint w - 1" for w :: "'a::len word"
proof -
  have "NOT w = word_of_int (- sint w - 1)" by (simp add: not_eq_complement)
  moreover have "fits TYPE('a) (- sint w - 1)" using fits_sint [of w] by (auto simp: fits_def)
  ultimately show ?thesis by (simp only: sint_fits)
qed

lemma mul_le_iff: "0 < b \<Longrightarrow> a * b \<le> c \<longleftrightarrow> a \<le> c div b" for a b c :: int
proof
  assume b: "0 < b" and "a * b \<le> c"
  then show "a \<le> c div b" using zdiv_mono1 [of "a * b" c b] by simp
next
  assume b: "0 < b" and "a \<le> c div b"
  then have "a * b \<le> c div b * b" by (intro mult_right_mono) simp_all
  also have "\<dots> \<le> c" using b by (simp add: minus_mod_eq_div_mult [symmetric])
  finally show "a * b \<le> c" .
qed

lemma sdiv_nonneg: "0 \<le> a \<Longrightarrow> 0 < b \<Longrightarrow> a sdiv b = a div b" "0 \<le> a \<Longrightarrow> 0 < b \<Longrightarrow> (- a) sdiv (- b) = a div b" for a b :: int
  by (simp_all add: signed_divide_int_def sgn_if)

lemma div_le_self: "0 \<le> a \<Longrightarrow> 0 < b \<Longrightarrow> 0 \<le> a div b \<and> a div b \<le> a" for a b :: int
  using zdiv_mono2 [of a 1 b] by (simp add: pos_imp_zdiv_nonneg_iff)

lemma small_product: "0 \<le> a \<Longrightarrow> 0 \<le> b \<Longrightarrow> a < c \<Longrightarrow> b < c \<Longrightarrow> a < 2 \<or> b < 2 \<Longrightarrow> a * b < c" for a b c :: int
proof -
  assume ab: "0 \<le> a" "0 \<le> b" "a < c" "b < c" "a < 2 \<or> b < 2"
  then have "a = 0 \<or> a = 1 \<or> b = 0 \<or> b = 1" by auto
  then show ?thesis using ab by auto
qed

lemma exact_mul_large:
  fixes a b :: "'a::len word"
  defines "abs_a \<equiv> negate_if (sign_mask a) a" and "abs_b \<equiv> negate_if (sign_mask b) b" and "lo \<equiv> push_bit (LENGTH('a) - 1) 1"
  assumes "sint a \<noteq> - half TYPE('a)" "sint b \<noteq> - half TYPE('a)"
  shows "exact (sint a * sint b)
    (if sint abs_a < 2 \<or> sint abs_b < 2 then Inr (a * b)
     else if sign_mask a = sign_mask b
     then bnd (c_sdiv (NOT lo) abs_b) (\<lambda>m. if sint abs_a > sint m then Inl Aborted else Inr (a * b))
     else bnd (c_sdiv lo (- abs_b)) (\<lambda>m. if sint abs_a > sint m then Inl Aborted else Inr (a * b)))"
proof -
  let ?H = "half TYPE('a)"
  define A where "A = \<bar>sint a\<bar>"
  define B where "B = \<bar>sint b\<bar>"
  have abs: "sint abs_a = A" "sint abs_b = B" "sint (- abs_b) = - B"
    using assms(4,5) sint_uminus [of a] sint_uminus [of b] by (simp_all add: abs_a_def abs_b_def A_def B_def sign_mask_eq sint_uminus)
  have AB: "0 \<le> A" "A < ?H" "0 \<le> B" "B < ?H"
    using fits_sint [of a] fits_sint [of b] assms(4,5) by (auto simp: A_def B_def fits_def)
  have lo: "sint lo = - ?H" "sint (NOT lo) = ?H - 1" using push_top [of lo] by (simp_all add: lo_def sint_not)
  have prod: "sint (a * b) = sint a * sint b" if "fits TYPE('a) (sint a * sint b)"
    using sint_fits [OF that] by (simp only: of_int_sint_ariths(3))
  show ?thesis
  proof (cases "A < 2 \<or> B < 2")
    case True
    then have "A * B < ?H" using small_product [of A B] AB by simp
    then have "fits TYPE('a) (sint a * sint b)" by (simp add: fits_def A_def B_def flip: abs_mult) linarith
    then show ?thesis using True prod by (simp add: abs exact_def)
  next
    case False
    then have nz: "abs_b \<noteq> 0" "- abs_b \<noteq> 0" using abs by auto
    show ?thesis
    proof (cases "sign_mask a = sign_mask b")
      case same: True
      then have "sint a * sint b = A * B" by (auto simp: sign_mask_eq A_def B_def split: if_splits)
      moreover have "A * B \<le> ?H - 1 \<longleftrightarrow> A \<le> (?H - 1) div B" using False by (intro mul_le_iff) simp
      moreover have "fits TYPE('a) ((?H - 1) div B)" using False AB div_le_self [of "?H - 1" B] by (simp add: fits_def)
      moreover have "(?H - 1) sdiv B = (?H - 1) div B" using False AB by (intro sdiv_nonneg) simp_all
      moreover have "fits TYPE('a) (A * B) \<longleftrightarrow> A * B \<le> ?H - 1"
        using AB mult_nonneg_nonneg [of A B] half_pos [of "TYPE('a)"] unfolding fits_def by linarith
      ultimately show ?thesis using False same nz prod abs lo by (simp add: exact_def c_sdiv_def sint_fits)
    next
      case diff: False
      then have "sint a * sint b = - (A * B)" by (auto simp: sign_mask_eq A_def B_def split: if_splits)
      moreover have "A * B \<le> ?H \<longleftrightarrow> A \<le> ?H div B" using False by (intro mul_le_iff) simp
      moreover have "fits TYPE('a) (?H div B)" using False AB int_div_less_self [of ?H B] div_le_self [of ?H B] unfolding fits_def by linarith
      moreover have "(- ?H) sdiv (- B) = ?H div B" using False AB by (intro sdiv_nonneg) simp_all
      moreover have "fits TYPE('a) (- (A * B)) \<longleftrightarrow> A * B \<le> ?H"
        using AB mult_nonneg_nonneg [of A B] half_pos [of "TYPE('a)"] unfolding fits_def by linarith
      ultimately show ?thesis using False diff nz prod abs lo by (simp add: exact_def c_sdiv_def sint_fits)
    qed
  qed
qed


lemma exact_mul_min: "sint a = - half TYPE('a) \<Longrightarrow> 2 < LENGTH('a) \<Longrightarrow>
    exact (sint a * sint b) (if b = 0 \<or> b = 1 then Inr (a * b) else Inl Aborted)" for a b :: "'a::len word"
proof -
  assume a: "sint a = - half TYPE('a)" and len: "2 < LENGTH('a)"
  have one: "sint (1 :: 'a word) = 1" using len by simp
  have "sint b = 0 \<Longrightarrow> b = 0" "sint b = 1 \<Longrightarrow> b = 1" using one by (metis signed_0 signed_word_eqI)+
  then consider "b = 0" | "b = 1" | "2 \<le> sint b" | "sint b \<le> - 1" by linarith
  then show ?thesis
  proof cases
    case 3
    then have "half TYPE('a) * 2 \<le> half TYPE('a) * sint b" by (intro mult_left_mono) (simp_all add: less_imp_le)
    then have "\<not> fits TYPE('a) (sint a * sint b)" using half_pos [of "TYPE('a)"] unfolding fits_def a by linarith
    then show ?thesis using 3 one by (auto simp: exact_def)
  next
    case 4
    then have "half TYPE('a) * 1 \<le> half TYPE('a) * (- sint b)" by (intro mult_left_mono) (simp_all add: less_imp_le)
    then have "\<not> fits TYPE('a) (sint a * sint b)" using half_pos [of "TYPE('a)"] unfolding fits_def a by linarith
    then show ?thesis using 4 one by (auto simp: exact_def)
  qed (use fits_sint [of a] one in \<open>simp_all add: exact_def fits_def\<close>)
qed

lemma exact_mul:
  fixes a b :: "'a::len word"
  defines "abs_a \<equiv> negate_if (sign_mask a) a" and "abs_b \<equiv> negate_if (sign_mask b) b" and "lo \<equiv> push_bit (LENGTH('a) - 1) 1"
  assumes "2 < LENGTH('a)"
  shows "exact (sint a * sint b)
    (if a = lo then if b = 0 \<or> b = 1 then Inr (a * b) else Inl Aborted
     else if b = lo then if a = 0 \<or> a = 1 then Inr (a * b) else Inl Aborted
     else if sint abs_a < 2 \<or> sint abs_b < 2 then Inr (a * b)
     else if sign_mask a = sign_mask b
     then bnd (c_sdiv (NOT lo) abs_b) (\<lambda>m. if sint abs_a > sint m then Inl Aborted else Inr (a * b))
     else bnd (c_sdiv lo (- abs_b)) (\<lambda>m. if sint abs_a > sint m then Inl Aborted else Inr (a * b)))"
proof -
  consider "a = lo" | "a \<noteq> lo" "b = lo" | "a \<noteq> lo" "b \<noteq> lo" by blast
  then show ?thesis
  proof cases
    case 1
    then have "sint a = - half TYPE('a)" unfolding lo_def push_top .
    from exact_mul_min [OF this assms(4), of b] 1 show ?thesis by (simp only: refl if_True)
  next
    case 2
    then have "sint b = - half TYPE('a)" unfolding lo_def push_top by blast
    from exact_mul_min [OF this assms(4), of a] 2 show ?thesis by (simp only: refl if_True if_False mult.commute [of lo a] mult.commute [of "sint lo" "sint a"])
  next
    case 3
    then have "sint a \<noteq> - half TYPE('a)" "sint b \<noteq> - half TYPE('a)" unfolding lo_def push_top by blast+
    from exact_mul_large [OF this, folded abs_a_def abs_b_def lo_def] 3 show ?thesis by (simp only: if_False)
  qed
qed

text \<open>
  C16: The operations that trap on overflow, for 32 and for 64 bits: each returns exactly when the exact
  result is a value of the width, and then that result; on every other pair of arguments it aborts. The
  multiplication decides this with one division, before it multiplies, and neither the division nor
  its own negations overflow.
\<close>

theorem trapping_arithmetic:
  "exact \<bar>sint a\<bar> (absvsi2 a) \<and> exact (- sint a) (negvsi2 a) \<and> exact (sint a + sint b) (addvsi3 a b) \<and>
   exact (sint a - sint b) (subvsi3 a b) \<and> exact (sint a * sint b) (mulvsi3 a b) \<and>
   exact \<bar>sint c\<bar> (absvdi2 c) \<and> exact (- sint c) (negvdi2 c) \<and> exact (sint c + sint d) (addvdi3 c d) \<and>
   exact (sint c - sint d) (subvdi3 c d) \<and> exact (sint c * sint d) (mulvdi3 c d)"
proof -
  have len: "LENGTH(32) - 1 = 31" "LENGTH(64) - 1 = 63" "2 < LENGTH(32)" "2 < LENGTH(64)" by simp_all
  show ?thesis
    unfolding absvsi2_def negvsi2_def addvsi3_def subvsi3_def mulvsi3_def absvdi2_def negvdi2_def addvdi3_def subvdi3_def mulvdi3_def
      Let_def len(1,2) [symmetric]
    by (intro conjI exact_abs exact_neg exact_add exact_sub exact_mul len)
qed


section \<open>Products\<close>

lemma unat_times_less: "unat v * unat w < 2 ^ LENGTH('a) \<Longrightarrow> unat (v * w) = unat v * unat w" for v w :: "'a::len word"
  by (simp add: unat_word_ariths)

lemma halves16: "unat (w AND 0xFFFF) = unat w mod 65536" "unat (drop_bit 16 w) = unat w div 65536" for w :: u32
  using unat_and_mask [of w 16] unat_drop [of 16 w] by (simp_all add: mask_eq_exp_minus_1)

lemma prod16: "a \<le> 65535 \<Longrightarrow> b \<le> 65535 \<Longrightarrow> a * b \<le> 4294836225" for a b :: nat
  using mult_le_mono [of a 65535 b 65535] by simp

lemma join16: "unat ((v AND 0xFFFF) + push_bit 16 (w AND 0xFFFF)) = unat v mod 65536 + 65536 * (unat w mod 65536)" for v w :: u32
proof -
  have "unat w mod 65536 < 65536" "unat v mod 65536 < 65536" by simp_all
  moreover have "unat (push_bit 16 (w AND 0xFFFF)) = 65536 * (unat w mod 65536)"
    using calculation unfolding push_bit_eq_mult by (subst unat_times_less) (simp_all add: halves16)
  ultimately show ?thesis by (subst unat_plus_less) (simp_all add: halves16)
qed

lemma mul_halves:
  fixes p q r s K :: nat
  assumes "t = p div K + q" "u = t mod K + r"
  shows "(t div K + u div K + s) * (K * K) + (p mod K + K * (u mod K)) = s * (K * K) + (q + r) * K + p"
proof -
  have "(t div K + u div K + s) * (K * K) + (p mod K + K * (u mod K)) =
      s * (K * K) + K * (t div K * K + (u div K * K + u mod K)) + p mod K"
    by (simp only: algebra_simps)
  also have "\<dots> = s * (K * K) + K * (t div K * K + t mod K + r) + p mod K" by (simp add: assms(2))
  also have "\<dots> = s * (K * K) + K * (q + r) + (p div K * K + p mod K)" by (simp add: assms(1) algebra_simps)
  finally show ?thesis by (simp add: mult.commute)
qed

lemma muldsi3_eq: "unat (muldsi3 a b) = unat a * unat b"
proof -
  define al ah bl bh where "al = unat a mod 65536" and "ah = unat a div 65536" and "bl = unat b mod 65536" and "bh = unat b div 65536"
  note d = al_def ah_def bl_def bh_def
  have le: "al \<le> 65535" "bl \<le> 65535" "ah \<le> 65535" "bh \<le> 65535"
    using unat_u32_less [of a] unat_u32_less [of b] by (auto simp: d less_Suc_eq_le [symmetric] less_mult_imp_div_less)
  have ab: "unat a = ah * 65536 + al" "unat b = bh * 65536 + bl" by (simp_all add: d)
  note ps = prod16 [OF le(1,2)] prod16 [OF le(3,2)] prod16 [OF le(4,1)] prod16 [OF le(3,4)]
  have lm: "drop_bit 16 (- 1) = (0xFFFF :: u32)" by (simp add: drop_bit_minus_one mask_eq_exp_minus_1)
  define w where "w = (a AND 0xFFFF) * (b AND 0xFFFF)"
  have w: "unat w = al * bl" unfolding w_def using ps by (subst unat_times_less) (simp_all add: halves16 d)
  define t where "t = drop_bit 16 w + drop_bit 16 a * (b AND 0xFFFF)"
  have "unat (drop_bit 16 a * (b AND 0xFFFF)) = ah * bl" using ps by (subst unat_times_less) (simp_all add: halves16 d)
  then have t: "unat t = al * bl div 65536 + ah * bl" unfolding t_def using ps by (subst unat_plus_less) (simp_all add: halves16 w)
  define l where "l = (w AND 0xFFFF) + push_bit 16 (t AND 0xFFFF)"
  have l: "unat l = al * bl mod 65536 + 65536 * (unat t mod 65536)" unfolding l_def join16 w ..
  define u where "u = drop_bit 16 l + drop_bit 16 b * (a AND 0xFFFF)"
  have "unat (drop_bit 16 b * (a AND 0xFFFF)) = bh * al" using ps by (subst unat_times_less) (simp_all add: halves16 d)
  moreover have "unat t mod 65536 \<le> 65535" by (simp add: less_Suc_eq_le [symmetric])
  ultimately have u: "unat u = unat t mod 65536 + bh * al" unfolding u_def using ps by (subst unat_plus_less) (simp_all add: halves16 l)
  have low: "unat ((l AND 0xFFFF) + push_bit 16 (u AND 0xFFFF)) = al * bl mod 65536 + 65536 * (unat u mod 65536)"
    unfolding join16 l by simp
  have total: "(unat t div 65536 + unat u div 65536 + ah * bh) * 2 ^ 32 + (al * bl mod 65536 + 65536 * (unat u mod 65536)) = unat a * unat b"
  proof -
    have "unat a * unat b = ah * bh * (65536 * 65536) + (ah * bl + bh * al) * 65536 + al * bl" unfolding ab by (simp add: algebra_simps)
    then show ?thesis using mul_halves [OF t u, of "ah * bh"] by simp
  qed
  have "unat a * unat b < 2 ^ 64"
    using mult_strict_mono [of "unat a" 4294967296 "unat b" 4294967296] unat_u32_less [of a] unat_u32_less [of b] by simp
  with total have small: "unat t div 65536 + unat u div 65536 + ah * bh < 2 ^ 32" by simp
  have "unat (drop_bit 16 a * drop_bit 16 b) = ah * bh" using ps by (subst unat_times_less) (simp_all add: halves16 d)
  moreover have "unat (drop_bit 16 t + drop_bit 16 u) = unat t div 65536 + unat u div 65536"
    using small by (subst unat_plus_less) (simp_all add: halves16)
  ultimately have "unat (drop_bit 16 t + drop_bit 16 u + drop_bit 16 a * drop_bit 16 b) = unat t div 65536 + unat u div 65536 + ah * bh"
    using small by (subst unat_plus_less) simp_all
  then show ?thesis using total low
    by (simp only: muldsi3_def Let_def lm w_def [symmetric] t_def [symmetric] l_def [symmetric] u_def [symmetric] unat_dw)
qed

text \<open>
  The 64-bit product. The routine that multiplies the halves of two 32-bit words of 16 bits returns
  all 64 bits of their product, with no carry lost on the way, and the 64-bit multiplication built on
  it returns the product modulo two to the 64.
\<close>

theorem products_di3: "unat (muldsi3 x y) = unat x * unat y \<and> muldi3 a b = a * b"
proof -
  let ?B = "4294967296 :: nat"
  define r where "r = muldsi3 (dw_low a) (dw_low b)"
  define X where "X = unat (dw_high r) + (unat (dw_high a) * unat (dw_low b) + unat (dw_low a) * unat (dw_high b))"
  have dw: "unat w = unat (dw_high w) * ?B + unat (dw_low w)" for w using unat_dw(3) [of "dw_high w" "dw_low w"] by simp
  have "unat (muldi3 a b) = X mod ?B * ?B + unat (dw_low r)"
    by (simp add: muldi3_def r_def [symmetric] Let_def unat_dw(3) unat_word_ariths X_def mod_simps)
  also have "\<dots> = (X * ?B + unat (dw_low r)) mod (?B * ?B)"
    using unat_u32_less [of "dw_low r"] unfolding mod_mult2_eq by (simp add: mult.commute)
  also have "\<dots> = (X * ?B + unat (dw_low r) + unat (dw_high a) * unat (dw_high b) * (?B * ?B)) mod (?B * ?B)"
    by (rule mod_mult_self1 [symmetric])
  also have "X * ?B + unat (dw_low r) + unat (dw_high a) * unat (dw_high b) * (?B * ?B) = unat a * unat b"
  proof -
    have "unat (dw_low a) * unat (dw_low b) = unat (dw_high r) * ?B + unat (dw_low r)"
      using dw [of r] by (simp only: r_def muldsi3_eq)
    then show ?thesis unfolding dw [of a] dw [of b] X_def by (simp add: algebra_simps)
  qed
  finally have "unat (muldi3 a b) = unat (a * b)" by (simp add: unat_word_ariths)
  then show ?thesis by (simp add: muldsi3_eq word_unat_eq_iff)
qed

end
