(* ===== verification/Crt_Divide.thy ===== *)
theory Crt_Divide
  imports Crt_Arith
begin

text \<open>
  The run-time arithmetic the compiler calls, third part: division. The shift-and-subtract loop of
  \<open>udivsi3\<close> and \<open>udivmoddi4\<close> with the cases the latter treats apart, and the quotients and remainders,
  signed and unsigned, of 32 and 64 bits built on them. \<open>__builtin_clz\<close> and \<open>__builtin_ctz\<close> are
  arguments whose documented counts are the assumptions of the locale \<open>zero_count\<close>. A 32-bit shift by
  32 or more yields whatever the argument \<open>wild\<close> says: \<open>udivmoddi4\<close> masks such results away.
\<close>

section \<open>The code\<close>

text \<open>The compiler's intrinsics, and the shifter outside its range (\<open>True\<close> for left).\<close>

record target =
  builtin_clz :: "u32 \<Rightarrow> u32"
  builtin_ctz :: "u32 \<Rightarrow> u32"
  wild :: "bool \<Rightarrow> u32 \<Rightarrow> u32 \<Rightarrow> u32"

definition shl :: "target \<Rightarrow> u32 \<Rightarrow> u32 \<Rightarrow> u32" where
  "shl T w k = (if k < 32 then push_bit (unat k) w else wild T True w k)"

definition shr :: "target \<Rightarrow> u32 \<Rightarrow> u32 \<Rightarrow> u32" where
  "shr T w k = (if k < 32 then drop_bit (unat k) w else wild T False w k)"

text \<open>One round of the loop of \<open>udivsi3\<close>, on remainder, quotient and carry, and the loop.\<close>

definition div_round :: "'a::len word \<Rightarrow> 'a word \<times> 'a word \<times> 'a word \<Rightarrow> 'a word \<times> 'a word \<times> 'a word" where
  "div_round d st = (case st of (r, q, carry) \<Rightarrow>
     let r = push_bit 1 r OR drop_bit (LENGTH('a) - 1) q;
         q = push_bit 1 q OR carry;
         s = sign_mask (d - r - 1);
         carry = s AND 1
     in (r - (d AND s), q, carry))"

primrec div_loop :: "nat \<Rightarrow> 'a::len word \<Rightarrow> 'a word \<times> 'a word \<times> 'a word \<Rightarrow> 'a word \<times> 'a word \<times> 'a word" where
  "div_loop 0 d st = st"
| "div_loop (Suc sr) d st = div_loop sr d (div_round d st)"

definition udivsi3 :: "target \<Rightarrow> u32 \<Rightarrow> u32 \<Rightarrow> u32" where
  "udivsi3 T n d =
     (if d = 0 then 0
      else if n = 0 then 0
      else
        let sr = builtin_clz T d - builtin_clz T n
        in if sr > 31 then 0
           else if sr = 31 then n
           else
             let sr = sr + 1; q = shl T n (32 - sr); r = shr T n sr
             in case div_loop (unat sr) d (r, q, 0) of (r, q, carry) \<Rightarrow> push_bit 1 q OR carry)"

definition umodsi3 :: "target \<Rightarrow> u32 \<Rightarrow> u32 \<Rightarrow> u32" where
  "umodsi3 T a b = a - udivsi3 T a b * b"

definition divsi3 :: "target \<Rightarrow> u32 \<Rightarrow> u32 \<Rightarrow> u32" where
  "divsi3 T a b =
     (let s_a = sign_mask a; s_b = sign_mask b; a = negate_if s_a a; b = negate_if s_b b; s_a = s_a XOR s_b
      in negate_if s_a (udivsi3 T a b))"

definition modsi3 :: "target \<Rightarrow> u32 \<Rightarrow> u32 \<Rightarrow> u32" where
  "modsi3 T a b = a - divsi3 T a b * b"

text \<open>The 32-bit quotient and remainder of the C language.\<close>

definition c_udiv :: "u32 \<Rightarrow> u32 \<Rightarrow> u32 c_result" where
  "c_udiv a b = (if b = 0 then Inl DivByZero else Inr (a div b))"

definition c_umod :: "u32 \<Rightarrow> u32 \<Rightarrow> u32 c_result" where
  "c_umod a b = (if b = 0 then Inl DivByZero else Inr (a mod b))"

text \<open>
  What the case analysis of \<open>udivmoddi4\<close> comes to: a quotient with its remainder, or the values of \<open>sr\<close>,
  \<open>q\<close> and \<open>r\<close> with which the loop starts.
\<close>

datatype div_case =
    Answer u64 u64
  | Start u32 u64 u64

text \<open>The numerator fits one word (\<open>n.s.high == 0\<close>).\<close>

definition div_small :: "u64 \<Rightarrow> u64 \<Rightarrow> div_case c_result" where
  "div_small n d =
     (if dw_high d = 0
      then bnd (c_umod (dw_low n) (dw_low d)) (\<lambda>r. bnd (c_udiv (dw_low n) (dw_low d)) (\<lambda>q. Inr (Answer (ucast q) (ucast r))))
      else Inr (Answer 0 (ucast (dw_low n))))"

text \<open>The low word of the divisor is zero (\<open>d.s.low == 0\<close>).\<close>

definition div_by_high :: "target \<Rightarrow> u64 \<Rightarrow> u64 \<Rightarrow> div_case c_result" where
  "div_by_high T n d =
     (if dw_high d = 0
      then bnd (c_umod (dw_high n) (dw_low d)) (\<lambda>r. bnd (c_udiv (dw_high n) (dw_low d)) (\<lambda>q. Inr (Answer (ucast q) (ucast r))))
      else if dw_low n = 0
      then bnd (c_umod (dw_high n) (dw_high d)) (\<lambda>r. bnd (c_udiv (dw_high n) (dw_high d)) (\<lambda>q. Inr (Answer (ucast q) (dw_all r 0))))
      else if dw_high d AND (dw_high d - 1) = 0
      then Inr (Answer (ucast (shr T (dw_high n) (builtin_ctz T (dw_high d)))) (dw_all (dw_high n AND (dw_high d - 1)) (dw_low n)))
      else
        let sr = builtin_clz T (dw_high d) - builtin_clz T (dw_high n)
        in if sr > 32 - 2 then Inr (Answer 0 n)
           else
             let sr = sr + 1
             in Inr (Start sr (dw_all (shl T (dw_low n) (32 - sr)) 0)
                  (dw_all (shr T (dw_high n) sr) (shl T (dw_high n) (32 - sr) OR shr T (dw_low n) sr))))"

text \<open>The divisor fits one word (\<open>d.s.high == 0\<close>, \<open>d.s.low != 0\<close>).\<close>

definition div_by_low :: "target \<Rightarrow> u64 \<Rightarrow> u64 \<Rightarrow> div_case" where
  "div_by_low T n d =
     (if dw_low d AND (dw_low d - 1) = 0
      then
        let rem = ucast (dw_low n AND (dw_low d - 1))
        in if dw_low d = 1 then Answer n rem
           else
             let sr = builtin_ctz T (dw_low d)
             in Answer (dw_all (shr T (dw_high n) sr) (shl T (dw_high n) (32 - sr) OR shr T (dw_low n) sr)) rem
      else
        let sr = 1 + 32 + builtin_clz T (dw_low d) - builtin_clz T (dw_high n);
            q_low = shl T (dw_low n) (64 - sr) AND sign_mask (32 - sr);
            q_high = (shl T (dw_low n) (32 - sr) AND sign_mask (sr - 32 - 1)) OR
              ((shl T (dw_high n) (64 - sr) OR shr T (dw_low n) (sr - 32)) AND sign_mask (32 - sr));
            r_high = shr T (dw_high n) sr AND sign_mask (sr - 32);
            r_low = (shr T (dw_high n) (sr - 32) AND sign_mask (32 - sr - 1)) OR
              ((shl T (dw_high n) (32 - sr) OR shr T (dw_low n) sr) AND sign_mask (sr - 32))
        in Start sr (dw_all q_high q_low) (dw_all r_high r_low))"

text \<open>Both words of the divisor are other than zero.\<close>

definition div_by_both :: "target \<Rightarrow> u64 \<Rightarrow> u64 \<Rightarrow> div_case" where
  "div_by_both T n d =
     (let sr = builtin_clz T (dw_high d) - builtin_clz T (dw_high n)
      in if sr > 32 - 1 then Answer 0 n
         else
           let sr = sr + 1
           in Start sr (dw_all (shl T (dw_low n) (32 - sr)) 0)
                (dw_all (shr T (dw_high n) sr AND sign_mask (sr - 32))
                   (shl T (dw_high n) (32 - sr) OR (shr T (dw_low n) sr AND sign_mask (sr - 32)))))"

text \<open>One round of the loop of \<open>udivmoddi4\<close>, which shifts the two double words half by half, and the loop.\<close>

definition div_round_di :: "u64 \<Rightarrow> u64 \<times> u64 \<times> u32 \<Rightarrow> u64 \<times> u64 \<times> u32" where
  "div_round_di d st = (case st of (r, q, carry) \<Rightarrow>
     let r_high = push_bit 1 (dw_high r) OR drop_bit 31 (dw_low r);
         r_low = push_bit 1 (dw_low r) OR drop_bit 31 (dw_high q);
         q_high = push_bit 1 (dw_high q) OR drop_bit 31 (dw_low q);
         q_low = push_bit 1 (dw_low q) OR carry;
         r = dw_all r_high r_low;
         s = sign_mask (d - r - 1)
     in (r - (d AND s), dw_all q_high q_low, ucast (s AND 1)))"

primrec div_loop_di :: "nat \<Rightarrow> u64 \<Rightarrow> u64 \<times> u64 \<times> u32 \<Rightarrow> u64 \<times> u64 \<times> u32" where
  "div_loop_di 0 d st = st"
| "div_loop_di (Suc sr) d st = div_loop_di sr d (div_round_di d st)"

text \<open>
  The whole routine. \<open>rem\<close> is \<open>None\<close> for the null pointer and the cell it points to otherwise; the result is
  the quotient with the cell as the routine leaves it.
\<close>

definition udivmoddi4 :: "target \<Rightarrow> u64 \<Rightarrow> u64 \<Rightarrow> u64 option \<Rightarrow> (u64 \<times> u64 option) c_result" where
  "udivmoddi4 T a b rem =
     bnd (if dw_high a = 0 then div_small a b
          else if dw_low b = 0 then div_by_high T a b
          else if dw_high b = 0 then Inr (div_by_low T a b)
          else Inr (div_by_both T a b))
       (\<lambda>c. case c of
          Answer q r \<Rightarrow> Inr (q, map_option (\<lambda>_. r) rem)
        | Start sr q r \<Rightarrow>
            (case div_loop_di (unat sr) b (r, q, 0) of (r, q, carry) \<Rightarrow>
               Inr (push_bit 1 q OR ucast carry, map_option (\<lambda>_. r) rem)))"

definition udivdi3 :: "target \<Rightarrow> u64 \<Rightarrow> u64 \<Rightarrow> u64 c_result" where
  "udivdi3 T a b = bnd (udivmoddi4 T a b None) (\<lambda>(q, _). Inr q)"

text \<open>The remainders pass the address of a local variable, whose content \<open>r\<close> is indeterminate at first.\<close>

definition umoddi3 :: "target \<Rightarrow> u64 \<Rightarrow> u64 \<Rightarrow> u64 \<Rightarrow> u64 c_result" where
  "umoddi3 T r a b = bnd (udivmoddi4 T a b (Some r)) (\<lambda>(_, rem). Inr (the rem))"

definition divdi3 :: "target \<Rightarrow> u64 \<Rightarrow> u64 \<Rightarrow> u64 c_result" where
  "divdi3 T a b =
     (let s_a = sign_mask a; s_b = sign_mask b; a = negate_if s_a a; b = negate_if s_b b; s_a = s_a XOR s_b
      in bnd (udivmoddi4 T a b None) (\<lambda>(q, _). Inr (negate_if s_a q)))"

definition moddi3 :: "target \<Rightarrow> u64 \<Rightarrow> u64 \<Rightarrow> u64 \<Rightarrow> u64 c_result" where
  "moddi3 T r a b =
     (let s = sign_mask b; b = negate_if s b; s = sign_mask a; a = negate_if s a
      in bnd (udivmoddi4 T a b (Some r)) (\<lambda>(_, rem). Inr (negate_if s (the rem))))"

section \<open>The loop\<close>

text \<open>
  The state with \<open>j\<close> rounds left: the top \<open>j\<close> bits of \<open>q\<close> are the bits of the numerator still to come, the
  rest the quotient so far, the carry its last bit, and \<open>r\<close> the remainder of the bits consumed.
\<close>

definition div_inv :: "nat \<Rightarrow> nat \<Rightarrow> nat \<Rightarrow> 'a::len word \<times> 'a word \<times> 'a word \<Rightarrow> bool" where
  "div_inv n d j st \<longleftrightarrow> (case st of (r, q, c) \<Rightarrow>
     \<exists>z. unat q = n mod 2 ^ j * 2 ^ (LENGTH('a) - j) + z \<and> n div 2 ^ j = (2 * z + unat c) * d + unat r \<and>
       unat r < d \<and> (c = 0 \<or> c = 1))"

lemma round_arith:
  fixes n d z c r :: nat
  assumes "0 < j" "n div 2 ^ j = (2 * z + c) * d + r"
  defines "b \<equiv> n div 2 ^ (j - 1) mod 2"
  shows "n div 2 ^ (j - 1) = 2 * (2 * z + c) * d + (2 * r + b)"
proof -
  have "n div 2 ^ j = n div 2 ^ (j - 1) div 2" using assms(1) div_mult2_eq [of n "2 ^ (j - 1)" 2] by (cases j) (simp_all add: mult.commute)
  then have "n div 2 ^ (j - 1) = 2 * (n div 2 ^ j) + b" unfolding b_def by simp
  then show ?thesis unfolding assms(2) by (simp add: algebra_simps)
qed

lemma shift_in: "unat (push_bit 1 w OR v) = 2 * unat w mod 2 ^ LENGTH('a) + unat v" if "v = 0 \<or> v = 1" for w v :: "'a::len word"
proof -
  have "push_bit 1 w AND v = 0" 
  proof (rule bit_word_eqI)
    fix n
    have "\<not> bit (push_bit 1 w) 0" unfolding bit_push_bit_iff by simp
    moreover have "\<not> bit v n" if "0 < n" using that \<open>v = 0 \<or> v = 1\<close> by (auto simp: bit_1_iff)
    ultimately show "bit (push_bit 1 w AND v) n = bit 0 n" unfolding bit_and_iff by (cases n) auto
  qed
  then have "push_bit 1 w OR v = push_bit 1 w + v" by (rule disjunctive_add_eq_or [symmetric])
  moreover have m: "unat (push_bit 1 w) = 2 * unat w mod 2 ^ LENGTH('a)" by (simp add: push_bit_eq_mult unat_word_ariths mult.commute mod_simps)
  moreover have "2 * unat w mod 2 ^ LENGTH('a) + unat v < 2 ^ LENGTH('a)"
  proof -
    have "even (2 * unat w mod 2 ^ LENGTH('a))" "even (2 ^ LENGTH('a) :: nat)" by (simp_all add: dvd_mod_iff)
    moreover have "2 * unat w mod 2 ^ LENGTH('a) < 2 ^ LENGTH('a)" by simp
    moreover have "unat v \<le> 1" using that by auto
    moreover have "even x \<Longrightarrow> even m \<Longrightarrow> x < m \<Longrightarrow> k \<le> 1 \<Longrightarrow> x + k < m" for x m k :: nat by presburger
    ultimately show ?thesis by blast
  qed
  ultimately show ?thesis by (simp only: unat_plus_less)
qed

text \<open>The bit of the numerator that leaves \<open>q\<close> at the top, and what stays.\<close>

lemma top_bit:
  fixes n z :: nat
  assumes "0 < j" "j \<le> N" "z < 2 ^ (N - j)" "q = n mod 2 ^ j * 2 ^ (N - j) + z"
  shows "q div 2 ^ (N - 1) = n div 2 ^ (j - 1) mod 2"
    and "2 * q mod 2 ^ N = n mod 2 ^ (j - 1) * 2 ^ (N - (j - 1)) + 2 * z"
proof -
  let ?b = "n div 2 ^ (j - 1) mod 2" and ?m = "n mod 2 ^ (j - 1)"
  have p: "(2 :: nat) ^ (N - 1) = 2 ^ (N - j) * 2 ^ (j - 1)" "(2 :: nat) ^ N = 2 * 2 ^ (N - 1)" "(2 :: nat) ^ (N - (j - 1)) = 2 * 2 ^ (N - j)"
    "(2 :: nat) ^ j = 2 ^ (j - 1) * 2"
    using assms(1,2) by (simp_all flip: power_add power_Suc power_Suc2)
  have "n mod 2 ^ j = 2 ^ (j - 1) * ?b + ?m" unfolding p(4) by (rule mod_mult2_eq)
  then have q: "q = ?b * 2 ^ (N - 1) + (?m * 2 ^ (N - j) + z)" unfolding assms(4) p(1) by (simp add: algebra_simps)
  have "(?m + 1) * 2 ^ (N - j) \<le> 2 ^ (j - 1) * 2 ^ (N - j)" by (intro mult_le_mono1) (simp add: Suc_leI)
  then have small: "?m * 2 ^ (N - j) + z < 2 ^ (N - 1)" using assms(3) unfolding p(1) by (simp add: algebra_simps)
  show "q div 2 ^ (N - 1) = ?b" unfolding q using small by simp
  have "2 * q = 2 * (?m * 2 ^ (N - j) + z) + ?b * 2 ^ N" unfolding q p(2) by (simp add: algebra_simps)
  then have "2 * q mod 2 ^ N = 2 * (?m * 2 ^ (N - j) + z)" using small by (simp add: p(2))
  then show "2 * q mod 2 ^ N = ?m * 2 ^ (N - (j - 1)) + 2 * z" unfolding p(3) by (simp add: algebra_simps)
qed

lemma sign_of_difference:
  fixes d r :: "'a::len word"
  assumes "- half TYPE('a) \<le> int (unat d) - int (unat r) - 1" "int (unat d) - int (unat r) - 1 < half TYPE('a)"
  shows "sign_mask (d - r - 1) = (if unat d \<le> unat r then - 1 else 0)"
proof -
  have "d - r - 1 = word_of_int (int (unat d) - int (unat r) - 1)" by simp
  moreover have "fits TYPE('a) (int (unat d) - int (unat r) - 1)" using assms by (simp only: fits_def)
  ultimately have "sint (d - r - 1) = int (unat d) - int (unat r) - 1" by (simp only: sint_fits)
  moreover have "int (unat d) - int (unat r) - 1 < 0 \<longleftrightarrow> unat d \<le> unat r" by linarith
  ultimately show ?thesis by (simp only: sign_mask_eq)
qed


lemma div_round_inv:
  fixes w :: "'a::len word"
  assumes inv: "div_inv n (unat w) j st" and j: "0 < j" "j \<le> LENGTH('a)" and n: "n < 2 ^ LENGTH('a)"
    and wide: "unat w \<le> 2 ^ (LENGTH('a) - 1) \<or> j = 1 \<and> 2 ^ (LENGTH('a) - 1) \<le> n"
  shows "div_inv n (unat w) (j - 1) (div_round w st)"
proof -
  let ?N = "LENGTH('a)" and ?b = "n div 2 ^ (j - 1) mod 2"
  obtain r q c where st: "st = (r, q, c)" by (cases st)
  with inv obtain z where q: "unat q = n mod 2 ^ j * 2 ^ (?N - j) + z" and e: "n div 2 ^ j = (2 * z + unat c) * unat w + unat r"
    and r: "unat r < unat w" and c: "c = 0 \<or> c = 1" by (auto simp: div_inv_def)
  have p: "(2 :: nat) ^ ?N = 2 ^ (?N - j) * 2 ^ j" using j by (simp flip: power_add)
  have "z \<le> (2 * z + unat c) * unat w" using r by (cases "unat w") simp_all
  also have "\<dots> \<le> n div 2 ^ j" by (simp add: e)
  also have "\<dots> < 2 ^ (?N - j)" using n unfolding p by (simp add: less_mult_imp_div_less)
  finally have z: "z < 2 ^ (?N - j)" .
  note top = top_bit [OF j z q]
  define R where "R = 2 * unat r + ?b"
  have next_n: "n div 2 ^ (j - 1) = 2 * (2 * z + unat c) * unat w + R" unfolding R_def using round_arith [OF j(1) e] by simp
  have N: "(2 :: nat) ^ ?N = 2 * 2 ^ (?N - 1)" by (cases "?N") simp_all
  have R: "R < 2 * unat w" "R < 2 ^ ?N" "unat w \<le> R + 2 ^ (?N - 1)" "R < unat w + 2 ^ (?N - 1)"
  proof -
    show R1: "R < 2 * unat w" using r unfolding R_def by linarith
    have "R < 2 ^ ?N \<and> unat w \<le> R + 2 ^ (?N - 1) \<and> R < unat w + 2 ^ (?N - 1)"
    proof (cases "unat w \<le> 2 ^ (?N - 1)")
      case True
      then show ?thesis using R1 N by linarith
    next
      case False
      then have "j = 1" "2 ^ (?N - 1) \<le> n" using wide by auto
      moreover have "R \<le> n" using next_n \<open>j = 1\<close> by simp
      moreover have "R = n"
      proof -
        have "2 * z + unat c = 0"
        proof (rule ccontr)
          assume "2 * z + unat c \<noteq> 0"
          then have "unat w \<le> n div 2 ^ j" using e by (cases "2 * z + unat c") simp_all
          then show False using False n N \<open>j = 1\<close> by simp
        qed
        then show ?thesis using next_n \<open>j = 1\<close> by simp
      qed
      ultimately show ?thesis using n N False unsigned_less [of w, where ?'a = nat] by linarith
    qed
    then show "R < 2 ^ ?N" "unat w \<le> R + 2 ^ (?N - 1)" "R < unat w + 2 ^ (?N - 1)" by blast+
  qed
  define r1 where "r1 = push_bit 1 r OR drop_bit (?N - 1) q"
  have "unat (drop_bit (?N - 1) q) = ?b" unfolding unat_drop top(1) ..
  moreover have "drop_bit (?N - 1) q = 0 \<or> drop_bit (?N - 1) q = 1" using calculation by (auto simp: word_unat_eq_iff)
  moreover have "2 * unat r < 2 ^ ?N" using R(2) by (simp add: R_def)
  ultimately have r1: "unat r1 = R" unfolding r1_def by (subst shift_in) (simp_all add: R_def)
  have "sign_mask (w - r1 - 1) = (if unat w \<le> R then - 1 else 0)"
    unfolding r1 [symmetric]
  proof (rule sign_of_difference)
    have H: "half TYPE('a) = int (2 ^ (?N - 1))" by (simp add: half_def)
    show "- half TYPE('a) \<le> int (unat w) - int (unat r1) - 1" "int (unat w) - int (unat r1) - 1 < half TYPE('a)"
      unfolding r1 H using R by linarith+
  qed
  then have round: "div_round w st = (if unat w \<le> R then r1 - w else r1, push_bit 1 q OR c, of_bool (unat w \<le> R))"
    by (simp only: div_round_def st prod.case r1_def [symmetric] Let_def) simp
  have "unat (push_bit 1 q OR c) = n mod 2 ^ (j - 1) * 2 ^ (?N - (j - 1)) + (2 * z + unat c)"
    using shift_in [OF c, of q] top(2) by simp
  moreover have "unat (r1 - w) = R - unat w" if "unat w \<le> R" using that r1 by (simp add: unat_sub word_le_nat_alt)
  ultimately show ?thesis using next_n R(1) r1 unfolding round div_inv_def
    by (auto intro!: exI [of _ "2 * z + unat c"] simp: algebra_simps)
qed

lemma div_loop_inv:
  fixes w :: "'a::len word"
  shows "div_inv n (unat w) j st \<Longrightarrow> j \<le> LENGTH('a) \<Longrightarrow> n < 2 ^ LENGTH('a) \<Longrightarrow>
    unat w \<le> 2 ^ (LENGTH('a) - 1) \<or> j \<le> 1 \<and> 2 ^ (LENGTH('a) - 1) \<le> n \<Longrightarrow> div_inv n (unat w) 0 (div_loop j w st)"
proof (induction j arbitrary: st)
  case (Suc j)
  then have "div_inv n (unat w) j (div_round w st)" using div_round_inv [of n w "Suc j" st] by auto
  moreover have "unat w \<le> 2 ^ (LENGTH('a) - 1) \<or> j \<le> 1 \<and> 2 ^ (LENGTH('a) - 1) \<le> n" using Suc.prems(4) by auto
  ultimately show ?case using Suc.IH [of "div_round w st"] Suc.prems by simp
qed simp

text \<open>The loop started on \<open>n << (N - sr)\<close> and \<open>n >> sr\<close> leaves the quotient and the remainder.\<close>

lemma div_loop_result:
  fixes w q r :: "'a::len word"
  assumes "unat q = n mod 2 ^ sr * 2 ^ (LENGTH('a) - sr)" "unat r = n div 2 ^ sr" "n div 2 ^ sr < unat w" "sr \<le> LENGTH('a)"
    "n < 2 ^ LENGTH('a)" "unat w \<le> 2 ^ (LENGTH('a) - 1) \<or> sr \<le> 1 \<and> 2 ^ (LENGTH('a) - 1) \<le> n"
  shows "\<exists>r' q' c'. div_loop sr w (r, q, 0) = (r', q', c') \<and> (c' = 0 \<or> c' = 1) \<and>
    unat r' = n mod unat w \<and> unat (push_bit 1 q' OR c') = n div unat w"
proof -
  obtain r' q' c' where e: "div_loop sr w (r, q, 0) = (r', q', c')" by (cases "div_loop sr w (r, q, 0)")
  have "div_inv n (unat w) sr (r, q, 0)" using assms(1-3) by (auto simp: div_inv_def)
  then have "div_inv n (unat w) 0 (r', q', c')" using assms(4-6) div_loop_inv [of n w sr "(r, q, 0)"] by (simp add: e)
  then obtain z where z: "unat q' = z" "n = (2 * z + unat c') * unat w + unat r'" "unat r' < unat w" "c' = 0 \<or> c' = 1"
    by (auto simp: div_inv_def)
  have quot: "n div unat w = 2 * z + unat c'" "n mod unat w = unat r'" using z(3) by (simp_all add: z(2))
  have "2 * z + unat c' \<le> n" unfolding quot(1) [symmetric] by (rule div_le_dividend)
  then have "unat (push_bit 1 q' OR c') = n div unat w" using shift_in [OF z(4), of q'] assms(5) by (simp add: z(1) quot(1))
  then show ?thesis using e z(4) quot(2) by auto
qed


section \<open>The intrinsics\<close>

text \<open>What the compiler documents of its intrinsics: the counts, for arguments other than zero.\<close>

locale zero_count =
  fixes T :: target
  assumes clz: "x \<noteq> 0 \<Longrightarrow> unat (builtin_clz T x) = leading_zeros x"
    and ctz: "x \<noteq> 0 \<Longrightarrow> unat (builtin_ctz T x) = trailing_zeros x"
begin

text \<open>The number of bits of a number other than zero, from the count of leading zeros.\<close>

lemma clz_floorlog: "x \<noteq> 0 \<Longrightarrow> unat (builtin_clz T x) + floorlog 2 (unat x) = 32"
proof -
  assume "x \<noteq> 0"
  moreover have "floorlog 2 (unat x) \<le> 32" using unat_u32_less [of x] by (intro floorlog_leI) simp_all
  ultimately show ?thesis using clz [of x] by (simp add: leading_zeros_def)
qed

lemma clz_diff:
  assumes "d \<noteq> 0" "n \<noteq> 0"
  shows "floorlog 2 (unat d) \<le> floorlog 2 (unat n) \<Longrightarrow>
      unat (builtin_clz T d - builtin_clz T n) = floorlog 2 (unat n) - floorlog 2 (unat d)"
    and "floorlog 2 (unat n) < floorlog 2 (unat d) \<Longrightarrow> 31 < builtin_clz T d - builtin_clz T n"
proof -
  show "unat (builtin_clz T d - builtin_clz T n) = floorlog 2 (unat n) - floorlog 2 (unat d)" if "floorlog 2 (unat d) \<le> floorlog 2 (unat n)"
    using that clz_floorlog [OF assms(1)] clz_floorlog [OF assms(2)] by (subst unat_sub) (simp_all add: word_le_nat_alt)
  show "31 < builtin_clz T d - builtin_clz T n" if less: "floorlog 2 (unat n) < floorlog 2 (unat d)"
  proof -
    have lt: "unat (builtin_clz T d) < unat (builtin_clz T n)" "unat (builtin_clz T n) \<le> 32"
      using less clz_floorlog [OF assms(1)] clz_floorlog [OF assms(2)] by simp_all
    have "unat (builtin_clz T d - builtin_clz T n) = 2 ^ 32 + unat (builtin_clz T d) - unat (builtin_clz T n)"
      using lt by (subst unat_sub_if_size) (simp add: word_size)
    then show ?thesis using lt by (simp add: word_less_nat_alt)
  qed
qed

end

lemma loop_start:
  fixes n d :: nat
  assumes "0 < n" "0 < d" "n < 2 ^ N" "d < 2 ^ N" "floorlog 2 d \<le> floorlog 2 n" "sr = floorlog 2 n - floorlog 2 d + 1"
  shows "n div 2 ^ sr < d" "d \<le> 2 ^ (N - 1) \<or> sr \<le> 1 \<and> 2 ^ (N - 1) \<le> n" "sr \<le> N"
proof -
  have fn: "2 ^ (floorlog 2 n - 1) \<le> n" "n < 2 ^ floorlog 2 n" and fd: "2 ^ (floorlog 2 d - 1) \<le> d" "d < 2 ^ floorlog 2 d"
    and pos: "0 < floorlog 2 n" "0 < floorlog 2 d"
    using floorlog_bounds_nat assms(1,2) by blast+
  have fN: "floorlog 2 n \<le> N" using assms(3) by (intro floorlog_leI) simp_all
  then show "sr \<le> N" using pos assms(5,6) by linarith
  have "floorlog 2 n = (floorlog 2 d - 1) + sr" using pos assms(5,6) by simp
  then have "n < 2 ^ (floorlog 2 d - 1) * 2 ^ sr" using fn(2) by (simp flip: power_add)
  then have "n div 2 ^ sr < 2 ^ (floorlog 2 d - 1)" by (simp add: less_mult_imp_div_less)
  then show "n div 2 ^ sr < d" using fd(1) by simp
  show "d \<le> 2 ^ (N - 1) \<or> sr \<le> 1 \<and> 2 ^ (N - 1) \<le> n"
  proof (cases "floorlog 2 d \<le> N - 1")
    case True
    then have "(2 :: nat) ^ floorlog 2 d \<le> 2 ^ (N - 1)" by simp
    then show ?thesis using fd(2) by linarith
  next
    case False
    then have "floorlog 2 n = N" "floorlog 2 d = N" using fN assms(5) by simp_all
    then show ?thesis using fn(1) assms(6) by simp
  qed
qed

lemma unat_shifted: "k \<le> LENGTH('a) \<Longrightarrow> unat (push_bit (LENGTH('a) - k) w) = unat w mod 2 ^ k * 2 ^ (LENGTH('a) - k)" for w :: "'a::len word"
proof -
  assume k: "k \<le> LENGTH('a)"
  have "unat (push_bit (LENGTH('a) - k) w) = unat w * 2 ^ (LENGTH('a) - k) mod 2 ^ LENGTH('a)"
    unfolding unsigned_push_bit_eq by (simp only: take_bit_eq_mod push_bit_eq_mult)
  also have "(2 :: nat) ^ LENGTH('a) = 2 ^ k * 2 ^ (LENGTH('a) - k)" using k by (simp flip: power_add)
  finally show ?thesis by (simp add: mult_mod_left)
qed

lemma shl_in: "unat k < 32 \<Longrightarrow> shl T w k = push_bit (unat k) w"
  by (simp add: shl_def word_less_nat_alt)

lemma shr_in: "unat k < 32 \<Longrightarrow> shr T w k = drop_bit (unat k) w"
  by (simp add: shr_def word_less_nat_alt)

lemma floorlog_less: "floorlog 2 n < floorlog 2 d \<Longrightarrow> n < d" for n d :: nat
  by (meson floorlog_mono not_less)

context zero_count
begin

lemma udivsi3_eq: "d \<noteq> 0 \<Longrightarrow> unat (udivsi3 T n d) = unat n div unat d"
proof (cases "n = 0")
  case False
  assume d: "d \<noteq> 0"
  then have pos: "0 < unat n" "0 < unat d" using False by (simp_all add: unat_gt_0)
  have bounds: "unat n < 2 ^ 32" "unat d < 2 ^ 32" using unat_u32_less by simp_all
  define sr where "sr = builtin_clz T d - builtin_clz T n"
  show ?thesis
  proof (cases "floorlog 2 (unat d) \<le> floorlog 2 (unat n)")
    case less: False
    then have "31 < sr" using clz_diff(2) [OF d False] by (simp add: sr_def)
    moreover have "unat n < unat d" using less by (metis floorlog_less not_le)
    ultimately show ?thesis using d False by (simp only: udivsi3_def sr_def [symmetric] Let_def if_True if_False div_less unsigned_0)
  next
    case le: True
    have sr: "unat sr = floorlog 2 (unat n) - floorlog 2 (unat d)" unfolding sr_def by (rule clz_diff(1) [OF d False le])
    have fl: "floorlog 2 (unat n) \<le> 32" "0 < floorlog 2 (unat d)"
      using bounds pos floorlog_bounds_nat by (auto intro: floorlog_leI)
    then have "unat sr \<le> 31" using sr by linarith
    show ?thesis
    proof (cases "unat sr = 31")
      case True
      then have "floorlog 2 (unat d) = 1" using sr fl by linarith
      then have "unat d = 1" using floorlog_bounds_nat [OF pos(2)] by simp
      moreover have "sr = 31" using True by (simp add: word_unat_eq_iff)
      ultimately show ?thesis using d False by (simp only: udivsi3_def sr_def [symmetric] Let_def if_True if_False) simp
    next
      case nt: False
      then have k: "unat (sr + 1) = unat sr + 1" "unat (sr + 1) \<le> 31" using \<open>unat sr \<le> 31\<close> by (simp_all add: unat_Suc_u32)
      then have k': "unat (32 - (sr + 1)) = 32 - unat (sr + 1)" by (subst unat_sub) (simp_all add: word_le_nat_alt)
      have "unat (shl T n (32 - (sr + 1))) = unat n mod 2 ^ unat (sr + 1) * 2 ^ (32 - unat (sr + 1))"
        using k k' unat_shifted [of "unat (sr + 1)" n] by (subst shl_in) simp_all
      moreover have "unat (shr T n (sr + 1)) = unat n div 2 ^ unat (sr + 1)" using k by (subst shr_in) (simp_all add: unat_drop)
      moreover note loop_start [OF pos bounds le, of "unat (sr + 1)"]
      ultimately obtain r' q' c' where "div_loop (unat (sr + 1)) d (shr T n (sr + 1), shl T n (32 - (sr + 1)), 0) = (r', q', c')"
        "unat (push_bit 1 q' OR c') = unat n div unat d"
        using div_loop_result [of "shl T n (32 - (sr + 1))" "unat n" "unat (sr + 1)" "shr T n (sr + 1)" d] bounds k sr by auto
      moreover have "\<not> 31 < sr" "sr \<noteq> 31" using \<open>unat sr \<le> 31\<close> nt by (auto simp: word_less_nat_alt)
      ultimately show ?thesis using d False by (simp only: udivsi3_def sr_def [symmetric] Let_def if_False prod.case)
    qed
  qed
qed (simp add: udivsi3_def)

end

text \<open>The loop on halves is the loop on whole words.\<close>

lemma dw_shl1: "dw_all (push_bit 1 h OR drop_bit 31 l) (push_bit 1 l OR c) = push_bit 1 (dw_all h l) OR ucast c" if "c = 0 \<or> c = 1"
proof (rule bit_word_eqI)
  fix n assume "n < LENGTH(64)"
  have c: "bit c m \<longleftrightarrow> m = 0 \<and> c = 1" for m using that by (auto simp: bit_1_iff)
  consider "n = 0" | "0 < n" "n < 32" | "n = 32" | "32 < n" by linarith
  then show "bit (dw_all (push_bit 1 h OR drop_bit 31 l) (push_bit 1 l OR c)) n = bit (push_bit 1 (dw_all h l) OR ucast c) n"
    unfolding bit_dw bit_or_iff bit_push_bit_iff bit_drop_bit_eq bit_ucast_iff c
    by cases (auto dest: bit_imp_le_length)
qed

lemma div_round_di_eq: "c = 0 \<or> c = 1 \<Longrightarrow> div_round_di d (r, q, c) = (case div_round d (r, q, ucast c) of (r, q, c) \<Rightarrow> (r, q, ucast c))"
proof -
  assume c: "c = 0 \<or> c = 1"
  have "drop_bit 31 (dw_high q) = 0 \<or> drop_bit 31 (dw_high q) = 1"
    using unat_drop [of 31 "dw_high q"] unat_u32_less [of "dw_high q"] by (auto simp: word_unat_eq_iff)
  moreover have "ucast (drop_bit 31 (dw_high q)) = drop_bit 63 q" by (rule bit_word_eqI) (auto simp: bit_simps dest: bit_imp_le_length)
  ultimately have r: "dw_all (push_bit 1 (dw_high r) OR drop_bit 31 (dw_low r)) (push_bit 1 (dw_low r) OR drop_bit 31 (dw_high q)) =
      push_bit 1 r OR drop_bit 63 q" using dw_shl1 [of "drop_bit 31 (dw_high q)" "dw_high r" "dw_low r"] by (simp only: dw_cover)
  have q: "dw_all (push_bit 1 (dw_high q) OR drop_bit 31 (dw_low q)) (push_bit 1 (dw_low q) OR c) = push_bit 1 q OR ucast c"
    using dw_shl1 [OF c, of "dw_high q" "dw_low q"] by (simp only: dw_cover)
  have len: "LENGTH(64) - 1 = 63" by simp
  show ?thesis by (simp only: div_round_di_def div_round_def prod.case Let_def r q len)
qed

lemma div_loop_di_eq:
  "c = 0 \<or> c = 1 \<Longrightarrow> div_loop_di sr d (r, q, c) = (case div_loop sr d (r, q, ucast c) of (r, q, c) \<Rightarrow> (r, q, ucast c))"
proof (induction sr arbitrary: r q c)
  case (Suc sr)
  obtain r' q' c' where e: "div_round d (r, q, ucast c) = (r', q', c')" by (cases "div_round d (r, q, ucast c)")
  then have c': "c' = 0 \<or> c' = 1" by (auto simp: div_round_def Let_def sign_mask_eq split: if_splits)
  then have u: "ucast (ucast c' :: u32) = c'" "(ucast c' :: u32) = 0 \<or> (ucast c' :: u32) = 1" by auto
  show ?case using Suc.IH [OF u(2), of r' q'] Suc.prems e u(1) by (simp add: div_round_di_eq)
qed auto

section \<open>The cases of the 64-bit division\<close>

text \<open>What every case comes to: the quotient and the remainder, or a state the loop can start from.\<close>

definition case_ok :: "nat \<Rightarrow> nat \<Rightarrow> div_case \<Rightarrow> bool" where
  "case_ok n d c = (case c of
     Answer q r \<Rightarrow> unat q = n div d \<and> unat r = n mod d
   | Start sr q r \<Rightarrow> floorlog 2 d \<le> floorlog 2 n \<and> unat sr = floorlog 2 n - floorlog 2 d + 1 \<and>
       unat q = n mod 2 ^ unat sr * 2 ^ (64 - unat sr) \<and> unat r = n div 2 ^ unat sr)"

lemma power_of_two: "x AND (x - 1) = 0 \<Longrightarrow> x \<noteq> 0 \<Longrightarrow> unat x = 2 ^ trailing_zeros x" for x :: "'a::len word"
proof -
  assume a: "x AND (x - 1) = 0" and nz: "x \<noteq> 0"
  define t where "t = trailing_zeros x"
  have "take_bit t x = 0" unfolding word_eq_0_iff bit_take_bit_iff using trailing_zeros_bit(2) [of _ x] by (auto simp: t_def)
  then have "unat (take_bit t x) = 0" by simp
  then have low: "unat x mod 2 ^ t = 0" unfolding unsigned_take_bit_eq by (simp only: take_bit_eq_mod)
  have "bit (unat x) t" using trailing_zeros_bit(1) [OF nz] by (simp add: t_def bit_unsigned_iff)
  then have "odd (unat x div 2 ^ t)" unfolding bit_iff_odd .
  then obtain k where k: "unat x div 2 ^ t = 2 * k + 1" by (rule oddE)
  have x: "unat x = 2 ^ t * (2 * k + 1)" using div_mult_mod_eq [of "unat x" "2 ^ t"] low k by (simp add: mult.commute)
  have "unat (x - 1) = unat x - 1" using nz by (simp add: unat_minus_one)
  then have x1: "unat (x - 1) = 2 ^ Suc t * k + (2 ^ t - 1)" unfolding x by (simp add: algebra_simps)
  have "unat (x AND (x - 1)) div 2 ^ Suc t = (unat x div 2 ^ Suc t) AND (unat (x - 1) div 2 ^ Suc t)"
    unfolding unat_and drop_bit_eq_div [symmetric] by (rule drop_bit_and)
  moreover have "unat x div 2 ^ Suc t = k"
  proof -
    have "unat x = 2 ^ t + 2 ^ Suc t * k" unfolding x by (simp add: algebra_simps)
    moreover have "(2 ^ t :: nat) div 2 ^ Suc t = 0" by (rule div_less) simp
    ultimately show ?thesis by (simp del: power_Suc)
  qed
  moreover have "(2 ^ t - 1 :: nat) < 2 ^ Suc t" by (rule less_le_trans [of _ "2 ^ t"]) simp_all
  then have "unat (x - 1) div 2 ^ Suc t = k" unfolding x1 by (subst div_mult_self4) simp_all
  ultimately have "k = 0" using a by simp
  then show ?thesis using x by (simp add: t_def)
qed

lemma and_minus_one: "unat x = 2 ^ k \<Longrightarrow> unat (w AND (x - 1)) = unat w mod 2 ^ k" for x w :: "'a::len word"
proof -
  assume x: "unat x = 2 ^ k"
  then have "x \<noteq> 0" by auto
  then have "unat (x - 1) = mask k" by (simp add: unat_minus_one x mask_eq_exp_minus_1)
  then have "unat (w AND (x - 1)) = unat w AND mask k" by (simp only: unat_and)
  then show ?thesis by (simp add: take_bit_eq_mod flip: take_bit_eq_mask)
qed

lemma unat_widen: "unat (ucast w :: u64) = unat w" for w :: u32
  using unat_u32_less [of w] by (simp add: unsigned_ucast_eq take_bit_nat_eq_self)

lemma floorlog_dw: "dw_high a \<noteq> 0 \<Longrightarrow> floorlog 2 (unat a) = floorlog 2 (unat (dw_high a)) + 32"
proof -
  assume "dw_high a \<noteq> 0"
  then have "2 ^ 32 \<le> unat a" by (simp add: word_unat_eq_iff unat_dw div_greater_zero_iff)
  then show ?thesis using floorlog_shift [of 32 "unat a"] by (simp add: unat_dw)
qed

lemma unat_dw_sum: "unat a = unat (dw_high a) * 2 ^ 32 + unat (dw_low a)"
  using unat_dw(3) [of "dw_high a" "dw_low a"] by simp

lemma div_by_high_word:
  "(h * B + l) div (d * B) = h div d" "(h * B + l) mod (d * B) = h mod d * B + l" if "l < B" for h l d B :: nat
proof -
  show "(h * B + l) div (d * B) = h div d" using that div_mult2_eq [of "h * B + l" B d] by (simp add: mult.commute)
  show "(h * B + l) mod (d * B) = h mod d * B + l" using that mod_mult2_eq [of "h * B + l" B d] by (simp add: mult.commute)
qed

lemma div_small_ok: "dw_high n = 0 \<Longrightarrow> d \<noteq> 0 \<Longrightarrow> \<exists>c. div_small n d = Inr c \<and> case_ok (unat n) (unat d) c"
proof -
  assume n: "dw_high n = 0" and d: "d \<noteq> 0"
  have un: "unat n = unat (dw_low n)" using unat_dw_sum [of n] n by simp
  show ?thesis
  proof (cases "dw_high d = 0")
    case True
    then have "unat d = unat (dw_low d)" "dw_low d \<noteq> 0" using unat_dw_sum [of d] d by (auto simp: word_unat_eq_iff)
    then show ?thesis using True by (simp add: div_small_def c_umod_def c_udiv_def case_ok_def un unat_widen unat_div unat_mod)
  next
    case False
    then have "unat n < unat d" using unat_dw_sum [of d] unat_u32_less [of "dw_low n"] by (cases "unat (dw_high d)") (auto simp: un word_unat_eq_iff)
    then show ?thesis using False by (simp add: div_small_def case_ok_def un unat_widen)
  qed
qed


lemma dw_eq_0_iff: "a = 0 \<longleftrightarrow> dw_high a = 0 \<and> dw_low a = 0"
  using unat_dw_sum [of a] by (auto simp: word_unat_eq_iff dw_low_def dw_high_def)

text \<open>Both words of the state the loop starts from, for an amount of up to one word.\<close>

lemma start_words:
  assumes "0 < unat sr" "unat sr \<le> 31"
  shows "dw_all (shl T (dw_low n) (32 - sr)) 0 = push_bit (64 - unat sr) n"
    and "dw_all (shr T (dw_high n) sr) (shl T (dw_high n) (32 - sr) OR shr T (dw_low n) sr) = drop_bit (unat sr) n"
proof -
  have k: "unat (32 - sr) = 32 - unat sr" using assms by (subst unat_sub) (simp_all add: word_le_nat_alt)
  then have s: "shl T w (32 - sr) = push_bit (32 - unat sr) w" "shr T w sr = drop_bit (unat sr) w" for w
    using assms by (simp_all add: shl_in shr_in)
  show "dw_all (shl T (dw_low n) (32 - sr)) 0 = push_bit (64 - unat sr) n"
    using assms dw_shift(1) [of "32 - unat sr" n] by (simp only: s) simp
  show "dw_all (shr T (dw_high n) sr) (shl T (dw_high n) (32 - sr) OR shr T (dw_low n) sr) = drop_bit (unat sr) n"
    using assms dw_shift(4) [of "unat sr" n] by (simp only: s)
qed

lemma start_ok:
  assumes "floorlog 2 d \<le> floorlog 2 (unat n)" "unat sr = floorlog 2 (unat n) - floorlog 2 d + 1" "unat sr \<le> 63"
    "q = push_bit (64 - unat sr) n" "r = drop_bit (unat sr) n"
  shows "case_ok (unat n) d (Start sr q r)"
  using assms unat_shifted [of "unat sr" n] by (simp add: case_ok_def unat_drop)

text \<open>The masks that select a half of the shifted words.\<close>

lemma sr_masks:
  fixes sr :: u32
  assumes "unat sr \<le> 64"
  shows "sign_mask (32 - sr) = (if 32 < unat sr then - 1 else 0)" "sign_mask (sr - 32) = (if unat sr < 32 then - 1 else 0)"
    "sign_mask (sr - 32 - 1) = (if unat sr \<le> 32 then - 1 else 0)" "sign_mask (32 - sr - 1) = (if 32 \<le> unat sr then - 1 else 0)"
proof -
  have H: "half TYPE(32) = 2147483648" by (simp add: half_def)
  have m: "sign_mask (a - b - 1) = (if unat a \<le> unat b then - 1 else 0)" if "unat a \<le> 65" "unat b \<le> 65" for a b :: u32
    by (rule sign_of_difference; unfold H; use that in linarith)
  have s1: "unat (sr + 1) = unat sr + 1" using assms by (simp add: unat_Suc_u32)
  have e: "33 - sr - 1 = 32 - sr" "sr + 1 - 32 - 1 = sr - 32" by simp_all
  show "sign_mask (32 - sr) = (if 32 < unat sr then - 1 else 0)" using m [of 33 sr] assms unfolding e by simp
  show "sign_mask (sr - 32) = (if unat sr < 32 then - 1 else 0)" using m [of "sr + 1" 32] assms unfolding e s1 by simp
  show "sign_mask (sr - 32 - 1) = (if unat sr \<le> 32 then - 1 else 0)" using m [of sr 32] assms by simp
  show "sign_mask (32 - sr - 1) = (if 32 \<le> unat sr then - 1 else 0)" using m [of 32 sr] assms by simp
qed


lemma masked_words:
  assumes "2 \<le> unat sr" "unat sr \<le> 63"
  shows "dw_all ((shl T (dw_low n) (32 - sr) AND sign_mask (sr - 32 - 1)) OR
        ((shl T (dw_high n) (64 - sr) OR shr T (dw_low n) (sr - 32)) AND sign_mask (32 - sr)))
      (shl T (dw_low n) (64 - sr) AND sign_mask (32 - sr)) = push_bit (64 - unat sr) n" (is "dw_all ?qh ?ql = _")
    and "dw_all (shr T (dw_high n) sr AND sign_mask (sr - 32))
      ((shr T (dw_high n) (sr - 32) AND sign_mask (32 - sr - 1)) OR
        ((shl T (dw_high n) (32 - sr) OR shr T (dw_low n) sr) AND sign_mask (sr - 32))) = drop_bit (unat sr) n" (is "dw_all ?rh ?rl = _")
proof -
  have le: "unat sr \<le> 64" using assms by simp
  note masks = sr_masks [OF le]
  consider "unat sr < 32" | "unat sr = 32" | "32 < unat sr" by linarith
  then have "dw_all ?qh ?ql = push_bit (64 - unat sr) n \<and> dw_all ?rh ?rl = drop_bit (unat sr) n"
  proof cases
    case 1
    then show ?thesis using assms(1) start_words [of sr T n] unfolding masks by simp
  next
    case 2
    then have "sr = 32" by (simp add: word_unat_eq_iff)
    then show ?thesis unfolding masks using dw_shift(1,2) [of 0 n] by (simp add: shl_def shr_def)
  next
    case 3
    have k: "unat (64 - sr) = 64 - unat sr" "unat (sr - 32) = unat sr - 32" using 3 assms(2)
      by (subst unat_sub; simp add: word_le_nat_alt)+
    have "shl T w (64 - sr) = push_bit (64 - unat sr) w" "shr T w (sr - 32) = drop_bit (unat sr - 32) w" for w
      using k 3 assms(2) by (simp_all add: shl_in shr_in)
    then show ?thesis unfolding masks using 3 assms(2) dw_shift(3) [of "64 - unat sr" n] dw_shift(2) [of "unat sr - 32" n] by simp
  qed
  then show "dw_all ?qh ?ql = push_bit (64 - unat sr) n" "dw_all ?rh ?rl = drop_bit (unat sr) n" by blast+
qed

context zero_count
begin

lemma div_by_high_ok: "dw_low d = 0 \<Longrightarrow> dw_high n \<noteq> 0 \<Longrightarrow> d \<noteq> 0 \<Longrightarrow> \<exists>c. div_by_high T n d = Inr c \<and> case_ok (unat n) (unat d) c"
proof -
  assume low: "dw_low d = 0" and nh: "dw_high n \<noteq> 0" and nz: "d \<noteq> 0"
  have dh: "dw_high d \<noteq> 0" using nz low dw_eq_0_iff by blast
  have d: "unat d = unat (dw_high d) * 2 ^ 32" using unat_dw_sum [of d] low by simp
  have l: "unat (dw_low n) < 2 ^ 32" using unat_u32_less [of "dw_low n"] by simp
  have quot: "unat n div unat d = unat (dw_high n) div unat (dw_high d)"
    "unat n mod unat d = unat (dw_high n) mod unat (dw_high d) * 2 ^ 32 + unat (dw_low n)"
    unfolding unat_dw_sum [of n] d by (rule div_by_high_word [OF l])+
  show ?thesis
  proof (cases "dw_low n = 0")
    case True
    then show ?thesis using dh low quot by (simp add: div_by_high_def c_umod_def c_udiv_def case_ok_def unat_widen unat_dw(3) unat_div unat_mod)
  next
    case ln: False
    show ?thesis
    proof (cases "dw_high d AND (dw_high d - 1) = 0")
      case True
      have p: "unat (dw_high d) = 2 ^ trailing_zeros (dw_high d)" by (rule power_of_two [OF True dh])
      have "trailing_zeros (dw_high d) < 32" using trailing_zeros_bit(1) [OF dh] bit_imp_le_length by fastforce
      then show ?thesis using True dh ln quot ctz [OF dh] and_minus_one [OF p, of "dw_high n"]
        by (simp add: div_by_high_def case_ok_def shr_in unat_widen unat_drop unat_dw(3) p)
    next
      case False
      define sr where "sr = builtin_clz T (dw_high d) - builtin_clz T (dw_high n)"
      have fl: "floorlog 2 (unat n) = floorlog 2 (unat (dw_high n)) + 32" "floorlog 2 (unat d) = floorlog 2 (unat (dw_high d)) + 32"
        using floorlog_dw nh dh by blast+
      have "dw_high d \<noteq> 1" using False by auto
      then have "2 \<le> unat (dw_high d)" using dh by (auto simp: word_unat_eq_iff)
      then have two: "2 \<le> floorlog 2 (unat (dw_high d))" by (intro floorlog_geI) simp_all
      have le32: "floorlog 2 (unat (dw_high n)) \<le> 32" using unat_u32_less [of "dw_high n"] by (intro floorlog_leI) simp_all
      show ?thesis
      proof (cases "floorlog 2 (unat (dw_high d)) \<le> floorlog 2 (unat (dw_high n))")
        case le: True
        have sr: "unat sr = floorlog 2 (unat (dw_high n)) - floorlog 2 (unat (dw_high d))" unfolding sr_def by (rule clz_diff(1) [OF dh nh le])
        have s30: "unat sr \<le> 30" using sr two le32 by linarith
        then have s1: "unat (sr + 1) = unat sr + 1" by (simp add: unat_Suc_u32)
        have "case_ok (unat n) (unat d) (Start (sr + 1) (dw_all (shl T (dw_low n) (32 - (sr + 1))) 0)
            (dw_all (shr T (dw_high n) (sr + 1)) (shl T (dw_high n) (32 - (sr + 1)) OR shr T (dw_low n) (sr + 1))))"
          by (rule start_ok) (use s30 s1 sr le fl start_words [of "sr + 1" T n] in simp_all)
        moreover have "\<not> 32 - 2 < sr" using s30 by (simp add: word_less_nat_alt)
        ultimately show ?thesis using False ln dh by (simp only: div_by_high_def sr_def [symmetric] Let_def if_False) blast
      next
        case less: False
        then have "31 < sr" unfolding sr_def by (intro clz_diff(2) [OF dh nh]) simp
        then have "32 - 2 < sr" by (simp add: word_less_nat_alt)
        moreover have "unat n < unat d" by (rule floorlog_less) (use less fl in linarith)
        ultimately show ?thesis using False ln dh by (simp add: div_by_high_def sr_def [symmetric] Let_def case_ok_def)
      qed
    qed
  qed
qed

lemma div_by_both_ok: "dw_high d \<noteq> 0 \<Longrightarrow> dw_high n \<noteq> 0 \<Longrightarrow> case_ok (unat n) (unat d) (div_by_both T n d)"
proof -
  assume dh: "dw_high d \<noteq> 0" and nh: "dw_high n \<noteq> 0"
  define sr where "sr = builtin_clz T (dw_high d) - builtin_clz T (dw_high n)"
  have fl: "floorlog 2 (unat n) = floorlog 2 (unat (dw_high n)) + 32" "floorlog 2 (unat d) = floorlog 2 (unat (dw_high d)) + 32"
    using floorlog_dw nh dh by blast+
  have le32: "floorlog 2 (unat (dw_high n)) \<le> 32" "0 < floorlog 2 (unat (dw_high d))"
    using unat_u32_less [of "dw_high n"] floorlog_bounds_nat [of "unat (dw_high d)"] dh by (auto intro: floorlog_leI simp: unat_gt_0)
  show ?thesis
  proof (cases "floorlog 2 (unat (dw_high d)) \<le> floorlog 2 (unat (dw_high n))")
    case le: True
    have sr: "unat sr = floorlog 2 (unat (dw_high n)) - floorlog 2 (unat (dw_high d))" unfolding sr_def by (rule clz_diff(1) [OF dh nh le])
    have s31: "unat sr \<le> 31" using sr le32 by linarith
    define k where "k = sr + 1"
    have k: "unat k = unat sr + 1" using s31 by (simp add: k_def unat_Suc_u32)
    let ?r = "dw_all (shr T (dw_high n) k AND sign_mask (k - 32)) (shl T (dw_high n) (32 - k) OR (shr T (dw_low n) k AND sign_mask (k - 32)))"
    have words: "dw_all (shl T (dw_low n) (32 - k)) 0 = push_bit (64 - unat k) n \<and> ?r = drop_bit (unat k) n"
    proof (cases "unat k < 32")
      case True
      then have "sign_mask (k - 32) = - 1" using sr_masks(2) [of k] by simp
      then show ?thesis using True k start_words [of k T n] by simp
    next
      case False
      then have "unat k = 32" using k s31 by simp
      then have "k = 32" by (simp add: word_unat_eq_iff)
      then show ?thesis using sr_masks(2) [of 32] dw_shift(1,2) [of 0 n] by (simp add: shl_def)
    qed
    have "case_ok (unat n) (unat d) (Start k (dw_all (shl T (dw_low n) (32 - k)) 0) ?r)"
      by (rule start_ok) (use words k s31 sr le fl in simp_all)
    moreover have "\<not> 32 - 1 < sr" using s31 by (simp add: word_less_nat_alt)
    ultimately show ?thesis by (simp only: div_by_both_def sr_def [symmetric] k_def [symmetric] Let_def if_False)
  next
    case less: False
    then have "31 < sr" unfolding sr_def by (intro clz_diff(2) [OF dh nh]) simp
    moreover have "unat n < unat d" by (rule floorlog_less) (use less fl in linarith)
    ultimately show ?thesis by (simp add: div_by_both_def sr_def [symmetric] Let_def case_ok_def)
  qed
qed


lemma div_by_low_ok:
  assumes dh: "dw_high d = 0" and dl: "dw_low d \<noteq> 0" and nh: "dw_high n \<noteq> 0"
  shows "case_ok (unat n) (unat d) (div_by_low T n d)"
proof -
  have d: "unat d = unat (dw_low d)" using unat_dw_sum [of d] dh by simp
  show ?thesis
  proof (cases "dw_low d AND (dw_low d - 1) = 0")
    case True
    define t where "t = trailing_zeros (dw_low d)"
    have p: "unat (dw_low d) = 2 ^ t" unfolding t_def by (rule power_of_two [OF True dl])
    have t32: "t < 32" using trailing_zeros_bit(1) [OF dl] bit_imp_le_length unfolding t_def by fastforce
    have "unat n mod 2 ^ t = unat (dw_low n) mod 2 ^ t"
    proof -
      have "(2 :: nat) ^ t dvd 2 ^ 32" using t32 by (intro le_imp_power_dvd) simp
      then show ?thesis unfolding unat_dw_sum [of n] by (metis mod_mult_self3 mod_mod_cancel unat_dw(1) unat_dw_sum)
    qed
    then have rem: "unat (ucast (dw_low n AND (dw_low d - 1)) :: u64) = unat n mod unat d"
      using and_minus_one [OF p, of "dw_low n"] by (simp only: unat_widen d p)
    show ?thesis
    proof (cases "dw_low d = 1")
      case one: True
      then show ?thesis using True rem d by (simp add: div_by_low_def case_ok_def)
    next
      case False
      have "t \<noteq> 0"
      proof
        assume "t = 0"
        then show False using p False by (simp add: word_unat_eq_iff)
      qed
      moreover have "unat (builtin_ctz T (dw_low d)) = t" using ctz [OF dl] by (simp add: t_def)
      ultimately have "dw_all (shr T (dw_high n) (builtin_ctz T (dw_low d)))
          (shl T (dw_high n) (32 - builtin_ctz T (dw_low d)) OR shr T (dw_low n) (builtin_ctz T (dw_low d))) = drop_bit t n"
        using start_words(2) [of "builtin_ctz T (dw_low d)" T n] t32 by simp
      then show ?thesis using True False rem d p by (simp add: div_by_low_def case_ok_def Let_def unat_drop)
    qed
  next
    case False
    define sr where "sr = 1 + 32 + builtin_clz T (dw_low d) - builtin_clz T (dw_high n)"
    have fl: "floorlog 2 (unat n) = floorlog 2 (unat (dw_high n)) + 32" by (rule floorlog_dw [OF nh])
    have "dw_low d \<noteq> 1" using False by auto
    then have "2 \<le> unat (dw_low d)" using dl by (auto simp: word_unat_eq_iff)
    then have two: "2 \<le> floorlog 2 (unat (dw_low d))" by (intro floorlog_geI) simp_all
    note clzs = clz_floorlog [OF dl] clz_floorlog [OF nh]
    have le32: "0 < floorlog 2 (unat (dw_high n))" using floorlog_bounds_nat [of "unat (dw_high n)"] nh by (auto simp: unat_gt_0)
    have "unat (1 + 32 + builtin_clz T (dw_low d)) = 33 + unat (builtin_clz T (dw_low d))"
      using clzs two by (subst unat_plus_less) simp_all
    then have "unat sr = 33 + unat (builtin_clz T (dw_low d)) - unat (builtin_clz T (dw_high n))"
      unfolding sr_def using clzs by (subst unat_sub) (simp_all add: word_le_nat_alt)
    then have sr: "unat sr = floorlog 2 (unat n) - floorlog 2 (unat d) + 1" "floorlog 2 (unat d) \<le> floorlog 2 (unat n)" "2 \<le> unat sr" "unat sr \<le> 63"
      unfolding d using clzs fl two le32 by linarith+
    note words = masked_words [OF sr(3,4), of T n]
    show ?thesis using False
      by (simp only: div_by_low_def sr_def [symmetric] Let_def if_False) (rule start_ok [OF sr(2,1,4) words])
  qed
qed

end

context zero_count
begin

lemma udivmoddi4_eq:
  assumes "b \<noteq> 0"
  shows "udivmoddi4 T a b rem = Inr (a div b, map_option (\<lambda>_. a mod b) rem)"
proof -
  define m where "m = (if dw_high a = 0 then div_small a b else if dw_low b = 0 then div_by_high T a b
    else if dw_high b = 0 then Inr (div_by_low T a b) else Inr (div_by_both T a b))"
  have "\<exists>c. m = Inr c \<and> case_ok (unat a) (unat b) c"
    using div_small_ok [of a b] div_by_high_ok [of b a] div_by_low_ok [of b a] div_by_both_ok [of b a] assms by (auto simp: m_def)
  then obtain c where c: "m = Inr c" "case_ok (unat a) (unat b) c" by blast
  have "udivmoddi4 T a b rem = bnd m (\<lambda>c. case c of Answer q r \<Rightarrow> Inr (q, map_option (\<lambda>_. r) rem)
      | Start sr q r \<Rightarrow> (case div_loop_di (unat sr) b (r, q, 0) of (r, q, carry) \<Rightarrow>
               Inr (push_bit 1 q OR ucast carry, map_option (\<lambda>_. r) rem)))" unfolding udivmoddi4_def m_def ..
  also have "\<dots> = Inr (a div b, map_option (\<lambda>_. a mod b) rem)"
  proof (cases c)
    case (Answer q r)
    then have "q = a div b" "r = a mod b" using c(2) by (simp_all add: case_ok_def word_unat_eq_iff unat_div unat_mod)
    then show ?thesis by (simp add: c(1) Answer)
  next
    case (Start sr q r)
    have ok: "floorlog 2 (unat b) \<le> floorlog 2 (unat a)" "unat sr = floorlog 2 (unat a) - floorlog 2 (unat b) + 1"
       "unat q = unat a mod 2 ^ unat sr * 2 ^ (64 - unat sr)" "unat r = unat a div 2 ^ unat sr" using c(2) by (simp_all add: case_ok_def Start)
    have pos: "0 < unat b" using assms by (simp add: unat_gt_0)
    then have "0 < floorlog 2 (unat b)" using floorlog_bounds_nat by blast
    then have "0 < unat a" using ok(1) by (cases "unat a") (simp_all add: floorlog_def)
    note start = loop_start [OF this pos _ _ ok(1,2), of 64]
    have lt: "unat a < 2 ^ 64" "unat b < 2 ^ 64" using unsigned_less [of a, where ?'a = nat] unsigned_less [of b, where ?'a = nat] by simp_all
    obtain r' q' c' where l: "div_loop (unat sr) b (r, q, 0) = (r', q', c')" "c' = 0 \<or> c' = 1" "unat r' = unat a mod unat b"
      "unat (push_bit 1 q' OR c') = unat a div unat b"
      using div_loop_result [of q "unat a" "unat sr" r b] ok(3,4) start lt by auto
    then have "r' = a mod b" "push_bit 1 q' OR c' = a div b" by (simp_all only: word_unat_eq_iff unat_div unat_mod)
    moreover have "ucast (ucast c' :: u32) = c'" using l(2) by auto
    ultimately show ?thesis using div_loop_di_eq [of 0 "unat sr" b r q] l(1) by (simp add: c(1) Start)
  qed
  finally show ?thesis .
qed

end

lemma udivmoddi4_by_zero: "udivmoddi4 T a 0 rem = Inl DivByZero"
proof -
  have "dw_high 0 = 0" "dw_low 0 = 0" using dw_eq_0_iff [of 0] by simp_all
  then show ?thesis by (simp add: udivmoddi4_def div_small_def div_by_high_def c_umod_def)
qed

section \<open>Signed division\<close>

lemma unat_abs: "int (unat (negate_if (sign_mask a) a)) = \<bar>sint a\<bar>" for a :: "'a::len word"
proof (cases "sint a < 0")
  case True
  have u: "uint (- a) = (- sint a) mod 2 ^ LENGTH('a)"
    unfolding of_int_sint_ariths(4) unsigned_of_int by (simp add: take_bit_eq_mod)
  have "- sint a < 2 ^ LENGTH('a)" using fits_sint [of a] full_half [where ?'a = 'a] half_pos [of "TYPE('a)"] unfolding fits_def by linarith
  then show ?thesis using True u by (simp add: sign_mask_eq)
next
  case False
  have "bit a (LENGTH('a) - 1) \<longleftrightarrow> False" using False by (simp only: sint_neg_iff)
  then show ?thesis using False sint_unat [of a] by (simp add: sign_mask_eq)
qed

lemma word_of_unat: "int (unat w) = k \<Longrightarrow> w = word_of_int k" for w :: "'a::len word"
  by auto

lemma signed_quotient:
  assumes "q = negate_if (sign_mask a) a div negate_if (sign_mask b) b"
  shows "negate_if (sign_mask a XOR sign_mask b) q = word_of_int (sint a sdiv sint b)"
proof -
  have "int (unat q) = \<bar>sint a\<bar> div \<bar>sint b\<bar>" unfolding assms unat_div of_nat_div unat_abs ..
  note q = word_of_unat [OF this]
  show ?thesis unfolding q signed_divide_int_def by (auto simp: sign_mask_eq sgn_if)
qed

lemma signed_remainder:
  assumes "r = negate_if (sign_mask a) a mod negate_if (sign_mask b) b"
  shows "negate_if (sign_mask a) r = word_of_int (sint a smod sint b)"
proof -
  have "int (unat r) = \<bar>sint a\<bar> mod \<bar>sint b\<bar>" unfolding assms unat_mod of_nat_mod unat_abs ..
  note r = word_of_unat [OF this]
  show ?thesis unfolding r signed_modulo_int_def by (auto simp: sign_mask_eq sgn_if)
qed

lemma abs_word_eq_0: "negate_if (sign_mask b) b = 0 \<longleftrightarrow> b = 0" for b :: "'a::len word"
  by (simp add: sign_mask_eq)

context zero_count
begin

lemma udivsi3_div: "udivsi3 T n d = (if d = 0 then 0 else n div d)"
  using udivsi3_eq [of d n] by (simp add: udivsi3_def word_unat_eq_iff unat_div)

lemma umodsi3_mod: "umodsi3 T n d = n mod d"
  by (auto simp: umodsi3_def udivsi3_div minus_div_mult_eq_mod)

lemma divsi3_sdiv: "b \<noteq> 0 \<Longrightarrow> divsi3 T a b = word_of_int (sint a sdiv sint b)"
  unfolding divsi3_def Let_def by (rule signed_quotient) (simp add: udivsi3_div abs_word_eq_0)

lemma modsi3_smod: "b \<noteq> 0 \<Longrightarrow> modsi3 T a b = word_of_int (sint a smod sint b)"
proof -
  assume b: "b \<noteq> 0"
  have "word_of_int (sint a smod sint b) = word_of_int (sint a) - word_of_int (sint a sdiv sint b) * (word_of_int (sint b) :: u32)"
    unfolding minus_sdiv_mult_eq_smod [symmetric] by (simp only: of_int_diff of_int_mult)
  then show ?thesis by (simp only: modsi3_def divsi3_sdiv [OF b] of_int_sint scast_id)
qed

lemma divdi3_sdiv: "b \<noteq> 0 \<Longrightarrow> divdi3 T a b = Inr (word_of_int (sint a sdiv sint b))"
  using signed_quotient [of _ a b] by (simp add: divdi3_def Let_def udivmoddi4_eq abs_word_eq_0)

lemma moddi3_smod: "b \<noteq> 0 \<Longrightarrow> moddi3 T r a b = Inr (word_of_int (sint a smod sint b))"
  using signed_remainder [of _ a b] by (simp add: moddi3_def Let_def udivmoddi4_eq abs_word_eq_0)

end

text \<open>The routines of \<open>Crt_Words\<close> serve as the intrinsics, where the processor has none.\<close>

definition soft_target :: target where
  "soft_target = \<lparr>builtin_clz = clzsi2, builtin_ctz = ctzsi2, wild = (\<lambda>left w k. w)\<rparr>"

interpretation soft: zero_count soft_target
  by unfold_locales (simp_all add: soft_target_def clzsi2_eq ctzsi2_eq)

text \<open>
  C7: Unsigned division. Given intrinsics that count the zeros of arguments other than zero, and
  whatever the shifter yields for amounts of 32 and more, the shift-and-subtract routines return the
  quotient and the remainder of every pair of numbers, through each of their special cases; by zero the
  64-bit routines divide by zero, the 32-bit ones answer zero and the numerator.
\<close>

theorem unsigned_division:
  assumes "\<And>x. x \<noteq> 0 \<Longrightarrow> unat (builtin_clz T x) = leading_zeros x" "\<And>x. x \<noteq> 0 \<Longrightarrow> unat (builtin_ctz T x) = trailing_zeros x"
  shows "udivmoddi4 T a b rem = (if b = 0 then Inl DivByZero else Inr (a div b, map_option (\<lambda>_. a mod b) rem)) \<and>
    udivdi3 T a b = (if b = 0 then Inl DivByZero else Inr (a div b)) \<and>
    umoddi3 T r a b = (if b = 0 then Inl DivByZero else Inr (a mod b)) \<and>
    udivsi3 T n d = (if d = 0 then 0 else n div d) \<and> umodsi3 T n d = (if d = 0 then n else n mod d)"
proof -
  have T: "zero_count T" using assms by (rule zero_count.intro)
  note eqs = zero_count.udivmoddi4_eq [OF T] zero_count.udivsi3_div [OF T] zero_count.umodsi3_mod [OF T]
  show ?thesis by (cases "b = 0") (simp_all add: udivdi3_def umoddi3_def eqs udivmoddi4_by_zero)
qed

theorem unsigned_division_witness:
  "udivmoddi4 soft_target 0x100000000000 0x300000005 (Some 0) = Inr (0x100000000000 div 0x300000005, Some (0x100000000000 mod 0x300000005))"
  using unsigned_division [of soft_target "0x100000000000" "0x300000005" "Some 0"] soft.clz soft.ctz by simp

text \<open>
  C28: Signed division. Under the same assumptions the signed routines return, for every divisor but
  zero, the quotient rounded towards zero and the remainder that has the sign of the numerator, as C
  demands; the least number divided by minus one, whose quotient does not fit, wraps around to itself.
\<close>

theorem signed_division:
  assumes "\<And>x. x \<noteq> 0 \<Longrightarrow> unat (builtin_clz T x) = leading_zeros x" "\<And>x. x \<noteq> 0 \<Longrightarrow> unat (builtin_ctz T x) = trailing_zeros x"
    and "b \<noteq> 0" "d \<noteq> 0"
  shows "divdi3 T a b = Inr (word_of_int (sint a sdiv sint b)) \<and> moddi3 T r a b = Inr (word_of_int (sint a smod sint b)) \<and>
    divsi3 T n d = word_of_int (sint n sdiv sint d) \<and> modsi3 T n d = word_of_int (sint n smod sint d)"
proof -
  have T: "zero_count T" using assms(1,2) by (rule zero_count.intro)
  show ?thesis
    using zero_count.divdi3_sdiv [OF T assms(3)] zero_count.moddi3_smod [OF T assms(3)] zero_count.divsi3_sdiv [OF T assms(4)]
      zero_count.modsi3_smod [OF T assms(4)] by simp
qed

theorem signed_division_witness:
  "divdi3 soft_target (- 7) 2 = Inr (- 3) \<and> modsi3 soft_target (- 7) 2 = - 1"
proof -
  have "sint (- 7 :: u64) sdiv sint (2 :: u64) = - 3" "sint (- 7 :: u32) smod sint (2 :: u32) = - 1" by code_simp+
  then show ?thesis using signed_division [of soft_target 2 2 "- 7" 0 "- 7"] soft.clz soft.ctz by simp
qed

end
