(* ===== verification/Crt_Float.thy ===== *)
theory Crt_Float
  imports Crt_Divide
begin

text \<open>
  The run-time arithmetic the compiler calls, fourth part: floating point in software. A \<open>float\<close> or
  \<open>double\<close> is the word that represents it (\<open>toRep\<close> and \<open>fromRep\<close> of fp_lib.h only change the type). The
  code of fp_lib.h is compiled for both widths; here it is one definition for every width and number
  \<open>m\<close> of bits of the significand, used with 23 bits for words of 32 and with 52 for words of 64. The
  meaning of a word is an integer: the value in units of the least positive number of the format.
\<close>

section \<open>The code\<close>

text \<open>The constants of fp_lib.h.\<close>

definition signBit :: "'a::len word" where
  "signBit = push_bit (LENGTH('a) - 1) 1"

definition absMask :: "'a::len word" where
  "absMask = signBit - 1"

definition implicitBit :: "nat \<Rightarrow> 'a::len word" where
  "implicitBit m = push_bit m 1"

definition significandMask :: "nat \<Rightarrow> 'a::len word" where
  "significandMask m = implicitBit m - 1"

definition infRep :: "nat \<Rightarrow> 'a::len word" where
  "infRep m = absMask XOR significandMask m"

definition exponentBias :: "'a::len itself \<Rightarrow> nat \<Rightarrow> int" where
  "exponentBias T m = drop_bit 1 (push_bit (LENGTH('a) - m - 1) 1 - 1)"

text \<open>comparesf2.c and comparedf2.c, which differ in the width alone.\<close>

definition fp_le :: "nat \<Rightarrow> 'a::len word \<Rightarrow> 'a word \<Rightarrow> int" where
  "fp_le m aInt bInt =
     (let aAbs = aInt AND absMask; bAbs = bInt AND absMask
      in if aAbs > infRep m \<or> bAbs > infRep m then 1
         else if aAbs OR bAbs = 0 then 0
         else if sint (aInt AND bInt) \<ge> 0
         then if sint aInt < sint bInt then - 1 else if aInt = bInt then 0 else 1
         else if sint aInt > sint bInt then - 1 else if aInt = bInt then 0 else 1)"

definition fp_ge :: "nat \<Rightarrow> 'a::len word \<Rightarrow> 'a word \<Rightarrow> int" where
  "fp_ge m aInt bInt =
     (let aAbs = aInt AND absMask; bAbs = bInt AND absMask
      in if aAbs > infRep m \<or> bAbs > infRep m then - 1
         else if aAbs OR bAbs = 0 then 0
         else if sint (aInt AND bInt) \<ge> 0
         then if sint aInt < sint bInt then - 1 else if aInt = bInt then 0 else 1
         else if sint aInt > sint bInt then - 1 else if aInt = bInt then 0 else 1)"

definition fp_unord :: "nat \<Rightarrow> 'a::len word \<Rightarrow> 'a word \<Rightarrow> int" where
  "fp_unord m a b =
     (let aAbs = a AND absMask; bAbs = b AND absMask
      in if aAbs > infRep m \<or> bAbs > infRep m then 1 else 0)"

definition lesf2 :: "u32 \<Rightarrow> u32 \<Rightarrow> int" where "lesf2 = fp_le 23"
definition gesf2 :: "u32 \<Rightarrow> u32 \<Rightarrow> int" where "gesf2 = fp_ge 23"
definition unordsf2 :: "u32 \<Rightarrow> u32 \<Rightarrow> int" where "unordsf2 = fp_unord 23"
definition eqsf2 :: "u32 \<Rightarrow> u32 \<Rightarrow> int" where "eqsf2 a b = lesf2 a b"
definition ltsf2 :: "u32 \<Rightarrow> u32 \<Rightarrow> int" where "ltsf2 a b = lesf2 a b"
definition nesf2 :: "u32 \<Rightarrow> u32 \<Rightarrow> int" where "nesf2 a b = lesf2 a b"
definition gtsf2 :: "u32 \<Rightarrow> u32 \<Rightarrow> int" where "gtsf2 a b = gesf2 a b"

definition ledf2 :: "u64 \<Rightarrow> u64 \<Rightarrow> int" where "ledf2 = fp_le 52"
definition gedf2 :: "u64 \<Rightarrow> u64 \<Rightarrow> int" where "gedf2 = fp_ge 52"
definition unorddf2 :: "u64 \<Rightarrow> u64 \<Rightarrow> int" where "unorddf2 = fp_unord 52"
definition eqdf2 :: "u64 \<Rightarrow> u64 \<Rightarrow> int" where "eqdf2 a b = ledf2 a b"
definition ltdf2 :: "u64 \<Rightarrow> u64 \<Rightarrow> int" where "ltdf2 a b = ledf2 a b"
definition nedf2 :: "u64 \<Rightarrow> u64 \<Rightarrow> int" where "nedf2 a b = ledf2 a b"
definition gtdf2 :: "u64 \<Rightarrow> u64 \<Rightarrow> int" where "gtdf2 a b = gedf2 a b"

text \<open>negsf2.c and negdf2.c.\<close>

definition negsf2 :: "u32 \<Rightarrow> u32" where "negsf2 a = a XOR signBit"
definition negdf2 :: "u64 \<Rightarrow> u64" where "negdf2 a = a XOR signBit"

text \<open>
  Conversion of integers. What floatunsisf.c and floatunsidf.c do with a number other than zero, and
  floatsisf.c and floatsidf.c with the absolute value. Exponents are of type \<open>int\<close>; the shift amounts
  that come of them are inside the width when \<open>__builtin_clz\<close> counts.
\<close>

definition place_single :: "target \<Rightarrow> u32 \<Rightarrow> u32" where
  "place_single T a =
     (let exponent = (32 - 1) - int (unat (builtin_clz T a));
          result =
            (if exponent \<le> 23 then push_bit (nat (23 - exponent)) a XOR implicitBit 23
             else
               let shift = exponent - 23;
                   result = drop_bit (nat shift) a XOR implicitBit 23;
                   round = push_bit (nat (32 - shift)) a;
                   result = (if round > signBit then result + 1 else result)
               in if round = signBit then result + (result AND 1) else result)
      in result + push_bit 23 (word_of_int (exponent + exponentBias TYPE(32) 23)))"

definition place_double :: "target \<Rightarrow> u32 \<Rightarrow> u64" where
  "place_double T a =
     (let exponent = (32 - 1) - int (unat (builtin_clz T a));
          shift = 52 - exponent;
          result = push_bit (nat shift) (ucast a) XOR implicitBit 52
      in result + push_bit 52 (word_of_int (exponent + exponentBias TYPE(64) 52)))"

definition floatunsisf :: "target \<Rightarrow> u32 \<Rightarrow> u32" where
  "floatunsisf T a = (if a = 0 then 0 else place_single T a)"

definition floatunsidf :: "target \<Rightarrow> u32 \<Rightarrow> u64" where
  "floatunsidf T a = (if a = 0 then 0 else place_double T a)"

definition floatsisf :: "target \<Rightarrow> u32 \<Rightarrow> u32" where
  "floatsisf T a =
     (if a = 0 then 0
      else
        let sign = (if sint a < 0 then signBit else 0);
            a = (if sint a < 0 then - a else a)
        in place_single T a OR sign)"

definition floatsidf :: "target \<Rightarrow> u32 \<Rightarrow> u64" where
  "floatsidf T a =
     (if a = 0 then 0
      else
        let sign = (if sint a < 0 then signBit else 0);
            a = (if sint a < 0 then - a else a)
        in place_double T a OR sign)"

text \<open>
  Conversion to integers. fixsfsi.c and fixdfsi.c differ in the width alone; the product with the sign
  is cut to the 32 bits of the result. A shift by the width of the word or more is undefined.
\<close>

definition shl_word :: "'a::len word \<Rightarrow> int \<Rightarrow> 'a word c_result" where
  "shl_word w k = (if 0 \<le> k \<and> k < int LENGTH('a) then Inr (push_bit (nat k) w) else Inl BadShift)"

definition shr_word :: "'a::len word \<Rightarrow> int \<Rightarrow> 'a word c_result" where
  "shr_word w k = (if 0 \<le> k \<and> k < int LENGTH('a) then Inr (drop_bit (nat k) w) else Inl BadShift)"

definition fp_fix :: "nat \<Rightarrow> 'a::len word \<Rightarrow> u32 c_result" where
  "fp_fix m aRep =
     (let aAbs = aRep AND absMask;
          sign = (if aRep AND signBit \<noteq> 0 then - 1 else 1);
          exponent = int (unat (drop_bit m aAbs)) - exponentBias TYPE('a) m;
          significand = (aAbs AND significandMask m) OR implicitBit m
      in if 0 \<le> exponent \<and> exponent < int m
         then bnd (shr_word significand (int m - exponent)) (\<lambda>v. Inr (ucast (sign * v)))
         else if exponent < 0 then Inr 0
         else bnd (shl_word significand (exponent - int m)) (\<lambda>v. Inr (ucast (sign * v))))"

definition fixsfsi :: "u32 \<Rightarrow> u32 c_result" where "fixsfsi = fp_fix 23"
definition fixdfsi :: "u64 \<Rightarrow> u32 c_result" where "fixdfsi = fp_fix 52"

text \<open>The conversions to 64 bits, and the unsigned ones, which work on the halves of a double.\<close>

definition fixsfdi :: "u32 \<Rightarrow> u64 c_result" where
  "fixsfdi fb =
     (let e = int (unat (drop_bit 23 (fb AND 0x7F800000))) - 127
      in if e < 0 then Inr 0
         else
           let s = scast (sign_mask (fb AND 0x80000000)) :: u64;
               r = ucast ((fb AND 0x007FFFFF) OR 0x00800000) :: u64
           in bnd (if e > 23 then shl_word r (e - 23) else shr_word r (23 - e)) (\<lambda>r. Inr (negate_if s r)))"

definition fixdfdi :: "u64 \<Rightarrow> u64 c_result" where
  "fixdfdi fb =
     (let e = int (unat (drop_bit 20 (dw_high fb AND 0x7FF00000))) - 1023
      in if e < 0 then Inr 0
         else
           let s = scast (sign_mask (dw_high fb AND 0x80000000)) :: u64;
               r = dw_all ((dw_high fb AND 0x000FFFFF) OR 0x00100000) (dw_low fb)
           in bnd (if e > 52 then shl_word r (e - 52) else shr_word r (52 - e)) (\<lambda>r. Inr (negate_if s r)))"

definition fixunssfsi :: "u32 \<Rightarrow> u32 c_result" where
  "fixunssfsi fb =
     (let e = int (unat (drop_bit 23 (fb AND 0x7F800000))) - 127
      in if e < 0 \<or> fb AND 0x80000000 \<noteq> 0 then Inr 0
         else
           let r = (fb AND 0x007FFFFF) OR 0x00800000
           in if e > 23 then shl_word r (e - 23) else shr_word r (23 - e))"

definition fixunssfdi :: "u32 \<Rightarrow> u64 c_result" where
  "fixunssfdi fb =
     (let e = int (unat (drop_bit 23 (fb AND 0x7F800000))) - 127
      in if e < 0 \<or> fb AND 0x80000000 \<noteq> 0 then Inr 0
         else
           let r = ucast ((fb AND 0x007FFFFF) OR 0x00800000)
           in if e > 23 then shl_word r (e - 23) else shr_word r (23 - e))"

definition fixunsdfsi :: "u64 \<Rightarrow> u32 c_result" where
  "fixunsdfsi fb =
     (let e = int (unat (drop_bit 20 (dw_high fb AND 0x7FF00000))) - 1023
      in if e < 0 \<or> dw_high fb AND 0x80000000 \<noteq> 0 then Inr 0
         else shr_word (0x80000000 OR push_bit 11 (dw_high fb AND 0x000FFFFF) OR drop_bit 21 (dw_low fb)) (31 - e))"

definition fixunsdfdi :: "u64 \<Rightarrow> u64 c_result" where
  "fixunsdfdi fb =
     (let e = int (unat (drop_bit 20 (dw_high fb AND 0x7FF00000))) - 1023
      in if e < 0 \<or> dw_high fb AND 0x80000000 \<noteq> 0 then Inr 0
         else
           let r = dw_all ((dw_high fb AND 0x000FFFFF) OR 0x00100000) (dw_low fb)
           in if e > 52 then shl_word r (e - 52) else shr_word r (52 - e))"

text \<open>extendsfdf2.c and truncdfsf2.c, with the constants that follow from their parameters.\<close>

definition extendsfdf2 :: "target \<Rightarrow> u32 \<Rightarrow> u64" where
  "extendsfdf2 T aRep =
     (let srcInfExp = push_bit 8 1 - 1 :: int; srcExpBias = drop_bit 1 srcInfExp;
          srcMinNormal = push_bit 23 1 :: u32; srcInfinity = push_bit 23 (word_of_int srcInfExp) :: u32;
          srcSignMask = push_bit 31 1 :: u32; srcAbsMask = srcSignMask - 1;
          srcQNaN = push_bit 22 1 :: u32; srcNaNCode = srcQNaN - 1;
          dstInfExp = push_bit 11 1 - 1 :: int; dstExpBias = drop_bit 1 dstInfExp;
          dstMinNormal = push_bit 52 1 :: u64;
          aAbs = aRep AND srcAbsMask; sign = aRep AND srcSignMask;
          absResult =
            (if aAbs - srcMinNormal < srcInfinity - srcMinNormal
             then push_bit (52 - 23) (ucast aAbs) + push_bit 52 (word_of_int (dstExpBias - srcExpBias))
             else if aAbs \<ge> srcInfinity
             then push_bit 52 (word_of_int dstInfExp) OR push_bit (52 - 23) (ucast (aAbs AND srcQNaN)) OR ucast (aAbs AND srcNaNCode)
             else if aAbs \<noteq> 0
             then
               let scale = int (unat (builtin_clz T aAbs)) - int (unat (builtin_clz T srcMinNormal));
                   absResult = push_bit (nat (52 - 23 + scale)) (ucast aAbs) XOR dstMinNormal;
                   resultExponent = dstExpBias - srcExpBias - scale + 1
               in absResult OR push_bit 52 (word_of_int resultExponent)
             else 0)
      in absResult OR push_bit (64 - 32) (ucast sign))"

definition truncdfsf2 :: "u64 \<Rightarrow> u32 c_result" where
  "truncdfsf2 aRep =
     (let srcInfExp = push_bit 11 1 - 1 :: int; srcExpBias = drop_bit 1 srcInfExp;
          srcMinNormal = push_bit 52 1 :: u64; sigMask = srcMinNormal - 1;
          srcInfinity = push_bit 52 (word_of_int srcInfExp) :: u64;
          srcSignMask = push_bit 63 1 :: u64; srcAbsMask = srcSignMask - 1;
          roundMask = push_bit (52 - 23) 1 - 1 :: u64; halfway = push_bit (52 - 23 - 1) 1 :: u64;
          dstInfExp = push_bit 8 1 - 1 :: int; dstExpBias = drop_bit 1 dstInfExp;
          underflow = push_bit 52 (word_of_int (srcExpBias + 1 - dstExpBias)) :: u64;
          overflow = push_bit 52 (word_of_int (srcExpBias + dstInfExp - dstExpBias)) :: u64;
          dstQNaN = push_bit 22 1 :: u32; dstNaNCode = dstQNaN - 1;
          aAbs = aRep AND srcAbsMask; sign = aRep AND srcSignMask;
          round = (\<lambda>absResult roundBits :: u64.
            if roundBits > halfway then absResult + 1
            else if roundBits = halfway then absResult + (absResult AND 1) else absResult);
          absResult =
            (if aAbs - underflow < aAbs - overflow
             then Inr (round (ucast (drop_bit (52 - 23) aAbs) - push_bit 23 (word_of_int (srcExpBias - dstExpBias))) (aAbs AND roundMask))
             else if aAbs > srcInfinity
             then Inr (push_bit 23 (word_of_int dstInfExp) OR dstQNaN OR (ucast aAbs AND dstNaNCode))
             else if aAbs > overflow then Inr (push_bit 23 (word_of_int dstInfExp))
             else
               let aExp = int (unat (drop_bit 52 aAbs));
                   shift = srcExpBias - dstExpBias - aExp + 1;
                   significand = (aRep AND sigMask) OR srcMinNormal
               in if shift > 52 then Inr 0
                  else bnd (shl_word significand (64 - shift)) (\<lambda>lost.
                       bnd (shr_word significand shift) (\<lambda>kept.
                         let denormalized = kept OR (if lost \<noteq> 0 then 1 else 0)
                         in Inr (round (ucast (drop_bit (52 - 23) denormalized)) (denormalized AND roundMask)))))
      in bnd absResult (\<lambda>absResult. Inr (absResult OR ucast (drop_bit (64 - 32) sign))))"

section \<open>Values\<close>

text \<open>
  The magnitude of the word without its sign, in units of the least positive number. The exponent
  field is the upper part; below the least normal number the units are counted directly. Infinity
  gets the value of the power of two that follows the largest number, which orders it as it should be.
\<close>

definition mag :: "nat \<Rightarrow> nat \<Rightarrow> nat" where
  "mag m n = (if n div 2 ^ m = 0 then n else (2 ^ m + n mod 2 ^ m) * 2 ^ (n div 2 ^ m - 1))"

definition units :: "nat \<Rightarrow> 'a::len word \<Rightarrow> int" where
  "units m w = (if bit w (LENGTH('a) - 1) then - 1 else 1) * int (mag m (unat w mod 2 ^ (LENGTH('a) - 1)))"

definition is_nan :: "nat \<Rightarrow> 'a::len word \<Rightarrow> bool" where
  "is_nan m w \<longleftrightarrow> 2 ^ (LENGTH('a) - 1) - 2 ^ m < unat w mod 2 ^ (LENGTH('a) - 1)"

lemma mag_fields: "f < 2 ^ m \<Longrightarrow> mag m (e * 2 ^ m + f) = (if e = 0 then f else (2 ^ m + f) * 2 ^ (e - 1))"
  by (simp add: mag_def)

lemma mag_Suc: "mag m n < mag m (Suc n)"
proof -
  define e f where "e = n div 2 ^ m" and "f = n mod 2 ^ m"
  have n: "n = e * 2 ^ m + f" "f < 2 ^ m" unfolding e_def f_def by (rule div_mult_mod_eq [symmetric], simp)
  show ?thesis
  proof (cases "Suc f < 2 ^ m")
    case True
    have "Suc n = e * 2 ^ m + Suc f" using n(1) by simp
    then show ?thesis using True n mag_fields [of f m e] mag_fields [of "Suc f" m e] by simp
  next
    case False
    then have "Suc f = 2 ^ m" using n(2) by simp
    then have "Suc n = Suc e * 2 ^ m + 0" using n(1) by simp
    then have "mag m (Suc n) = 2 ^ m * 2 ^ e" using mag_fields [of 0 m "Suc e"] by (simp only:) simp
    then show ?thesis using n mag_fields [of f m e] by (cases e) simp_all
  qed
qed

lemma mag_mono: "mag m a < mag m b \<longleftrightarrow> a < b"
  using strict_mono_less [of "mag m" a b] mag_Suc by (simp add: strict_mono_Suc_iff)

lemma mag_0 [simp]: "mag m 0 = 0"
  by (simp add: mag_def)

lemma mag_pos: "0 < n \<Longrightarrow> 0 < mag m n"
  using mag_mono [of m 0 n] by simp

lemma mag_eq: "mag m a = mag m b \<longleftrightarrow> a = b"
  by (metis mag_mono nat_neq_iff)

text \<open>The sign and the magnitude of a word.\<close>

lemma top_split: "unat w = of_bool (bit w (LENGTH('a) - 1)) * 2 ^ (LENGTH('a) - 1) + unat w mod 2 ^ (LENGTH('a) - 1)" for w :: "'a::len word"
proof -
  have "unat w div 2 ^ (LENGTH('a) - 1) = of_bool (bit w (LENGTH('a) - 1))"
  proof -
    have "unat w < 2 * 2 ^ (LENGTH('a) - 1)" using unsigned_less [of w, where ?'a = nat] by (cases "LENGTH('a)") simp_all
    then have "unat w div 2 ^ (LENGTH('a) - 1) < 2" by (simp add: less_mult_imp_div_less)
    moreover have "bit w (LENGTH('a) - 1) \<longleftrightarrow> odd (unat w div 2 ^ (LENGTH('a) - 1))"
      using bit_iff_odd [of "unat w" "LENGTH('a) - 1"] by (simp add: bit_unsigned_iff)
    ultimately show ?thesis by (cases "unat w div 2 ^ (LENGTH('a) - 1)") auto
  qed
  then show ?thesis using div_mult_mod_eq [of "unat w" "2 ^ (LENGTH('a) - 1)"] by simp
qed

lemma absMask_eq: "(absMask :: 'a::len word) = mask (LENGTH('a) - 1)"
  by (simp add: absMask_def signBit_def mask_eq_exp_minus_1)

lemma significandMask_eq: "significandMask m = mask m"
  by (simp add: significandMask_def implicitBit_def mask_eq_exp_minus_1)

lemma bit_signBit: "bit (signBit :: 'a::len word) n \<longleftrightarrow> n = LENGTH('a) - 1"
  unfolding signBit_def bit_push_bit_iff bit_1_iff using len_gt_0 [where ?'a = 'a] by auto

lemma unat_abs_rep: "unat (w AND absMask) = unat w mod 2 ^ (LENGTH('a) - 1)" for w :: "'a::len word"
  unfolding absMask_eq by (rule unat_and_mask)

lemma unat_mask_word: "k \<le> LENGTH('a) \<Longrightarrow> unat (mask k :: 'a::len word) = 2 ^ k - 1"
proof -
  assume "k \<le> LENGTH('a)"
  then have "int (unat (mask k :: 'a word)) = int (2 ^ k - 1)" using uint_mask_eq [of k, where ?'a = 'a]
    by (simp add: min_def mask_eq_exp_minus_1 of_nat_diff)
  then show ?thesis by (simp only: of_nat_eq_iff)
qed

lemma unat_infRep: "m < LENGTH('a) \<Longrightarrow> unat (infRep m :: 'a::len word) = 2 ^ (LENGTH('a) - 1) - 2 ^ m"
proof -
  assume m: "m < LENGTH('a)"
  let ?M = "mask (LENGTH('a) - 1) :: 'a word"
  have "infRep m AND mask m = (0 :: 'a word)" "infRep m OR mask m = ?M"
    unfolding infRep_def absMask_eq significandMask_eq using m by (auto intro!: bit_word_eqI simp: bit_simps)
  then have "infRep m + mask m = ?M" by (simp add: disjunctive_add_eq_or)
  then have "infRep m = ?M - mask m" by (simp add: eq_diff_eq)
  moreover have "unat (mask m :: 'a word) \<le> unat ?M" using m by (simp add: unat_mask_word diff_le_mono)
  ultimately show ?thesis using m by (simp add: unat_sub word_le_nat_alt unat_mask_word)
qed

lemma nan_iff: "m < LENGTH('a) \<Longrightarrow> infRep m < w AND absMask \<longleftrightarrow> is_nan m w" for w :: "'a::len word"
  by (simp add: word_less_nat_alt unat_infRep unat_abs_rep is_nan_def)


lemma sint_top: "sint w = int (unat w mod 2 ^ (LENGTH('a) - 1)) - of_bool (bit w (LENGTH('a) - 1)) * 2 ^ (LENGTH('a) - 1)" for w :: "'a::len word"
proof -
  have "(2 :: int) ^ LENGTH('a) = 2 * 2 ^ (LENGTH('a) - 1)" by (cases "LENGTH('a)") simp_all
  moreover have "int (unat w) = of_bool (bit w (LENGTH('a) - 1)) * 2 ^ (LENGTH('a) - 1) + int (unat w mod 2 ^ (LENGTH('a) - 1))"
    using arg_cong [OF top_split [of w], of int] by (simp only: of_nat_add of_nat_mult of_nat_of_bool of_nat_power of_nat_numeral)
  ultimately show ?thesis using sint_unat [of w] by (cases "bit w (LENGTH('a) - 1)") (simp_all only: of_bool_eq)
qed

section \<open>Comparisons\<close>

definition order3 :: "int \<Rightarrow> int \<Rightarrow> int" where
  "order3 x y = (if x < y then - 1 else if x = y then 0 else 1)"

lemma order_of_reps:
  fixes x y X Y P :: int and s t :: bool
  assumes "0 \<le> x" "x < P" "0 \<le> y" "y < P" "X < Y \<longleftrightarrow> x < y" "Y < X \<longleftrightarrow> y < x" "0 \<le> X" "0 \<le> Y" "X = 0 \<longleftrightarrow> x = 0" "Y = 0 \<longleftrightarrow> y = 0"
  defines "a \<equiv> x - of_bool s * P" and "b \<equiv> y - of_bool t * P"
  shows "(if x = 0 \<and> y = 0 then 0 else if \<not> (s \<and> t) then if a < b then - 1 else if a = b then 0 else 1
    else if a > b then - 1 else if a = b then 0 else 1) = order3 ((if s then - 1 else 1) * X) ((if t then - 1 else 1) * Y)"
proof -
  have "x = 0 \<and> y = 0 \<Longrightarrow> X = 0 \<and> Y = 0" using assms(9,10) by blast
  then show ?thesis using assms(1-10) unfolding a_def b_def order3_def by (cases s; cases t; simp) linarith+
qed

lemma fp_order:
  fixes a b :: "'a::len word"
  shows "(if (a AND absMask) OR (b AND absMask) = 0 then 0
    else if sint (a AND b) \<ge> 0 then if sint a < sint b then - 1 else if a = b then 0 else 1
    else if sint a > sint b then - 1 else if a = b then 0 else 1) = order3 (units m a) (units m b)"
proof -
  define A B where "A = unat a mod 2 ^ (LENGTH('a) - 1)" and "B = unat b mod 2 ^ (LENGTH('a) - 1)"
  let ?s = "bit a (LENGTH('a) - 1)" and ?t = "bit b (LENGTH('a) - 1)"
  have zero: "(a AND absMask) OR (b AND absMask) = 0 \<longleftrightarrow> int A = 0 \<and> int B = 0"
  proof -
    have "(a AND absMask) OR (b AND absMask) = 0 \<longleftrightarrow> a AND absMask = 0 \<and> b AND absMask = 0" by (rule or_eq_0_iff)
    then show ?thesis by (simp add: word_unat_eq_iff unat_abs_rep A_def B_def)
  qed
  have both: "sint (a AND b) \<ge> 0 \<longleftrightarrow> \<not> (?s \<and> ?t)" using sint_neg_iff [of "a AND b"] by (simp only: bit_and_iff) linarith
  have eq: "a = b \<longleftrightarrow> sint a = sint b" by (metis signed_word_eqI)
  have less: "int A < 2 ^ (LENGTH('a) - 1)" "int B < 2 ^ (LENGTH('a) - 1)"
    unfolding of_nat_less_numeral_power_cancel_iff by (simp_all add: A_def B_def)
  show ?thesis
    unfolding zero both eq sint_top [of a] sint_top [of b] units_def A_def [symmetric] B_def [symmetric]
    by (rule order_of_reps) (use less mag_mono [of m] mag_eq [of m _ 0] in simp_all)
qed


text \<open>
  C8: The comparisons of floating-point numbers in software, for both widths. If either argument is
  not a number they return the value each family reserves for it; otherwise less, equal or greater as
  the values compare, zeros of either sign being equal. The negation changes the sign of the value.
\<close>

theorem float_comparisons:
  "lesf2 a b = (if is_nan 23 a \<or> is_nan 23 b then 1 else order3 (units 23 a) (units 23 b)) \<and>
   gesf2 a b = (if is_nan 23 a \<or> is_nan 23 b then - 1 else order3 (units 23 a) (units 23 b)) \<and>
   unordsf2 a b = (if is_nan 23 a \<or> is_nan 23 b then 1 else 0) \<and> units 23 (negsf2 a) = - units 23 a \<and>
   ledf2 c d = (if is_nan 52 c \<or> is_nan 52 d then 1 else order3 (units 52 c) (units 52 d)) \<and>
   gedf2 c d = (if is_nan 52 c \<or> is_nan 52 d then - 1 else order3 (units 52 c) (units 52 d)) \<and>
   unorddf2 c d = (if is_nan 52 c \<or> is_nan 52 d then 1 else 0) \<and> units 52 (negdf2 c) = - units 52 c"
proof -
  have le: "fp_le m a b = (if is_nan m a \<or> is_nan m b then 1 else order3 (units m a) (units m b))"
    and ge: "fp_ge m a b = (if is_nan m a \<or> is_nan m b then - 1 else order3 (units m a) (units m b))"
    and un: "fp_unord m a b = (if is_nan m a \<or> is_nan m b then 1 else 0)"
    if m: "m < LENGTH('z)" for m and a b :: "'z::len word"
    unfolding fp_le_def fp_ge_def fp_unord_def Let_def nan_iff [OF m] fp_order [of a b m] by simp_all
  have neg: "units m (a XOR signBit) = - units m a" for m and a :: "'z::len word"
  proof -
    have b: "bit (a XOR signBit) n \<longleftrightarrow> (if n = LENGTH('z) - 1 then \<not> bit a n else bit a n)" for n
      unfolding bit_xor_iff bit_signBit by auto
    have "(a XOR signBit) AND absMask = a AND absMask"
      unfolding absMask_eq by (rule bit_word_eqI) (auto simp: bit_and_iff b bit_mask_iff)
    then have "unat (a XOR signBit) mod 2 ^ (LENGTH('z) - 1) = unat a mod 2 ^ (LENGTH('z) - 1)" by (metis unat_abs_rep)
    then show ?thesis by (simp add: units_def b)
  qed
  show ?thesis
    by (simp add: lesf2_def gesf2_def unordsf2_def negsf2_def ledf2_def gedf2_def unorddf2_def negdf2_def le ge un neg)
qed

section \<open>Assembling a number\<close>

lemma clear_implicit: "unat (s XOR implicitBit m) = unat s - 2 ^ m" if "2 ^ m \<le> unat s" "unat s < 2 ^ Suc m" for s :: "'a::len word"
proof -
  have high: "n \<le> m" if "bit s n" for n
  proof (rule ccontr)
    assume "\<not> n \<le> m"
    then have "(2 :: nat) ^ Suc m \<le> 2 ^ n" by (intro power_increasing) simp_all
    then have "unat s div 2 ^ n = 0" using \<open>unat s < 2 ^ Suc m\<close> by simp
    then show False using \<open>bit s n\<close> bit_iff_odd [of "unat s" n] by (simp add: bit_unsigned_iff)
  qed
  have q: "unat s div 2 ^ m = 1" using that by (simp add: div_nat_eqI)
  then have m: "bit s m" using bit_iff_odd [of "unat s" m] by (simp add: bit_unsigned_iff)
  have "s XOR implicitBit m = take_bit m s"
  proof (rule bit_word_eqI)
    fix n assume n: "n < LENGTH('a)"
    have "bit (implicitBit m :: 'a word) n \<longleftrightarrow> n = m" unfolding implicitBit_def bit_push_bit_iff bit_1_iff using n by auto
    then show "bit (s XOR implicitBit m) n = bit (take_bit m s) n"
      unfolding bit_xor_iff bit_take_bit_iff using m high [of n] by (cases "n = m") auto
  qed
  then have "unat (s XOR implicitBit m) = unat (take_bit m s)" by simp
  also have "\<dots> = unat s mod 2 ^ m" unfolding unsigned_take_bit_eq by (simp only: take_bit_eq_mod)
  also have "\<dots> = unat s - 2 ^ m" using q minus_div_mult_eq_mod [of "unat s" "2 ^ m"] by simp
  finally show ?thesis .
qed

lemma units_pack:
  fixes w :: "'a::len word"
  assumes "unat w = f + e * 2 ^ m" "f \<le> 2 ^ m" "0 < e" "unat w < 2 ^ (LENGTH('a) - 1)"
  shows "units m w = int ((2 ^ m + f) * 2 ^ (e - 1))"
proof -
  have "\<not> bit w (LENGTH('a) - 1)" using assms(4) bit_iff_odd [of "unat w" "LENGTH('a) - 1"] by (simp add: bit_unsigned_iff)
  moreover have "mag m (unat w) = (2 ^ m + f) * 2 ^ (e - 1)"
  proof (cases "f < 2 ^ m")
    case True
    then show ?thesis using mag_fields [of f m e] assms(1,3) by (simp add: add.commute)
  next
    case False
    then have "f = 2 ^ m" using assms(2) by simp
    then show ?thesis using mag_fields [of 0 m "Suc e"] assms(1,3) by (cases e) (simp_all add: mult_2 add.commute distrib_left distrib_right)
  qed
  ultimately show ?thesis using assms(4) by (simp add: units_def)
qed

lemma units_sign:
  fixes w :: "'a::len word"
  assumes "unat w < 2 ^ (LENGTH('a) - 1)"
  shows "units m (w OR signBit) = - units m w"
proof -
  have nb: "\<not> bit w (LENGTH('a) - 1)" using assms bit_iff_odd [of "unat w" "LENGTH('a) - 1"] by (simp add: bit_unsigned_iff)
  have b: "bit (w OR signBit) (LENGTH('a) - 1)" by (simp add: bit_or_iff bit_signBit)
  have "(w OR signBit) AND absMask = w AND absMask"
    unfolding absMask_eq by (rule bit_word_eqI) (auto simp: bit_and_iff bit_or_iff bit_signBit bit_mask_iff)
  then have "unat (w OR signBit) mod 2 ^ (LENGTH('a) - 1) = unat w mod 2 ^ (LENGTH('a) - 1)" by (metis unat_abs_rep)
  then show ?thesis using nb b by (simp add: units_def)
qed

lemma unat_field: "e * 2 ^ m < 2 ^ LENGTH('a) \<Longrightarrow> unat (push_bit m (word_of_int (int e)) :: 'a::len word) = e * 2 ^ m"
proof -
  assume e: "e * 2 ^ m < 2 ^ LENGTH('a)"
  have "push_bit m (word_of_int (int e)) = (of_nat (e * 2 ^ m) :: 'a word)" by (simp add: push_bit_eq_mult)
  then show ?thesis using e by (simp only: unsigned_of_nat take_bit_nat_eq_self of_nat_id id_apply)
qed

text \<open>The nearest integer to \<open>n / 2 ^ k\<close>, the even one of two that are equally near.\<close>

definition round_even :: "nat \<Rightarrow> nat \<Rightarrow> nat" where
  "round_even n k = (let q = n div 2 ^ k; r = n mod 2 ^ k in if 2 ^ k < 2 * r \<or> 2 ^ k = 2 * r \<and> odd q then q + 1 else q)"

lemma round_even_near: "2 * \<bar>int (round_even n k * 2 ^ k) - int n\<bar> \<le> 2 ^ k"
proof -
  define q r P where "q = n div 2 ^ k" and "r = n mod 2 ^ k" and "P = (2 ^ k :: nat)"
  have n: "n = q * P + r" "r < P" unfolding q_def r_def P_def by (rule div_mult_mod_eq [symmetric], simp)
  have e: "round_even n k = (if P < 2 * r \<or> P = 2 * r \<and> odd q then q + 1 else q)" by (simp add: round_even_def q_def r_def P_def Let_def)
  have "2 * \<bar>int (round_even n k * P) - int n\<bar> \<le> int P" unfolding e using n by (auto simp: distrib_right)
  then show ?thesis by (simp add: P_def)
qed

lemma round_even_0 [simp]: "round_even n 0 = n"
  by (simp add: round_even_def)


section \<open>From integers\<close>

lemma floorlog_range: "0 < n \<Longrightarrow> floorlog 2 n = Suc x \<Longrightarrow> 2 ^ x \<le> n \<and> n < 2 ^ Suc x" for n x :: nat
  using floorlog_bounds_nat [of n] by simp

lemma scaled_range: "2 ^ x \<le> n \<Longrightarrow> n < 2 ^ Suc x \<Longrightarrow> x \<le> m \<Longrightarrow> 2 ^ m \<le> n * 2 ^ (m - x) \<and> n * 2 ^ (m - x) < 2 ^ Suc m" for n x m :: nat
proof -
  assume n: "2 ^ x \<le> n" "n < 2 ^ Suc x" and x: "x \<le> m"
  have "(2 :: nat) ^ m = 2 ^ x * 2 ^ (m - x)" "(2 :: nat) ^ Suc m = 2 ^ Suc x * 2 ^ (m - x)" using x by (simp_all flip: power_add)
  then show ?thesis using n by (simp only: mult_le_mono1 mult_less_mono1 zero_less_power pos2 mult_less_cancel2)
qed

lemma biases [simp]: "exponentBias TYPE(32) 23 = 127" "exponentBias TYPE(64) 52 = 1023"
  by (simp_all add: exponentBias_def drop_bit_eq_div)

context zero_count
begin

lemma exponent_eq: "a \<noteq> 0 \<Longrightarrow> \<exists>x. floorlog 2 (unat a) = Suc x \<and> x \<le> 31 \<and> (32 - 1) - int (unat (builtin_clz T a)) = int x \<and>
    2 ^ x \<le> unat a \<and> unat a < 2 ^ Suc x"
proof -
  assume a: "a \<noteq> 0"
  then have pos: "0 < unat a" by (simp add: unat_gt_0)
  then obtain x where x: "floorlog 2 (unat a) = Suc x" using floorlog_bounds_nat gr0_implies_Suc by blast
  then show ?thesis using clz_floorlog [OF a] floorlog_range [OF pos x] by (intro exI [of _ x]) linarith
qed

lemma place_double_units:
  assumes "a \<noteq> 0"
  shows "units 52 (place_double T a) = int (unat a) * 2 ^ 1074" "unat (place_double T a) < 2 ^ 63"
proof -
  obtain x where x: "x \<le> 31" "(32 - 1) - int (unat (builtin_clz T a)) = int x" "2 ^ x \<le> unat a" "unat a < 2 ^ Suc x"
    using exponent_eq [OF assms] by blast
  define S where "S = (push_bit (52 - x) (ucast a) :: u64)"
  have r: "2 ^ 52 \<le> unat a * 2 ^ (52 - x)" "unat a * 2 ^ (52 - x) < 2 ^ Suc 52" using scaled_range [OF x(3,4), of 52] x(1) by simp_all
  have S: "unat S = unat a * 2 ^ (52 - x)"
    unfolding S_def unsigned_push_bit_eq using r(2) by (simp add: unat_widen push_bit_eq_mult take_bit_nat_eq_self)
  have nat: "nat (52 - int x) = 52 - x" by simp
  have p: "place_double T a = (S XOR implicitBit 52) + push_bit 52 (word_of_int (int (x + 1023)))"
    by (simp only: place_double_def Let_def x(2) biases nat S_def [symmetric] of_nat_add of_nat_numeral)
  have f: "unat (S XOR implicitBit 52) = unat S - 2 ^ 52" using r by (intro clear_implicit) (simp_all only: S)
  have e: "unat (push_bit 52 (word_of_int (int (x + 1023))) :: u64) = (x + 1023) * 2 ^ 52" using x(1) by (intro unat_field) simp
  have u: "unat (place_double T a) = (unat S - 2 ^ 52) + (x + 1023) * 2 ^ 52"
    unfolding p using f e r x(1) by (subst unat_plus_less) (simp_all add: S)
  show less: "unat (place_double T a) < 2 ^ 63" unfolding u using r x(1) by (simp add: S)
  have "units 52 (place_double T a) = int ((2 ^ 52 + (unat S - 2 ^ 52)) * 2 ^ (x + 1023 - 1))"
    using u less r by (intro units_pack) (simp_all add: S)
  also have "\<dots> = int (unat a * (2 ^ (52 - x) * 2 ^ (x + 1022)))" using r by (simp add: S)
  also have "(2 :: nat) ^ (52 - x) * 2 ^ (x + 1022) = 2 ^ 1074" using x(1) by (simp flip: power_add)
  finally show "units 52 (place_double T a) = int (unat a) * 2 ^ 1074" by simp
qed

end

lemma unat_and_1: "unat (w AND 1) = unat w mod 2" for w :: "'a::len word"
  using unat_and_mask [of w 1] by (simp add: mask_eq_exp_minus_1)

lemma round_bits:
  fixes r k :: nat
  assumes "k \<le> 32"
  shows "2 ^ 31 < r * 2 ^ (32 - k) \<longleftrightarrow> 2 ^ k < 2 * r" "r * 2 ^ (32 - k) = 2 ^ 31 \<longleftrightarrow> 2 * r = 2 ^ k"
proof -
  have p: "(2 :: nat) * 2 ^ 31 = 2 ^ k * 2 ^ (32 - k)" using assms by (simp flip: power_add)
  have "2 ^ 31 < r * 2 ^ (32 - k) \<longleftrightarrow> 2 * 2 ^ 31 < 2 * (r * 2 ^ (32 - k))" by (simp only: nat_mult_less_cancel1 pos2)
  also have "\<dots> \<longleftrightarrow> 2 ^ k * 2 ^ (32 - k) < (2 * r) * 2 ^ (32 - k)" by (simp only: p mult.assoc)
  also have "\<dots> \<longleftrightarrow> 2 ^ k < 2 * r" by (simp only: mult_less_cancel2) simp
  finally show "2 ^ 31 < r * 2 ^ (32 - k) \<longleftrightarrow> 2 ^ k < 2 * r" .
  have "r * 2 ^ (32 - k) = 2 ^ 31 \<longleftrightarrow> 2 * (r * 2 ^ (32 - k)) = 2 * 2 ^ 31" by (simp only: mult_cancel1) simp
  also have "\<dots> \<longleftrightarrow> (2 * r) * 2 ^ (32 - k) = 2 ^ k * 2 ^ (32 - k)" by (simp only: p mult.assoc)
  also have "\<dots> \<longleftrightarrow> 2 * r = 2 ^ k" by (simp only: mult_cancel2) simp
  finally show "r * 2 ^ (32 - k) = 2 ^ 31 \<longleftrightarrow> 2 * r = 2 ^ k" .
qed

lemma unat_signBit: "unat (signBit :: 'a::len word) = 2 ^ (LENGTH('a) - 1)"
  using unat_shifted [of 1 "1 :: 'a word"] by (simp only: signBit_def) (simp add: Suc_le_eq)

context zero_count
begin

lemma place_single_large:
  assumes a: "a \<noteq> 0" and k: "0 < k" "k \<le> 8" and fl: "floorlog 2 (unat a) = k + 24"
  shows "unat (place_single T a) = (round_even (unat a) k - 2 ^ 23) + (k + 150) * 2 ^ 23"
    "2 ^ 23 \<le> round_even (unat a) k" "round_even (unat a) k \<le> 2 ^ 24"
proof -
  obtain x where x0: "floorlog 2 (unat a) = Suc x" "(32 - 1) - int (unat (builtin_clz T a)) = int x" "2 ^ x \<le> unat a" "unat a < 2 ^ Suc x"
    using exponent_eq [OF a] by blast
  then have x: "x = k + 23" using fl by simp
  define S where "S = drop_bit k a"
  define rb where "rb = push_bit (32 - k) a"
  have S: "unat S = unat a div 2 ^ k" by (simp only: S_def unat_drop)
  have "2 ^ 23 * 2 ^ k \<le> unat a" "unat a < 2 ^ 24 * 2 ^ k" using x0(3,4) by (simp_all add: x power_add mult.commute)
  then have r: "2 ^ 23 \<le> unat S" "unat S < 2 ^ Suc 23" unfolding S
    by (simp_all add: less_eq_div_iff_mult_less_eq less_mult_imp_div_less)
  have q: "2 ^ 23 \<le> round_even (unat a) k" "round_even (unat a) k \<le> 2 ^ 24" using r by (auto simp: round_even_def Let_def S)
  then show "2 ^ 23 \<le> round_even (unat a) k" "round_even (unat a) k \<le> 2 ^ 24" .
  have rb: "unat rb = unat a mod 2 ^ k * 2 ^ (32 - k)" using k unat_shifted [of k a] by (simp add: rb_def)
  have gt: "signBit < rb \<longleftrightarrow> 2 ^ k < 2 * (unat a mod 2 ^ k)" "rb = signBit \<longleftrightarrow> 2 ^ k = 2 * (unat a mod 2 ^ k)"
    using round_bits [of k "unat a mod 2 ^ k"] k by (auto simp: word_less_nat_alt word_unat_eq_iff unat_signBit rb)
  define R where "R = S XOR implicitBit 23"
  have R: "unat R = unat S - 2 ^ 23" unfolding R_def using r by (rule clear_implicit)
  define R' where "R' = (let result = (if rb > signBit then R + 1 else R) in if rb = signBit then result + (result AND 1) else result)"
  have "odd (unat R) \<longleftrightarrow> odd (unat S)" using r R by simp
  moreover have "unat (R + 1) = unat R + 1" using R r by (simp add: unat_Suc_u32)
  moreover have "unat (R + (R AND 1)) = unat R + unat R mod 2" using R r by (subst unat_plus_less) (simp_all add: unat_and_1)
  ultimately have R': "unat R' = round_even (unat a) k - 2 ^ 23"
    using gt R r by (auto simp: R'_def Let_def round_even_def S [symmetric] mod_2_eq_odd)
  have n: "\<not> int x \<le> 23" "nat (int x - 23) = k" "nat (32 - (int x - 23)) = 32 - k" using x k by simp_all
  have p: "place_single T a = R' + push_bit 23 (word_of_int (int (k + 150)))"
    unfolding place_single_def Let_def x0(2) if_not_P [OF n(1)] n(2,3) S_def [symmetric] R_def [symmetric] rb_def [symmetric]
    by (simp only: R'_def Let_def biases) (simp add: x add.commute)
  have "unat (push_bit 23 (word_of_int (int (k + 150))) :: u32) = (k + 150) * 2 ^ 23" using k by (intro unat_field) simp
  then show "unat (place_single T a) = (round_even (unat a) k - 2 ^ 23) + (k + 150) * 2 ^ 23"
    unfolding p using R' q k by (subst unat_plus_less) simp_all
qed

lemma place_single_small:
  assumes a: "a \<noteq> 0" and fl: "floorlog 2 (unat a) = Suc x" and x: "x \<le> 23"
  shows "unat (place_single T a) = (unat a * 2 ^ (23 - x) - 2 ^ 23) + (x + 127) * 2 ^ 23"
    "2 ^ 23 \<le> unat a * 2 ^ (23 - x)" "unat a * 2 ^ (23 - x) < 2 ^ 24"
proof -
  have x0: "(32 - 1) - int (unat (builtin_clz T a)) = int x" "2 ^ x \<le> unat a" "unat a < 2 ^ Suc x"
    using exponent_eq [OF a] fl by auto
  define S where "S = push_bit (23 - x) a"
  have r: "2 ^ 23 \<le> unat a * 2 ^ (23 - x)" "unat a * 2 ^ (23 - x) < 2 ^ Suc 23" using scaled_range [OF x0(2,3) x] by simp_all
  show r': "2 ^ 23 \<le> unat a * 2 ^ (23 - x)" "unat a * 2 ^ (23 - x) < 2 ^ 24" using r by simp_all
  have S: "unat S = unat a * 2 ^ (23 - x)"
    unfolding S_def unsigned_push_bit_eq using r(2) by (simp add: push_bit_eq_mult take_bit_nat_eq_self)
  have n: "int x \<le> 23" "nat (23 - int x) = 23 - x" using x by simp_all
  have p: "place_single T a = (S XOR implicitBit 23) + push_bit 23 (word_of_int (int (x + 127)))"
    unfolding place_single_def Let_def x0(1) if_P [OF n(1)] n(2) S_def [symmetric] by (simp only: biases of_nat_add of_nat_numeral)
  have f: "unat (S XOR implicitBit 23) = unat S - 2 ^ 23" using r by (intro clear_implicit) (simp_all only: S)
  have "unat (push_bit 23 (word_of_int (int (x + 127))) :: u32) = (x + 127) * 2 ^ 23" using x by (intro unat_field) simp
  then show "unat (place_single T a) = (unat a * 2 ^ (23 - x) - 2 ^ 23) + (x + 127) * 2 ^ 23"
    unfolding p using f r x by (subst unat_plus_less) (simp_all add: S)
qed

lemma place_single_units:
  assumes a: "a \<noteq> 0"
  defines "k \<equiv> floorlog 2 (unat a) - 24"
  shows "units 23 (place_single T a) = int (round_even (unat a) k * 2 ^ k) * 2 ^ 149 \<and> unat (place_single T a) < 2 ^ 31"
proof -
  obtain x where x: "floorlog 2 (unat a) = Suc x" "x \<le> 31" using exponent_eq [OF a] by blast
  show ?thesis
  proof (cases "x \<le> 23")
    case True
    note s = place_single_small [OF a x(1) True]
    have less: "unat (place_single T a) < 2 ^ 31" unfolding s(1) using s(2,3) True by simp
    have "units 23 (place_single T a) = int ((2 ^ 23 + (unat a * 2 ^ (23 - x) - 2 ^ 23)) * 2 ^ (x + 127 - 1))"
      using s less by (intro units_pack) simp_all
    also have "\<dots> = int (unat a * (2 ^ (23 - x) * 2 ^ (x + 126)))" using s(2) by simp
    also have "(2 :: nat) ^ (23 - x) * 2 ^ (x + 126) = 2 ^ 149" using True by (simp flip: power_add)
    finally show ?thesis using less True by (simp add: k_def x(1))
  next
    case False
    then have k: "0 < k" "k \<le> 8" "floorlog 2 (unat a) = k + 24" using x by (simp_all add: k_def)
    note s = place_single_large [OF a k]
    have less: "unat (place_single T a) < 2 ^ 31" unfolding s(1) using s(2,3) k by simp
    have "units 23 (place_single T a) = int ((2 ^ 23 + (round_even (unat a) k - 2 ^ 23)) * 2 ^ (k + 150 - 1))"
      using s less by (intro units_pack) simp_all
    also have "\<dots> = int (round_even (unat a) k * 2 ^ (k + 149))" using s(2) by simp
    also have "\<dots> = int (round_even (unat a) k * 2 ^ k) * 2 ^ 149" by (simp add: power_add)
    finally show ?thesis using less by simp
  qed
qed

end


text \<open>The absolute value the signed conversions pass on, the least number included.\<close>

lemma unat_magnitude: "int (unat (if sint a < 0 then - a else a)) = \<bar>sint a\<bar>" for a :: "'a::len word"
proof -
  have "negate_if (sign_mask a) a = (if sint a < 0 then - a else a)" by (simp add: sign_mask_eq)
  then show ?thesis using unat_abs [of a] by (simp only:)
qed

text \<open>The value of an integer rounded to 24 bits.\<close>

definition to_single :: "int \<Rightarrow> int" where
  "to_single v = (let n = nat \<bar>v\<bar>; k = floorlog 2 n - 24 in sgn v * int (round_even n k * 2 ^ k))"

lemma to_single_near: "2 * \<bar>to_single v - v\<bar> \<le> 2 ^ (floorlog 2 (nat \<bar>v\<bar>) - 24)"
proof -
  define k n where "k = floorlog 2 (nat \<bar>v\<bar>) - 24" and "n = int (round_even (nat \<bar>v\<bar>) k * 2 ^ k)"
  have "2 * \<bar>n - \<bar>v\<bar>\<bar> \<le> 2 ^ k" using round_even_near [of "nat \<bar>v\<bar>" k] by (simp add: n_def)
  moreover have "to_single v = sgn v * n" by (simp only: to_single_def Let_def k_def n_def)
  moreover have "v = 0 \<Longrightarrow> n = 0" by (simp add: n_def round_even_def)
  ultimately show ?thesis unfolding k_def [symmetric]
    by (cases v "0 :: int" rule: linorder_cases) (simp_all add: abs_minus_commute add.commute)
qed

text \<open>
  C18: Integers to floating point in software. Given an intrinsic that counts leading zeros, the
  conversions to \<open>double\<close> are exact for every integer, and those to \<open>float\<close> return the integer rounded to
  24 bits, to the nearest and ties to even, also where the rounding carries into the exponent; the
  least integer, whose negation wraps around, included.
\<close>

theorem int_to_float:
  assumes "\<And>x. x \<noteq> 0 \<Longrightarrow> unat (builtin_clz T x) = leading_zeros x" "\<And>x. x \<noteq> 0 \<Longrightarrow> unat (builtin_ctz T x) = trailing_zeros x"
  shows "units 52 (floatsidf T a) = sint a * 2 ^ 1074 \<and> units 52 (floatunsidf T a) = int (unat a) * 2 ^ 1074 \<and>
    units 23 (floatsisf T a) = to_single (sint a) * 2 ^ 149 \<and> units 23 (floatunsisf T a) = to_single (int (unat a)) * 2 ^ 149"
proof (cases "a = 0")
  case True
  then show ?thesis by (simp add: floatsidf_def floatunsidf_def floatsisf_def floatunsisf_def units_def to_single_def Let_def)
next
  case False
  have T: "zero_count T" using assms by (rule zero_count.intro)
  define b where "b = (if sint a < 0 then - a else a)"
  have b: "b \<noteq> 0" "int (unat b) = \<bar>sint a\<bar>" "sint a \<noteq> 0" "nat \<bar>sint a\<bar> = unat b"
  proof -
    show z: "b \<noteq> 0" using False by (simp add: b_def)
    show e: "int (unat b) = \<bar>sint a\<bar>" unfolding b_def by (rule unat_magnitude)
    show "sint a \<noteq> 0" using False signed_word_eqI [of a 0] by auto
    show "nat \<bar>sint a\<bar> = unat b" unfolding e [symmetric] by (rule nat_int)
  qed
  note d = zero_count.place_double_units [OF T] and s = zero_count.place_single_units [OF T]
  have "units 52 (floatsidf T a) = sint a * 2 ^ 1074"
    using d [OF b(1)] units_sign [of "place_double T b" 52] b(2) False
    by (simp add: floatsidf_def b_def [symmetric] Let_def del: unat_eq_nat_uint of_nat_nat)
  moreover have "units 23 (floatsisf T a) = to_single (sint a) * 2 ^ 149"
    using s [OF b(1)] units_sign [of "place_single T b" 23] b False
    by (simp add: floatsisf_def b_def [symmetric] Let_def to_single_def sgn_if)
  moreover have "to_single (int (unat a)) = int (round_even (unat a) (floorlog 2 (unat a) - 24) * 2 ^ (floorlog 2 (unat a) - 24))"
  proof -
    have "sgn (int (unat a)) = 1" "nat \<bar>int (unat a)\<bar> = unat a"
      using False by (simp_all only: sgn_1_pos of_nat_0_less_iff unat_gt_0 abs_of_nat nat_int not_False_eq_True)
    then show ?thesis by (simp only: to_single_def Let_def mult_1)
  qed
  ultimately show ?thesis using d [OF False] s [OF False] False by (simp add: floatunsidf_def floatunsisf_def)
qed

theorem int_to_float_witness: "units 23 (floatsisf soft_target (- 16777219)) = to_single (- 16777219) * 2 ^ 149"
proof -
  have "sint (- 16777219 :: u32) = - 16777219" by code_simp
  then show ?thesis using int_to_float [of soft_target "- 16777219"] soft.clz soft.ctz by simp
qed

section \<open>To integers\<close>

lemma mag_trunc:
  fixes m n B :: nat
  assumes "0 < B"
  defines "e \<equiv> n div 2 ^ m" and "s \<equiv> 2 ^ m + n mod 2 ^ m"
  shows "e < B \<Longrightarrow> mag m n div 2 ^ (B + m - 1) = 0"
    and "B \<le> e \<Longrightarrow> m < e - B \<Longrightarrow> mag m n div 2 ^ (B + m - 1) = s * 2 ^ (e - B - m)"
    and "B \<le> e \<Longrightarrow> e - B \<le> m \<Longrightarrow> mag m n div 2 ^ (B + m - 1) = s div 2 ^ (m - (e - B))"
proof -
  have s: "s < 2 ^ Suc m" by (simp add: s_def)
  have mag: "mag m n = s * 2 ^ (e - 1)" if "0 < e" using that by (auto simp: mag_def e_def s_def)
  show "mag m n div 2 ^ (B + m - 1) = 0" if "e < B"
  proof (cases "e = 0")
    case True
    then have "mag m n = n" "n < 2 ^ m" by (simp_all add: mag_def e_def div_eq_0_iff)
    moreover have "(2 :: nat) ^ m \<le> 2 ^ (B + m - 1)" using assms(1) by (intro power_increasing) simp_all
    ultimately show ?thesis by (metis div_less less_le_trans)
  next
    case False
    then have "mag m n < 2 ^ Suc m * 2 ^ (e - 1)" using mag s by simp
    also have "\<dots> \<le> 2 ^ (B + m - 1)" using False that by (simp flip: power_add power_Suc)
    finally show ?thesis by simp
  qed
  show "mag m n div 2 ^ (B + m - 1) = s * 2 ^ (e - B - m)" if "B \<le> e" "m < e - B"
  proof -
    have "(2 :: nat) ^ (e - 1) = 2 ^ (e - B - m) * 2 ^ (B + m - 1)" using that assms(1) by (simp flip: power_add)
    then have "mag m n = s * 2 ^ (e - B - m) * 2 ^ (B + m - 1)" using mag that assms(1) by simp
    then show ?thesis by simp
  qed
  show "mag m n div 2 ^ (B + m - 1) = s div 2 ^ (m - (e - B))" if "B \<le> e" "e - B \<le> m"
  proof -
    have "(2 :: nat) ^ (B + m - 1) = 2 ^ (e - 1) * 2 ^ (m - (e - B))" using that assms(1) by (simp flip: power_add)
    then show ?thesis using mag that assms(1) by (simp add: div_mult2_eq)
  qed
qed

text \<open>The shift of the significand that every conversion ends in.\<close>

lemma shift_significand:
  fixes r :: "'b::len word" and m n B :: nat
  assumes "0 < B" "unat r = 2 ^ m + n mod 2 ^ m" "B \<le> n div 2 ^ m" "mag m n div 2 ^ (B + m - 1) < 2 ^ LENGTH('b)"
  defines "e \<equiv> int (n div 2 ^ m) - int B"
  shows "\<exists>v. (if e > int m then shl_word r (e - int m) else shr_word r (int m - e)) = Inr v \<and> unat v = mag m n div 2 ^ (B + m - 1)"
proof (cases "e > int m")
  case True
  define k where "k = n div 2 ^ m - B - m"
  have k: "e - int m = int k" using True assms(3) by (simp add: e_def k_def)
  have t: "mag m n div 2 ^ (B + m - 1) = unat r * 2 ^ k"
    using True assms(1-3) mag_trunc(2) [of B n m] by (simp add: e_def k_def)
  have "1 * 2 ^ k \<le> unat r * 2 ^ k" unfolding assms(2) by (intro mult_le_mono1) (simp add: Suc_le_eq)
  then have "(2 :: nat) ^ k < 2 ^ LENGTH('b)" using assms(4) t by linarith
  then have "k < LENGTH('b)" by simp
  moreover have "unat (push_bit k r) = unat r * 2 ^ k"
    unfolding unsigned_push_bit_eq using assms(4) t by (simp add: push_bit_eq_mult take_bit_nat_eq_self)
  ultimately show ?thesis using True t by (simp add: shl_word_def k)
next
  case False
  define k where "k = m - (n div 2 ^ m - B)"
  have k: "int m - e = int k" using False assms(3) by (simp add: e_def k_def of_nat_diff)
  have t: "mag m n div 2 ^ (B + m - 1) = unat r div 2 ^ k"
    using False assms(1-3) mag_trunc(3) [of B n m] by (simp add: e_def k_def)
  have "(2 :: nat) ^ m < 2 ^ LENGTH('b)" using assms(2) unsigned_less [of r, where ?'a = nat] by linarith
  then have "k < LENGTH('b)" by (simp add: k_def)
  then show ?thesis using False t by (simp add: shr_word_def k unat_drop)
qed

lemma unat_significand: "m < LENGTH('a) \<Longrightarrow> unat ((w AND mask m) OR implicitBit m) = 2 ^ m + unat w mod 2 ^ m" for w :: "'a::len word"
proof -
  assume m: "m < LENGTH('a)"
  have i: "bit (implicitBit m :: 'a word) n \<longleftrightarrow> n = m" for n
    unfolding implicitBit_def bit_push_bit_iff bit_1_iff using m by auto
  have "(w AND mask m) AND implicitBit m = 0" by (rule bit_word_eqI) (auto simp: bit_and_iff bit_mask_iff i)
  then have "(w AND mask m) OR implicitBit m = (w AND mask m) + implicitBit m" by (rule disjunctive_add_eq_or [symmetric])
  moreover have "unat (implicitBit m :: 'a word) = 2 ^ m"
    unfolding implicitBit_def unsigned_push_bit_eq using m by (simp add: push_bit_eq_mult take_bit_nat_eq_self)
  moreover have "unat w mod 2 ^ m + 2 ^ m < 2 ^ LENGTH('a)"
  proof -
    have "unat w mod 2 ^ m + 2 ^ m < 2 ^ Suc m" by simp
    also have "(2 :: nat) ^ Suc m \<le> 2 ^ LENGTH('a)" using m by (intro power_increasing) simp_all
    finally show ?thesis .
  qed
  ultimately show ?thesis by (simp add: unat_plus_less unat_and_mask)
qed

lemma top_bit_and: "w AND signBit \<noteq> 0 \<longleftrightarrow> bit w (LENGTH('a) - 1)" for w :: "'a::len word"
  unfolding word_eq_0_iff bit_and_iff bit_signBit by blast

lemma mod_mod_field: "m \<le> N \<Longrightarrow> x mod 2 ^ N mod 2 ^ m = x mod 2 ^ m" for x :: nat
  by (rule mod_mod_cancel) (rule le_imp_power_dvd)


lemma ucast_word_of_int: "LENGTH('b) \<le> LENGTH('a) \<Longrightarrow> ucast (word_of_int k :: 'a::len word) = (word_of_int k :: 'b::len word)"
  by (rule bit_word_eqI) (simp add: bit_ucast_iff bit_word_of_int_iff)

lemma units_sdiv:
  fixes w :: "'a::len word"
  defines "n \<equiv> unat w mod 2 ^ (LENGTH('a) - 1)"
  shows "units m w sdiv 2 ^ U = (if bit w (LENGTH('a) - 1) then - 1 else 1) * int (mag m n div 2 ^ U)"
  unfolding units_def n_def [symmetric] signed_divide_int_def by (auto simp: sgn_if zdiv_int)

text \<open>A magnitude in range, with its sign, in the 32 bits of the result.\<close>

lemma signed_result:
  fixes v :: "'a::len word"
  assumes "unat v = t" "32 \<le> LENGTH('a)"
  shows "ucast ((if neg then - 1 else 1) * v) = (word_of_int ((if neg then - 1 else 1) * int t) :: u32)"
proof -
  have "v = word_of_int (int t)" using assms(1) by auto
  then have "(if neg then - 1 else 1) * v = word_of_int ((if neg then - 1 else 1) * int t)" by simp
  moreover have "ucast (word_of_int ((if neg then - 1 else 1) * int t) :: 'a word) = (word_of_int ((if neg then - 1 else 1) * int t) :: u32)"
    by (rule ucast_word_of_int) (use assms(2) in simp)
  ultimately show ?thesis by (simp only:)
qed

lemma fp_fix_eq:
  fixes a :: "'a::len word"
  assumes len: "32 \<le> LENGTH('a)" "m + 2 < LENGTH('a)" and B: "exponentBias TYPE('a) m = int B" "0 < B"
    and fits: "fits TYPE(32) (units m a sdiv 2 ^ (B + m - 1))"
  shows "fp_fix m a = Inr (word_of_int (units m a sdiv 2 ^ (B + m - 1)))"
proof -
  define n where "n = unat a mod 2 ^ (LENGTH('a) - 1)"
  define t where "t = mag m n div 2 ^ (B + m - 1)"
  define neg where "neg = bit a (LENGTH('a) - 1)"
  have u: "units m a sdiv 2 ^ (B + m - 1) = (if neg then - 1 else 1) * int t" unfolding neg_def t_def n_def by (rule units_sdiv)
  have "int t \<le> 2 ^ 31" using fits unfolding u fits_def half_def by (simp split: if_splits)
  then have t31: "t \<le> 2 ^ 31" by (simp flip: of_nat_le_iff)
  also have "(2 :: nat) ^ 31 < 2 ^ LENGTH('a)" using len(1) by (intro power_strict_increasing) simp_all
  finally have tless: "t < 2 ^ LENGTH('a)" .
  define r where "r = ((a AND absMask) AND significandMask m) OR implicitBit m"
  have r: "unat r = 2 ^ m + n mod 2 ^ m" unfolding r_def significandMask_eq using len(2) by (subst unat_significand) (simp_all add: unat_abs_rep n_def)
  have e: "unat (drop_bit m (a AND absMask)) = n div 2 ^ m" by (simp only: unat_drop unat_abs_rep n_def)
  define x where "x = int (n div 2 ^ m) - int B"
  have code: "fp_fix m a = (if 0 \<le> x \<and> x < int m then bnd (shr_word r (int m - x)) (\<lambda>v. Inr (ucast ((if neg then - 1 else 1) * v)))
      else if x < 0 then Inr 0 else bnd (shl_word r (x - int m)) (\<lambda>v. Inr (ucast ((if neg then - 1 else 1) * v))))"
    by (simp only: fp_fix_def Let_def e B r_def [symmetric] x_def [symmetric] top_bit_and neg_def [symmetric])
  show ?thesis
  proof (cases "x < 0")
    case True
    then have "t = 0" using mag_trunc(1) [OF B(2), of n m] by (simp add: t_def x_def)
    then show ?thesis using True unfolding code u by simp
  next
    case False
    then have "B \<le> n div 2 ^ m" by (simp add: x_def)
    from shift_significand [OF B(2) r this, folded t_def x_def] tless obtain v where
      v: "(if x > int m then shl_word r (x - int m) else shr_word r (int m - x)) = Inr v" "unat v = t" by blast
    moreover have "shl_word r (x - int m) = shr_word r (int m - x)" if "x = int m" using that by (simp add: shl_word_def shr_word_def)
    ultimately have "fp_fix m a = Inr (ucast ((if neg then - 1 else 1) * v))" using False unfolding code
      by (cases x "int m" rule: linorder_cases) simp_all
    then show ?thesis using signed_result [OF v(2) len(1), of neg] by (simp only: u)
  qed
qed


text \<open>The fields as the other conversions mask them out.\<close>

lemma unat_exponent: "unat (drop_bit m (w AND push_bit m (mask k))) = unat w mod 2 ^ (m + k) div 2 ^ m" if "m + k \<le> LENGTH('a)" for w :: "'a::len word"
proof -
  have "drop_bit m (w AND push_bit m (mask k)) = drop_bit m (take_bit (m + k) w)"
    by (rule bit_word_eqI) (use that in \<open>auto simp: bit_drop_bit_eq bit_and_iff bit_push_bit_iff bit_mask_iff bit_take_bit_iff dest: bit_imp_le_length\<close>)
  then have "unat (drop_bit m (w AND push_bit m (mask k))) = unat (take_bit (m + k) w) div 2 ^ m" by (simp only: unat_drop)
  also have "unat (take_bit (m + k) w) = unat w mod 2 ^ (m + k)" unfolding unsigned_take_bit_eq by (simp only: take_bit_eq_mod)
  finally show ?thesis .
qed

lemma single_fields:
  fixes w :: u32
  defines "n \<equiv> unat w mod 2 ^ 31"
  shows "unat (drop_bit 23 (w AND 0x7F800000)) = n div 2 ^ 23" "unat ((w AND 0x007FFFFF) OR 0x00800000) = 2 ^ 23 + n mod 2 ^ 23"
    "w AND 0x80000000 \<noteq> 0 \<longleftrightarrow> bit w 31" "scast (sign_mask (w AND 0x80000000)) = (if bit w 31 then - 1 else 0 :: u64)"
proof -
  have c: "(0x7F800000 :: u32) = push_bit 23 (mask 8)" "(0x007FFFFF :: u32) = mask 23" "(0x00800000 :: u32) = implicitBit 23" "(0x80000000 :: u32) = signBit"
    by (simp_all add: mask_eq_exp_minus_1 implicitBit_def signBit_def)
  show "unat (drop_bit 23 (w AND 0x7F800000)) = n div 2 ^ 23" unfolding c n_def by (subst unat_exponent) simp_all
  show "unat ((w AND 0x007FFFFF) OR 0x00800000) = 2 ^ 23 + n mod 2 ^ 23" unfolding c n_def by (subst unat_significand) (simp_all add: mod_mod_cancel)
  show b: "w AND 0x80000000 \<noteq> 0 \<longleftrightarrow> bit w 31" unfolding c using top_bit_and [of w] by simp
  have "sint (w AND 0x80000000) < 0 \<longleftrightarrow> bit w 31" unfolding c sint_neg_iff [symmetric] bit_and_iff bit_signBit by simp
  then show "scast (sign_mask (w AND 0x80000000)) = (if bit w 31 then - 1 else 0 :: u64)" by (simp add: sign_mask_eq)
qed

lemma double_fields:
  fixes w :: u64
  defines "n \<equiv> unat w mod 2 ^ 63" and "r \<equiv> dw_all ((dw_high w AND 0x000FFFFF) OR 0x00100000) (dw_low w)"
  shows "unat (drop_bit 20 (dw_high w AND 0x7FF00000)) = n div 2 ^ 52" "unat r = 2 ^ 52 + n mod 2 ^ 52"
    "dw_high w AND 0x80000000 \<noteq> 0 \<longleftrightarrow> bit w 63" "scast (sign_mask (dw_high w AND 0x80000000)) = (if bit w 63 then - 1 else 0 :: u64)"
    "unat (0x80000000 OR push_bit 11 (dw_high w AND 0x000FFFFF) OR drop_bit 21 (dw_low w)) = unat r div 2 ^ 21"
proof -
  have c: "(0x7FF00000 :: u32) = push_bit 20 (mask 11)" "(0x000FFFFF :: u32) = mask 20" "(0x00100000 :: u32) = push_bit 20 1" "(0x80000000 :: u32) = push_bit 31 1"
    by (simp_all add: mask_eq_exp_minus_1)
  have r: "r = (w AND mask 52) OR implicitBit 52"
  proof (rule bit_word_eqI)
    fix i assume "i < LENGTH(64)"
    then show "bit r i = bit ((w AND mask 52) OR implicitBit 52) i"
      unfolding r_def c implicitBit_def bit_dw bit_or_iff bit_and_iff bit_mask_iff bit_push_bit_iff bit_1_iff by auto
  qed
  have "drop_bit 20 (take_bit 31 (drop_bit 32 (unat w))) = drop_bit 52 (take_bit 63 (unat w))"
    by (rule bit_eqI) (auto simp: bit_drop_bit_eq bit_take_bit_iff)
  then have "unat w div 2 ^ 32 mod 2 ^ 31 div 2 ^ 20 = n div 2 ^ 52" unfolding drop_bit_eq_div take_bit_eq_mod n_def .
  then show "unat (drop_bit 20 (dw_high w AND 0x7FF00000)) = n div 2 ^ 52" unfolding c by (subst unat_exponent) (simp_all only: unat_dw, simp_all)
  show ur: "unat r = 2 ^ 52 + n mod 2 ^ 52" unfolding r n_def by (subst unat_significand) (simp_all add: mod_mod_cancel)
  show "dw_high w AND 0x80000000 \<noteq> 0 \<longleftrightarrow> bit w 63" using single_fields(3) [of "dw_high w"] by (simp add: bit_dw)
  show "scast (sign_mask (dw_high w AND 0x80000000)) = (if bit w 63 then - 1 else 0 :: u64)" using single_fields(4) [of "dw_high w"] by (simp add: bit_dw)
  show "unat (0x80000000 OR push_bit 11 (dw_high w AND 0x000FFFFF) OR drop_bit 21 (dw_low w)) = unat r div 2 ^ 21"
  proof -
    have "0x80000000 OR push_bit 11 (dw_high w AND 0x000FFFFF) OR drop_bit 21 (dw_low w) = (ucast (drop_bit 21 r) :: u32)"
    proof (rule bit_word_eqI)
      fix i assume "i < LENGTH(32)"
      then show "bit (0x80000000 OR push_bit 11 (dw_high w AND 0x000FFFFF) OR drop_bit 21 (dw_low w)) i = bit (ucast (drop_bit 21 r) :: u32) i"
        unfolding r c implicitBit_def bit_dw bit_or_iff bit_and_iff bit_mask_iff bit_push_bit_iff bit_1_iff bit_ucast_iff bit_drop_bit_eq
        by (cases "i < 11"; cases "i = 31") (auto simp: bit_dw add.commute)
    qed
    moreover have "unat r div 2 ^ 21 < 2 ^ 32" unfolding ur by simp
    ultimately show ?thesis by (simp only: unsigned_ucast_eq unat_drop) (simp add: take_bit_nat_eq_self)
  qed
qed


text \<open>What the conversions to 64 bits and the unsigned ones return, for any format.\<close>

lemma fix_signed:
  fixes a :: "'a::len word" and r :: "'b::len word" and m B :: nat
  defines "n \<equiv> unat a mod 2 ^ (LENGTH('a) - 1)" and "U \<equiv> B + m - 1"
  defines "e \<equiv> int (n div 2 ^ m) - int B"
  assumes "0 < B" "unat r = 2 ^ m + n mod 2 ^ m" "fits TYPE('b) (units m a sdiv 2 ^ U)"
  shows "(if e < 0 then Inr 0 else bnd (if e > int m then shl_word r (e - int m) else shr_word r (int m - e))
      (\<lambda>r. Inr (negate_if (if bit a (LENGTH('a) - 1) then - 1 else 0) r))) = Inr (word_of_int (units m a sdiv 2 ^ U))"
proof -
  define t where "t = mag m n div 2 ^ U"
  have u: "units m a sdiv 2 ^ U = (if bit a (LENGTH('a) - 1) then - 1 else 1) * int t" unfolding t_def n_def by (rule units_sdiv)
  have "int t \<le> half TYPE('b)" using assms(6) half_pos [of "TYPE('b)"] unfolding u fits_def by (simp split: if_splits)
  then have "int t < 2 ^ LENGTH('b)" using full_half [where ?'a = 'b] half_pos [of "TYPE('b)"] by linarith
  then have t: "t < 2 ^ LENGTH('b)" by (simp flip: of_nat_less_iff)
  show ?thesis
  proof (cases "e < 0")
    case True
    then have "t = 0" using mag_trunc(1) [OF assms(4), of n m] by (simp add: t_def U_def e_def)
    then show ?thesis using True unfolding u by simp
  next
    case False
    then have "B \<le> n div 2 ^ m" by (simp add: e_def)
    from shift_significand [OF assms(4,5) this, folded U_def, folded t_def e_def] t obtain v where
      v: "(if e > int m then shl_word r (e - int m) else shr_word r (int m - e)) = Inr v" "unat v = t" by blast
    have "v = word_of_int (int t)" using v(2) by auto
    then show ?thesis using False v(1) unfolding u by simp
  qed
qed

lemma fix_unsigned:
  fixes a :: "'a::len word" and r :: "'b::len word" and m B :: nat
  defines "n \<equiv> unat a mod 2 ^ (LENGTH('a) - 1)" and "U \<equiv> B + m - 1"
  defines "e \<equiv> int (n div 2 ^ m) - int B"
  assumes "0 < B" "unat r = 2 ^ m + n mod 2 ^ m" "units m a < 2 ^ U * 2 ^ LENGTH('b)"
  shows "(if e < 0 \<or> bit a (LENGTH('a) - 1) then Inr 0 else if e > int m then shl_word r (e - int m) else shr_word r (int m - e)) =
    Inr (word_of_int (max 0 (units m a) div 2 ^ U))"
proof (cases "bit a (LENGTH('a) - 1)")
  case True
  then have "max 0 (units m a) = 0" by (simp add: units_def)
  then show ?thesis using True by simp
next
  case False
  define t where "t = mag m n div 2 ^ U"
  have u: "units m a = int (mag m n)" using False by (simp add: units_def n_def)
  then have ut: "max 0 (units m a) div 2 ^ U = int t" by (simp add: t_def zdiv_int)
  have "int (mag m n) < int (2 ^ U * 2 ^ LENGTH('b))" using assms(6) unfolding u by (simp only: of_nat_mult of_nat_power of_nat_numeral)
  then have "mag m n < 2 ^ U * 2 ^ LENGTH('b)" by (simp only: of_nat_less_iff)
  then have t: "t < 2 ^ LENGTH('b)" unfolding t_def by (simp add: less_mult_imp_div_less mult.commute)
  show ?thesis
  proof (cases "e < 0")
    case True
    then have "t = 0" using mag_trunc(1) [OF assms(4), of n m] by (simp add: t_def U_def e_def)
    then show ?thesis using True unfolding ut by simp
  next
    case nn: False
    then have "B \<le> n div 2 ^ m" by (simp add: e_def)
    from shift_significand [OF assms(4,5) this, folded U_def, folded t_def e_def] t obtain v where
      v: "(if e > int m then shl_word r (e - int m) else shr_word r (int m - e)) = Inr v" "unat v = t" by blast
    have "v = word_of_int (int t)" using v(2) by auto
    then show ?thesis using nn False v(1) unfolding ut by simp
  qed
qed


lemma fixunsdfsi_eq:
  assumes "units 52 a < 2 ^ 1074 * 2 ^ 32"
  shows "fixunsdfsi a = Inr (word_of_int (max 0 (units 52 a) div 2 ^ 1074))"
proof -
  define n e t where "n = unat a mod 2 ^ 63" and "e = int (n div 2 ^ 52) - 1023" and "t = mag 52 n div 2 ^ 1074"
  define w where "w = 0x80000000 OR push_bit 11 (dw_high a AND 0x000FFFFF) OR drop_bit 21 (dw_low a)"
  have w: "unat w = (2 ^ 52 + n mod 2 ^ 52) div 2 ^ 21" unfolding w_def double_fields(5) double_fields(2) n_def ..
  have code: "fixunsdfsi a = (if e < 0 \<or> bit a 63 then Inr 0 else shr_word w (31 - e))"
    by (simp only: fixunsdfsi_def Let_def double_fields n_def [symmetric] e_def [symmetric] w_def [symmetric])
  show ?thesis
  proof (cases "bit a 63")
    case True
    then have "max 0 (units 52 a) = 0" by (simp add: units_def)
    then show ?thesis unfolding code using True by simp
  next
    case False
    then have u: "units 52 a = int (mag 52 n)" by (simp add: units_def n_def)
    have ut: "max 0 (units 52 a) div 2 ^ 1074 = int t" unfolding u t_def zdiv_int by simp
    have "int (mag 52 n) < int (2 ^ 1074 * 2 ^ 32)" using assms unfolding u by (simp only: of_nat_mult of_nat_power of_nat_numeral)
    then have "mag 52 n < 2 ^ 1074 * 2 ^ 32" by (simp only: of_nat_less_iff)
    then have t: "t < 2 ^ 32" unfolding t_def by (intro less_mult_imp_div_less) (simp only: mult.commute)
    show ?thesis
    proof (cases "e < 0")
      case True
      then have "t = 0" using mag_trunc(1) [of 1023 n 52] unfolding t_def e_def by simp
      then show ?thesis using True unfolding code ut by simp
    next
      case nn: False
      then have le: "1023 \<le> n div 2 ^ 52" by (simp add: e_def)
      define x where "x = n div 2 ^ 52 - 1023"
      have x: "e = int x" using le by (simp add: x_def e_def)
      have "x \<le> 31"
      proof -
        have "2 ^ x \<le> t"
        proof (cases "x \<le> 52")
          case True
          have "(2 :: nat) ^ 52 = 2 ^ x * 2 ^ (52 - x)" using True by (simp flip: power_add)
          then have "(2 :: nat) ^ x = 2 ^ 52 div 2 ^ (52 - x)" by (simp only: div_mult_self_is_m zero_less_power pos2)
          also have "\<dots> \<le> (2 ^ 52 + n mod 2 ^ 52) div 2 ^ (52 - x)" by (rule div_le_mono) simp
          also have "\<dots> = t" using mag_trunc(3) [of 1023 n 52] le True unfolding t_def x_def by simp
          finally show ?thesis .
        next
          case f: False
          then have "(2 :: nat) ^ x = 2 ^ 52 * 2 ^ (x - 52)" by (simp only: power_add [symmetric] le_add_diff_inverse nat_le_linear not_le less_imp_le)
          also have "\<dots> \<le> (2 ^ 52 + n mod 2 ^ 52) * 2 ^ (x - 52)" by (intro mult_le_mono1) simp
          also have "\<dots> = t" using mag_trunc(2) [of 1023 n 52] le f unfolding t_def x_def by simp
          finally show ?thesis .
        qed
        then have "(2 :: nat) ^ x < 2 ^ 32" using t by (rule le_less_trans)
        then have "x < 32" by (rule power_less_imp_less_exp [rotated]) simp
        then show ?thesis by simp
      qed
      then have "t = (2 ^ 52 + n mod 2 ^ 52) div 2 ^ (52 - x)" using mag_trunc(3) [of 1023 n 52] le unfolding t_def x_def by simp
      also have "52 - x = 21 + (31 - x)" using \<open>x \<le> 31\<close> by simp
      finally have "t = unat (drop_bit (31 - x) w)" by (simp only: unat_drop w div_mult2_eq power_add)
      then have "drop_bit (31 - x) w = word_of_int (int t)" by auto
      moreover have "31 - e = int (31 - x)" using \<open>x \<le> 31\<close> x by simp
      ultimately show ?thesis using nn False unfolding code ut by (simp add: shr_word_def)
    qed
  qed
qed


text \<open>
  C19: Floating point to integers in software. A value whose integer part the result type can hold is
  converted to that part, rounded towards zero, by the six conversions; the unsigned ones turn every
  negative value into zero. No shift on the way is undefined.
\<close>

theorem float_to_int:
  "(fits TYPE(32) (units 23 a sdiv 2 ^ 149) \<longrightarrow> fixsfsi a = Inr (word_of_int (units 23 a sdiv 2 ^ 149))) \<and>
   (fits TYPE(32) (units 52 c sdiv 2 ^ 1074) \<longrightarrow> fixdfsi c = Inr (word_of_int (units 52 c sdiv 2 ^ 1074))) \<and>
   (fits TYPE(64) (units 23 a sdiv 2 ^ 149) \<longrightarrow> fixsfdi a = Inr (word_of_int (units 23 a sdiv 2 ^ 149))) \<and>
   (fits TYPE(64) (units 52 c sdiv 2 ^ 1074) \<longrightarrow> fixdfdi c = Inr (word_of_int (units 52 c sdiv 2 ^ 1074))) \<and>
   (units 23 a < 2 ^ 149 * 2 ^ 32 \<longrightarrow> fixunssfsi a = Inr (word_of_int (max 0 (units 23 a) div 2 ^ 149))) \<and>
   (units 23 a < 2 ^ 149 * 2 ^ 64 \<longrightarrow> fixunssfdi a = Inr (word_of_int (max 0 (units 23 a) div 2 ^ 149))) \<and>
   (units 52 c < 2 ^ 1074 * 2 ^ 32 \<longrightarrow> fixunsdfsi c = Inr (word_of_int (max 0 (units 52 c) div 2 ^ 1074))) \<and>
   (units 52 c < 2 ^ 1074 * 2 ^ 64 \<longrightarrow> fixunsdfdi c = Inr (word_of_int (max 0 (units 52 c) div 2 ^ 1074)))"
proof -
  have U: "127 + 23 - 1 = (149 :: nat)" "1023 + 52 - 1 = (1074 :: nat)" "LENGTH(32) - 1 = 31" "LENGTH(64) - 1 = 63"
    "int 23 = 23" "int 52 = 52" "int 127 = 127" "int 1023 = 1023" by simp_all
  note w = unat_widen [of "(a AND 0x007FFFFF) OR 0x00800000"]
  have sf: "fixsfsi a = Inr (word_of_int (units 23 a sdiv 2 ^ 149))" if "fits TYPE(32) (units 23 a sdiv 2 ^ 149)"
    using that fp_fix_eq [where ?'a = 32 and m = 23 and B = 127 and a = a] unfolding U fixsfsi_def by simp
  have df: "fixdfsi c = Inr (word_of_int (units 52 c sdiv 2 ^ 1074))" if "fits TYPE(32) (units 52 c sdiv 2 ^ 1074)"
    using that fp_fix_eq [where ?'a = 64 and m = 52 and B = 1023 and a = c] unfolding U fixdfsi_def by simp
  have sd: "fixsfdi a = Inr (word_of_int (units 23 a sdiv 2 ^ 149))" if "fits TYPE(64) (units 23 a sdiv 2 ^ 149)"
    unfolding fixsfdi_def Let_def single_fields using that
      fix_signed [where ?'a = 32 and m = 23 and B = 127 and a = a and r = "ucast ((a AND 0x007FFFFF) OR 0x00800000) :: u64", unfolded U]
    by (simp only: w single_fields)
  have dd: "fixdfdi c = Inr (word_of_int (units 52 c sdiv 2 ^ 1074))" if "fits TYPE(64) (units 52 c sdiv 2 ^ 1074)"
    unfolding fixdfdi_def Let_def double_fields using that
      fix_signed [where ?'a = 64 and m = 52 and B = 1023 and a = c and r = "dw_all ((dw_high c AND 0x000FFFFF) OR 0x00100000) (dw_low c)", unfolded U]
    by (simp only: double_fields)
  have us: "fixunssfsi a = Inr (word_of_int (max 0 (units 23 a) div 2 ^ 149))" if "units 23 a < 2 ^ 149 * 2 ^ 32"
    unfolding fixunssfsi_def Let_def single_fields using that
      fix_unsigned [where ?'a = 32 and m = 23 and B = 127 and a = a and r = "(a AND 0x007FFFFF) OR 0x00800000", unfolded U]
    by (simp only: single_fields) simp
  have ud: "fixunssfdi a = Inr (word_of_int (max 0 (units 23 a) div 2 ^ 149))" if "units 23 a < 2 ^ 149 * 2 ^ 64"
    unfolding fixunssfdi_def Let_def single_fields using that
      fix_unsigned [where ?'a = 32 and m = 23 and B = 127 and a = a and r = "ucast ((a AND 0x007FFFFF) OR 0x00800000) :: u64", unfolded U]
    by (simp only: w single_fields) simp
  have udd: "fixunsdfdi c = Inr (word_of_int (max 0 (units 52 c) div 2 ^ 1074))" if "units 52 c < 2 ^ 1074 * 2 ^ 64"
    unfolding fixunsdfdi_def Let_def double_fields using that
      fix_unsigned [where ?'a = 64 and m = 52 and B = 1023 and a = c and r = "dw_all ((dw_high c AND 0x000FFFFF) OR 0x00100000) (dw_low c)", unfolded U]
    by (simp only: double_fields) simp
  show ?thesis using sf df sd dd us ud fixunsdfsi_eq [of c] udd by blast
qed


theorem float_to_int_witness: "fixsfsi 0xC0700000 = Inr (- 3) \<and> fixunsdfdi 0xC00E000000000000 = Inr 0"
proof -
  have "units 23 (0xC0700000 :: u32) sdiv 2 ^ 149 = - 3"
    by (simp add: units_def mag_def signed_divide_int_def bit_iff_odd)
  moreover have "units 52 (0xC00E000000000000 :: u64) < 0"
    by (simp add: units_def mag_def bit_iff_odd)
  moreover have "fits TYPE(32) (- 3)" by (simp add: fits_def half_def)
  ultimately show ?thesis using float_to_int [of "0xC0700000" "0xC00E000000000000"] by simp
qed

section \<open>Between the formats\<close>

lemma or_field: "unat x < 2 ^ m \<Longrightarrow> unat x + unat (push_bit m y) < 2 ^ LENGTH('a) \<Longrightarrow> unat (x OR push_bit m y) = unat x + unat (push_bit m y)"
  for x y :: "'a::len word"
proof -
  assume x: "unat x < 2 ^ m" and s: "unat x + unat (push_bit m y) < 2 ^ LENGTH('a)"
  have low: "n < m" if "bit x n" for n
  proof (rule ccontr)
    assume "\<not> n < m"
    then have "(2 :: nat) ^ m \<le> 2 ^ n" by (intro power_increasing) simp_all
    then have "unat x div 2 ^ n = 0" using x by (metis div_less less_le_trans)
    then show False using that bit_iff_odd [of "unat x" n] by (simp add: bit_unsigned_iff)
  qed
  then have "x AND push_bit m y = 0" by (intro bit_word_eqI) (auto simp: bit_and_iff bit_push_bit_iff dest: low)
  then have "x OR push_bit m y = x + push_bit m y" by (rule disjunctive_add_eq_or [symmetric])
  then show ?thesis using s by (simp only: unat_plus_less)
qed

lemma mag_normal_scaled:
  assumes "2 ^ 23 \<le> n"
  shows "mag 52 (n * 2 ^ 29 + 896 * 2 ^ 52) = mag 23 n * 2 ^ 925"
proof -
  define e f where "e = n div 2 ^ 23" and "f = n mod 2 ^ 23"
  have n: "n = e * 2 ^ 23 + f" "f < 2 ^ 23" unfolding e_def f_def by (rule div_mult_mod_eq [symmetric], simp)
  have e: "0 < e" using assms by (simp add: e_def div_greater_zero_iff)
  have eq: "n * 2 ^ 29 + 896 * 2 ^ 52 = (e + 896) * 2 ^ 52 + f * 2 ^ 29" unfolding n(1) by simp
  have lt: "f * 2 ^ 29 < 2 ^ 52" using n(2) by simp
  have "mag 52 (n * 2 ^ 29 + 896 * 2 ^ 52) = (2 ^ 52 + f * 2 ^ 29) * 2 ^ (e + 896 - 1)" unfolding eq mag_fields [OF lt] by simp
  also have "e + 896 - 1 = (e - 1) + 896" using e by simp
  also have "(2 ^ 52 + f * 2 ^ 29) * 2 ^ ((e - 1) + 896) = ((2 ^ 23 + f) * 2 ^ (e - 1)) * (2 ^ 29 * 2 ^ 896)"
    unfolding power_add [of 2 "e - 1" 896] by (simp add: algebra_simps)
  also have "(2 ^ 23 + f) * 2 ^ (e - 1) = mag 23 n" using mag_fields [of f 23 e] n e by simp
  also have "(2 :: nat) ^ 29 * 2 ^ 896 = 2 ^ 925" by (simp only: power_add [symmetric]) simp
  finally show ?thesis .
qed

text \<open>The magnitude part of the conversion, case by case.\<close>

definition extend_abs :: "target \<Rightarrow> u32 \<Rightarrow> u64" where
  "extend_abs T aAbs =
     (if aAbs - 0x800000 < 0x7F000000 then push_bit 29 (ucast aAbs) + push_bit 52 896
      else if aAbs \<ge> 0x7F800000
      then push_bit 52 2047 OR push_bit 29 (ucast (aAbs AND 0x400000)) OR ucast (aAbs AND 0x3FFFFF)
      else if aAbs \<noteq> 0
      then let scale = int (unat (builtin_clz T aAbs)) - int (unat (builtin_clz T 0x800000))
        in (push_bit (nat (29 + scale)) (ucast aAbs) XOR implicitBit 52) OR push_bit 52 (word_of_int (896 - scale + 1))
      else 0)"

lemma extend_code: "extendsfdf2 T a = extend_abs T (a AND absMask) OR (if bit a 31 then signBit else 0)"
proof -
  have sign: "push_bit (64 - 32) (ucast (a AND push_bit 31 1)) = (if bit a 31 then signBit else 0 :: u64)"
  proof (rule bit_word_eqI)
    fix n assume "n < LENGTH(64)"
    then show "bit (push_bit (64 - 32) (ucast (a AND push_bit 31 1)) :: u64) n = bit (if bit a 31 then signBit else 0 :: u64) n"
      unfolding bit_push_bit_iff bit_ucast_iff bit_and_iff bit_1_iff by (cases "n = 63") (auto simp: bit_signBit)
  qed
  have mask: "push_bit 31 1 - 1 = (absMask :: u32)" by (simp add: absMask_def signBit_def)
  show ?thesis
    unfolding extendsfdf2_def Let_def sign mask extend_abs_def
    by (simp add: drop_bit_eq_div implicitBit_def)
qed


lemma extend_abs_normal:
  assumes "2 ^ 23 \<le> unat x" "unat x < 255 * 2 ^ 23"
  shows "unat (extend_abs T x) = unat x * 2 ^ 29 + 896 * 2 ^ 52"
proof -
  have "unat (x - 0x800000) = unat x - 0x800000" using assms by (subst unat_sub) (simp_all add: word_le_nat_alt)
  then have "x - 0x800000 < 0x7F000000" using assms by (simp add: word_less_nat_alt)
  moreover have "unat (push_bit 29 (ucast x) :: u64) = unat x * 2 ^ 29"
    unfolding unsigned_push_bit_eq using assms by (simp add: unat_widen push_bit_eq_mult take_bit_nat_eq_self)
  moreover have "unat (push_bit 52 896 :: u64) = 896 * 2 ^ 52" by simp
  ultimately show ?thesis using assms by (simp only: extend_abs_def if_True) (subst unat_plus_less; simp)
qed

context zero_count
begin

lemma extend_abs_denormal:
  assumes "0 < unat x" "unat x < 2 ^ 23"
  obtains s where "unat (extend_abs T x) = (unat x * 2 ^ (29 + s) - 2 ^ 52) + (897 - s) * 2 ^ 52" "0 < s" "s \<le> 23"
    "2 ^ 52 \<le> unat x * 2 ^ (29 + s)" "unat x * 2 ^ (29 + s) < 2 ^ 53"
proof -
  have nz: "x \<noteq> 0" using assms(1) by auto
  obtain k where k: "floorlog 2 (unat x) = Suc k" "k \<le> 31" "2 ^ k \<le> unat x" "unat x < 2 ^ Suc k" using exponent_eq [OF nz] by blast
  have k22: "k \<le> 22"
  proof (rule ccontr)
    assume "\<not> k \<le> 22"
    then have "(2 :: nat) ^ 23 \<le> 2 ^ k" by (intro power_increasing) simp_all
    then show False using k(3) assms(2) by linarith
  qed
  define s where "s = 23 - k"
  have s: "0 < s" "s \<le> 23" "29 + s = 52 - k" using k22 by (simp_all add: s_def)
  have one: "floorlog 2 (unat (0x800000 :: u32)) = 24" by (simp add: floorlog_unique [of 23])
  have scale: "int (unat (builtin_clz T x)) - int (unat (builtin_clz T 0x800000)) = int s"
  proof -
    have "unat (builtin_clz T 0x800000) = 8" using clz_floorlog [of "0x800000"] one by simp
    moreover have "int s = 23 - int k" using k22 by (simp add: s_def)
    ultimately show ?thesis using clz_floorlog [OF nz] k(1) by linarith
  qed
  have r: "2 ^ 52 \<le> unat x * 2 ^ (29 + s)" "unat x * 2 ^ (29 + s) < 2 ^ Suc 52" unfolding s(3) using scaled_range [OF k(3,4), of 52] k22 by simp_all
  define S where "S = (push_bit (29 + s) (ucast x) :: u64)"
  have S: "unat S = unat x * 2 ^ (29 + s)"
    unfolding S_def unsigned_push_bit_eq using r(2) by (simp add: unat_widen push_bit_eq_mult take_bit_nat_eq_self)
  have f: "unat (S XOR implicitBit 52) = unat S - 2 ^ 52" using r by (intro clear_implicit) (simp_all only: S)
  have e: "unat (push_bit 52 (word_of_int (int (897 - s))) :: u64) = (897 - s) * 2 ^ 52" by (intro unat_field) simp
  have c: "\<not> x - 0x800000 < 0x7F000000" "\<not> x \<ge> 0x7F800000"
  proof -
    have "unat (x - 0x800000) = 2 ^ 32 + unat x - 0x800000" using assms by (subst unat_sub_if_size) (simp add: word_size)
    then show "\<not> x - 0x800000 < 0x7F000000" using assms by (simp add: word_less_nat_alt)
    show "\<not> x \<ge> 0x7F800000" using assms by (simp add: word_le_nat_alt)
  qed
  have i: "nat (29 + int s) = 29 + s" "896 - int s + 1 = int (897 - s)" using s by simp_all
  have "extend_abs T x = (S XOR implicitBit 52) OR push_bit 52 (word_of_int (int (897 - s)))"
    unfolding extend_abs_def Let_def scale i S_def [symmetric] using c nz by (simp only: if_False if_True not_False_eq_True)
  moreover have "unat S - 2 ^ 52 < 2 ^ 52" using r by (simp add: S)
  ultimately have "unat (extend_abs T x) = (unat S - 2 ^ 52) + (897 - s) * 2 ^ 52"
    using f e by (simp only:) (subst or_field; simp)
  then show thesis using that [of s] s r by (simp only: S) simp
qed

end

lemma units_abs:
  fixes x :: "'a::len word"
  assumes "unat x < 2 ^ (LENGTH('a) - 1)"
  shows "units m (x OR (if s then signBit else 0)) = (if s then - 1 else 1) * int (mag m (unat x))"
proof -
  have "\<not> bit x (LENGTH('a) - 1)" using assms bit_iff_odd [of "unat x" "LENGTH('a) - 1"] by (simp add: bit_unsigned_iff)
  then have "units m x = int (mag m (unat x))" using assms by (simp add: units_def)
  then show ?thesis using units_sign [OF assms, of m] by simp
qed

lemma rejoin: "x < 2 ^ (LENGTH('a) - 1) \<Longrightarrow> x = unat w mod 2 ^ (LENGTH('a) - 1) \<Longrightarrow> unat r = x \<Longrightarrow>
    r OR (if bit w (LENGTH('a) - 1) then signBit else 0) = w" for w r :: "'a::len word"
proof -
  assume "x = unat w mod 2 ^ (LENGTH('a) - 1)" "unat r = x"
  then have r: "r = w AND absMask" by (simp add: word_unat_eq_iff unat_abs_rep)
  show ?thesis
  proof (rule bit_word_eqI)
    fix n assume n: "n < LENGTH('a)"
    have "n \<noteq> LENGTH('a) - 1 \<longleftrightarrow> n < LENGTH('a) - 1" using n by auto
    then show "bit (r OR (if bit w (LENGTH('a) - 1) then signBit else 0)) n = bit w n"
      unfolding r absMask_eq by (auto simp: bit_or_iff bit_and_iff bit_mask_iff bit_signBit)
  qed
qed

context zero_count
begin

lemma extend_abs_mag:
  assumes "unat x < 255 * 2 ^ 23"
  shows "mag 52 (unat (extend_abs T x)) = mag 23 (unat x) * 2 ^ 925" "unat (extend_abs T x) < 2 ^ 63"
proof -
  consider "unat x = 0" | "0 < unat x" "unat x < 2 ^ 23" | "2 ^ 23 \<le> unat x" by linarith
  then have "mag 52 (unat (extend_abs T x)) = mag 23 (unat x) * 2 ^ 925 \<and> unat (extend_abs T x) < 2 ^ 63"
  proof cases
    case 1
    then have "x = 0" by (simp add: word_unat_eq_iff)
    then have "extend_abs T x = 0" by (simp add: extend_abs_def)
    then show ?thesis using 1 by simp
  next
    case 2
    obtain s where s: "unat (extend_abs T x) = (unat x * 2 ^ (29 + s) - 2 ^ 52) + (897 - s) * 2 ^ 52" "0 < s" "s \<le> 23"
      "2 ^ 52 \<le> unat x * 2 ^ (29 + s)" "unat x * 2 ^ (29 + s) < 2 ^ 53" using extend_abs_denormal [OF 2] by blast
    define S where "S = unat x * 2 ^ (29 + s)"
    have f: "S - 2 ^ 52 < 2 ^ 52" using s(4,5) by (simp add: S_def)
    have "unat (extend_abs T x) = (897 - s) * 2 ^ 52 + (S - 2 ^ 52)" by (simp only: s(1) S_def add.commute)
    then have "mag 52 (unat (extend_abs T x)) = (2 ^ 52 + (S - 2 ^ 52)) * 2 ^ (897 - s - 1)" using mag_fields [OF f, of "897 - s"] s(3) by simp
    also have "\<dots> = unat x * (2 ^ (29 + s) * 2 ^ (897 - s - 1))" using s(4) by (simp add: S_def)
    also have "(2 :: nat) ^ (29 + s) * 2 ^ (897 - s - 1) = 2 ^ 925" unfolding power_add [symmetric] using s(3) by simp
    finally have "mag 52 (unat (extend_abs T x)) = unat x * 2 ^ 925" .
    moreover have "mag 23 (unat x) = unat x" using 2 by (simp add: mag_def)
    moreover have "unat (extend_abs T x) < 2 ^ 63" unfolding s(1) using f s(2) by (simp add: S_def)
    ultimately show ?thesis by simp
  next
    case 3
    then show ?thesis using extend_abs_normal [OF 3 assms, of T] mag_normal_scaled [OF 3] assms by simp
  qed
  then show "mag 52 (unat (extend_abs T x)) = mag 23 (unat x) * 2 ^ 925" "unat (extend_abs T x) < 2 ^ 63" by blast+
qed

end

lemma extend_abs_special: "0x7F800000 \<le> unat x \<Longrightarrow> unat x < 2 ^ 31 \<Longrightarrow>
    extend_abs T x = infRep 52 OR (push_bit 29 (ucast (x AND 0x400000)) OR ucast (x AND 0x3FFFFF))"
proof -
  assume x: "0x7F800000 \<le> unat x" "unat x < 2 ^ 31"
  have "unat (x - 0x800000) = unat x - 0x800000" using x by (subst unat_sub) (simp_all add: word_le_nat_alt)
  then have "\<not> x - 0x800000 < 0x7F000000" "x \<ge> 0x7F800000" using x by (simp_all add: word_less_nat_alt word_le_nat_alt)
  moreover have "push_bit 52 2047 = (infRep 52 :: u64)" by (simp add: infRep_def absMask_def signBit_def significandMask_def implicitBit_def)
  ultimately show ?thesis by (simp only: extend_abs_def if_True if_False or.assoc)
qed

lemma extend_abs_nan:
  assumes "0x7F800000 < unat x" "unat x < 2 ^ 31"
  shows "2 ^ 63 - 2 ^ 52 < unat (extend_abs T x)" "unat (extend_abs T x) < 2 ^ 63"
proof -
  define y where "y = (push_bit 29 (ucast (x AND 0x400000)) OR ucast (x AND 0x3FFFFF) :: u64)"
  have c: "(0x400000 :: u32) = push_bit 22 1" "(0x3FFFFF :: u32) = mask 22" by (simp_all add: mask_eq_exp_minus_1)
  have b: "bit y i \<longleftrightarrow> i < 22 \<and> bit x i \<or> i = 51 \<and> bit x 22" for i
    unfolding y_def c bit_or_iff bit_push_bit_iff bit_ucast_iff bit_and_iff bit_mask_iff bit_1_iff
    by (cases "i = 51") (auto simp: le_diff_conv2 dest: bit_imp_le_length)
  have "take_bit 52 y = y" by (rule bit_word_eqI) (auto simp: bit_take_bit_iff b)
  then have y52: "unat y < 2 ^ 52" by (metis unsigned_take_bit_eq take_bit_nat_less_exp)
  have "y \<noteq> 0"
  proof
    assume "y = 0"
    then have z: "\<not> bit x i" if "i < 23" for i using b [of i] b [of 51] that by (cases "i = 22") auto
    have "take_bit 23 x = 0" by (rule bit_word_eqI) (auto simp: bit_take_bit_iff z)
    then have "unat x mod 2 ^ 23 = 0" by (metis unsigned_take_bit_eq take_bit_eq_mod unsigned_0)
    then obtain k where "unat x = 2 ^ 23 * k" by (auto simp: mod_eq_0_iff_dvd elim: dvdE)
    moreover from this have "255 < k" using assms(1) by simp
    ultimately show False using assms(2) by simp
  qed
  then have pos: "0 < unat y" by (simp add: unat_gt_0)
  have inf: "unat (push_bit 52 2047 :: u64) = 2 ^ 63 - 2 ^ 52" by simp
  have e: "extend_abs T x = y OR push_bit 52 2047"
    using extend_abs_special [of x T] assms
    by (simp add: y_def infRep_def absMask_def signBit_def significandMask_def implicitBit_def or.commute)
  have "unat (extend_abs T x) = unat y + (2 ^ 63 - 2 ^ 52)" unfolding e inf [symmetric] using y52 by (intro or_field) simp_all
  then show "2 ^ 63 - 2 ^ 52 < unat (extend_abs T x)" "unat (extend_abs T x) < 2 ^ 63" using pos y52 by simp_all
qed


text \<open>
  C31: Widening a \<open>float\<close> to a \<open>double\<close> in software. Given an intrinsic that counts leading zeros, the
  conversion of every finite number, the denormalised ones included, has the same value (a unit of
  \<open>float\<close> is two to the 925 units of \<open>double\<close>); infinities stay infinities of their sign, and what is not
  a number stays so.
\<close>

theorem float_extend:
  assumes "\<And>x. x \<noteq> 0 \<Longrightarrow> unat (builtin_clz T x) = leading_zeros x" "\<And>x. x \<noteq> 0 \<Longrightarrow> unat (builtin_ctz T x) = trailing_zeros x"
  shows "(a AND absMask < infRep 23 \<longrightarrow> units 52 (extendsfdf2 T a) = units 23 a * 2 ^ 925) \<and>
    (a AND absMask = infRep 23 \<longrightarrow> extendsfdf2 T a = infRep 52 OR (if bit a 31 then signBit else 0)) \<and>
    (is_nan 23 a \<longrightarrow> is_nan 52 (extendsfdf2 T a))"
proof -
  have T: "zero_count T" using assms by (rule zero_count.intro)
  define x n where "x = a AND absMask" and "n = unat a mod 2 ^ 31"
  have x: "unat x = n" "n < 2 ^ 31" using unat_abs_rep [of a] by (simp_all add: x_def n_def)
  have inf: "unat (infRep 23 :: u32) = 0x7F800000" by (simp add: unat_infRep)
  have code: "extendsfdf2 T a = extend_abs T x OR (if bit a 31 then signBit else 0)" unfolding x_def by (rule extend_code)
  have fin: "units 52 (extendsfdf2 T a) = units 23 a * 2 ^ 925" if "x < infRep 23"
  proof -
    have less: "unat x < 255 * 2 ^ 23" using that by (simp add: word_less_nat_alt inf)
    note e = zero_count.extend_abs_mag [OF T less]
    have "units 52 (extendsfdf2 T a) = (if bit a 31 then - 1 else 1) * int (mag 52 (unat (extend_abs T x)))"
      unfolding code by (rule units_abs) (use e(2) in simp)
    then show ?thesis unfolding e(1) by (simp add: units_def x(1) n_def)
  qed
  have infinite: "extendsfdf2 T a = infRep 52 OR (if bit a 31 then signBit else 0)" if "x = infRep 23"
  proof -
    have "x = 0x7F800000" using that inf by (simp add: word_unat_eq_iff)
    then have "extend_abs T x = infRep 52" using extend_abs_special [of x T] by simp
    then show ?thesis by (simp only: code)
  qed
  have nan: "is_nan 52 (extendsfdf2 T a)" if "is_nan 23 a"
  proof -
    have "0x7F800000 < unat x" using that by (simp add: is_nan_def x n_def)
    note e = extend_abs_nan [of x T, OF this]
    have "(extend_abs T x OR (if bit a 31 then signBit else 0)) AND absMask = extend_abs T x AND absMask"
      unfolding absMask_eq by (rule bit_word_eqI) (auto simp: bit_and_iff bit_or_iff bit_signBit bit_mask_iff)
    then have "unat (extendsfdf2 T a) mod 2 ^ 63 = unat (extend_abs T x) mod 2 ^ 63"
      unfolding code using unat_abs_rep [of "extend_abs T x OR (if bit a 31 then signBit else 0)"] unat_abs_rep [of "extend_abs T x"] by simp
    then show ?thesis using e x by (simp add: is_nan_def)
  qed
  show ?thesis using fin infinite nan unfolding x_def by blast
qed

theorem float_extend_witness: "units 52 (extendsfdf2 soft_target 1) = 2 ^ 925"
proof -
  have "(1 :: u32) AND absMask < infRep 23"
    by (simp add: absMask_def signBit_def infRep_def significandMask_def implicitBit_def)
  moreover have "units 23 (1 :: u32) = 1" by (simp add: units_def mag_def bit_1_iff)
  ultimately show ?thesis using float_extend [of soft_target 1] soft.clz soft.ctz by simp
qed

section \<open>From double to float\<close>

definition trunc_round :: "u32 \<Rightarrow> u64 \<Rightarrow> u32" where
  "trunc_round r b = (if b > 0x10000000 then r + 1 else if b = 0x10000000 then r + (r AND 1) else r)"

definition trunc_abs :: "u64 \<Rightarrow> u32 c_result" where
  "trunc_abs x =
     (if x - 0x3810000000000000 < x - 0x47F0000000000000
      then Inr (trunc_round (ucast (drop_bit 29 x) - push_bit 23 896) (x AND 0x1FFFFFFF))
      else if x > 0x7FF0000000000000 then Inr (push_bit 23 255 OR 0x400000 OR (ucast x AND 0x3FFFFF))
      else if x > 0x47F0000000000000 then Inr (push_bit 23 255)
      else
        let shift = 896 - int (unat (drop_bit 52 x)) + 1; significand = (x AND mask 52) OR implicitBit 52
        in if shift > 52 then Inr 0
           else bnd (shl_word significand (64 - shift)) (\<lambda>lost. bnd (shr_word significand shift) (\<lambda>kept.
             let denormalized = kept OR (if lost \<noteq> 0 then 1 else 0)
             in Inr (trunc_round (ucast (drop_bit 29 denormalized)) (denormalized AND 0x1FFFFFFF)))))"

lemma trunc_code: "truncdfsf2 w = bnd (trunc_abs (w AND absMask)) (\<lambda>r. Inr (r OR (if bit w 63 then signBit else 0)))"
proof -
  have sign: "ucast (drop_bit (64 - 32) (w AND push_bit 63 1)) = (if bit w 63 then signBit else 0 :: u32)"
  proof (rule bit_word_eqI)
    fix n assume "n < LENGTH(32)"
    then show "bit (ucast (drop_bit (64 - 32) (w AND push_bit 63 1)) :: u32) n = bit (if bit w 63 then signBit else 0 :: u32) n"
      unfolding bit_drop_bit_eq bit_push_bit_iff bit_ucast_iff bit_and_iff bit_1_iff comp_def
      by (cases "n = 31") (auto simp: bit_signBit bit_drop_bit_eq bit_and_iff bit_push_bit_iff bit_1_iff)
  qed
  have mask: "push_bit 63 1 - 1 = (absMask :: u64)" by (simp add: absMask_def signBit_def)
  have "push_bit 52 1 - 1 = (mask 52 :: u64)" by (simp add: mask_eq_exp_minus_1)
  moreover have "w AND mask 52 = (w AND absMask) AND mask 52"
    unfolding absMask_eq by (rule bit_word_eqI) (auto simp: bit_and_iff bit_mask_iff)
  ultimately have sig: "w AND (push_bit 52 1 - 1) = (w AND absMask) AND mask 52" by simp
  have exps: "push_bit 11 1 - 1 = (2047 :: int)" "drop_bit 1 (2047 :: int) = 1023" "push_bit 8 1 - 1 = (255 :: int)" "drop_bit 1 (255 :: int) = 127"
    "1023 + 1 - 127 = (897 :: int)" "1023 + 255 - 127 = (1151 :: int)" "1023 - 127 = (896 :: int)" "52 - 23 = (29 :: nat)" "29 - 1 = (28 :: nat)"
    by (simp_all add: drop_bit_eq_div)
  have words: "push_bit 52 (word_of_int 2047) = (0x7FF0000000000000 :: u64)" "push_bit 52 (word_of_int 897) = (0x3810000000000000 :: u64)"
    "push_bit 52 (word_of_int 1151) = (0x47F0000000000000 :: u64)" "push_bit 29 1 - 1 = (0x1FFFFFFF :: u64)" "push_bit 28 1 = (0x10000000 :: u64)"
    "push_bit 22 1 = (0x400000 :: u32)" "0x400000 - 1 = (0x3FFFFF :: u32)" "word_of_int 896 = (896 :: u32)" "word_of_int 255 = (255 :: u32)"
    by simp_all
  show ?thesis
    unfolding truncdfsf2_def Let_def sign mask sig exps words trunc_abs_def trunc_round_def implicitBit_def ..
qed

lemma trunc_2_128: "truncdfsf2 0x47F0000000000000 = Inl BadShift"
proof -
  let ?x = "0x47F0000000000000 :: u64"
  have "?x AND absMask = ?x" by (simp add: absMask_def signBit_def)
  moreover have "\<not> ?x - 0x3810000000000000 < ?x - 0x47F0000000000000" "\<not> ?x > 0x7FF0000000000000" "\<not> ?x > 0x47F0000000000000" by simp_all
  moreover have "896 - int (unat (drop_bit 52 ?x)) + 1 = - 254" by simp
  moreover have "shl_word w (64 - (- 254)) = Inl BadShift" "\<not> (- 254) > (52 :: int)" for w :: u64 by (simp_all add: shl_word_def)
  ultimately show ?thesis by (simp only: trunc_code trunc_abs_def if_False Let_def bnd_Inl)
qed

lemma trunc_range:
  fixes x :: u64
  assumes "unat x < 2 ^ 63"
  shows "x - 0x3810000000000000 < x - 0x47F0000000000000 \<longleftrightarrow> 0x3810000000000000 \<le> unat x \<and> unat x < (0x47F0000000000000 :: nat)"
proof -
  have sub: "unat (x - c) = (if unat c \<le> unat x then unat x - unat c else unat x + 2 ^ 64 - unat c)" for c :: u64
    by (subst unat_sub_if_size) (simp add: word_size word_le_nat_alt)
  show ?thesis using assms by (auto simp: word_less_nat_alt sub)
qed

lemma trunc_round_exact [simp]: "trunc_round r 0 = r"
  by (simp add: trunc_round_def)


lemma ucast_nat: "ucast w = (of_nat (unat w) :: 'b::len word)" for w :: "'a::len word"
  by (simp add: word_unat_eq_iff unsigned_ucast_eq unsigned_of_nat)

lemma trunc_round_even:
  assumes "unat b = s mod 2 ^ 29" "odd (unat r) \<longleftrightarrow> odd (s div 2 ^ 29)" "unat r < 2 ^ 31" "unat r = s div 2 ^ 29 + c"
  shows "unat (trunc_round r b) = round_even s 29 + c"
proof -
  have gt: "b > 0x10000000 \<longleftrightarrow> 2 ^ 29 < 2 * (s mod 2 ^ 29)" "b = 0x10000000 \<longleftrightarrow> 2 ^ 29 = 2 * (s mod 2 ^ 29)"
    using assms(1) by (auto simp: word_less_nat_alt word_unat_eq_iff)
  have "unat (r + 1) = unat r + 1" using assms(3) by (simp add: unat_Suc_u32)
  moreover have "unat (r + (r AND 1)) = unat r + unat r mod 2" using assms(3) by (subst unat_plus_less) (simp_all add: unat_and_1)
  ultimately show ?thesis using assms(2,4) by (auto simp: trunc_round_def gt round_even_def Let_def mod_2_eq_odd)
qed

lemma trunc_abs_normal:
  fixes x :: u64
  assumes "unat x = e * 2 ^ 52 + f" "f < 2 ^ 52" "897 \<le> e" "e \<le> 1150"
  shows "\<exists>r. trunc_abs x = Inr r \<and> unat r = (round_even (2 ^ 52 + f) 29 - 2 ^ 23) + (e - 896) * 2 ^ 23"
    and "2 ^ 23 \<le> round_even (2 ^ 52 + f) 29" "round_even (2 ^ 52 + f) 29 \<le> 2 ^ 24"
proof -
  have div: "(2 ^ 52 + f) div 2 ^ 29 = 2 ^ 23 + f div 2 ^ 29" "(2 ^ 52 + f) mod 2 ^ 29 = f mod 2 ^ 29"
    using div_mult_self1 [of "2 ^ 29" f "2 ^ 23"] mod_mult_self1 [of f "2 ^ 23" "2 ^ 29"] by (simp_all add: add.commute)
  have q: "f div 2 ^ 29 < 2 ^ 23" using assms(2) by (simp add: less_mult_imp_div_less)
  show le: "2 ^ 23 \<le> round_even (2 ^ 52 + f) 29" "round_even (2 ^ 52 + f) 29 \<le> 2 ^ 24"
    using q by (auto simp: round_even_def Let_def div)
  have lt: "unat x < 2 ^ 63" using assms by simp
  have cond: "x - 0x3810000000000000 < x - 0x47F0000000000000" unfolding trunc_range [OF lt] using assms by simp
  define r0 where "r0 = (ucast (drop_bit 29 x) - push_bit 23 896 :: u32)"
  have "unat x = (e * 2 ^ 23) * 2 ^ 29 + f" using assms(1) by simp
  then have d: "unat x div 2 ^ 29 = e * 2 ^ 23 + f div 2 ^ 29" "unat x mod 2 ^ 29 = f mod 2 ^ 29"
    by (simp_all only: div_mult_self3 mod_mult_self3) simp
  have "r0 = of_nat (unat x div 2 ^ 29) - of_nat (896 * 2 ^ 23)" by (simp add: r0_def ucast_nat unat_drop)
  also have "\<dots> = of_nat (unat x div 2 ^ 29 - 896 * 2 ^ 23)" using assms(3) by (simp only: d of_nat_diff) (subst of_nat_diff; simp)
  also have "unat x div 2 ^ 29 - 896 * 2 ^ 23 = (e - 896) * 2 ^ 23 + f div 2 ^ 29" unfolding d using assms(3) by (simp add: diff_mult_distrib)
  finally have "r0 = of_nat ((e - 896) * 2 ^ 23 + f div 2 ^ 29)" .
  moreover have less: "(e - 896) * 2 ^ 23 + f div 2 ^ 29 < 2 ^ 31" using assms(4) q by simp
  ultimately have r0: "unat r0 = (e - 896) * 2 ^ 23 + f div 2 ^ 29" by (simp only: unsigned_of_nat of_nat_id id_apply) (simp add: take_bit_nat_eq_self)
  have b: "unat (x AND 0x1FFFFFFF) = (2 ^ 52 + f) mod 2 ^ 29" using unat_and_mask [of x 29] d div by (simp add: mask_eq_exp_minus_1)
  have "odd (unat r0) \<longleftrightarrow> odd ((2 ^ 52 + f) div 2 ^ 29)" unfolding r0 div by simp
  moreover have "unat r0 = (2 ^ 52 + f) div 2 ^ 29 + (e - 897) * 2 ^ 23" unfolding r0 div using assms(3) by (simp add: diff_mult_distrib)
  ultimately have "unat (trunc_round r0 (x AND 0x1FFFFFFF)) = round_even (2 ^ 52 + f) 29 + (e - 897) * 2 ^ 23"
    using b less r0 by (intro trunc_round_even) simp_all
  also have "\<dots> = (round_even (2 ^ 52 + f) 29 - 2 ^ 23) + (e - 896) * 2 ^ 23" using le(1) assms(3) by (simp add: diff_mult_distrib)
  finally have "unat (trunc_round r0 (x AND 0x1FFFFFFF)) = (round_even (2 ^ 52 + f) 29 - 2 ^ 23) + (e - 896) * 2 ^ 23" .
  moreover have "trunc_abs x = Inr (trunc_round r0 (x AND 0x1FFFFFFF))" using cond by (simp only: trunc_abs_def if_True r0_def)
  ultimately show "\<exists>r. trunc_abs x = Inr r \<and> unat r = (round_even (2 ^ 52 + f) 29 - 2 ^ 23) + (e - 896) * 2 ^ 23" by blast
qed


text \<open>
  Narrowing a \<open>double\<close> to a \<open>float\<close> in software, where the result is a normal number or rounds up
  to infinity: the significand is rounded from 53 to 24 bits, to the nearest and ties to even, also
  where the rounding carries into the exponent.
\<close>

theorem float_truncate_rounds:
  fixes w :: u64
  defines "n \<equiv> unat w mod 2 ^ 63"
  assumes "897 \<le> n div 2 ^ 52" "n div 2 ^ 52 \<le> 1150"
  shows "\<exists>r. truncdfsf2 w = Inr r \<and> units 52 w = (if bit w 63 then - 1 else 1) * int ((2 ^ 52 + n mod 2 ^ 52) * 2 ^ (n div 2 ^ 52 - 1)) \<and>
    units 23 r * 2 ^ 925 = (if bit w 63 then - 1 else 1) * int (round_even (2 ^ 52 + n mod 2 ^ 52) 29 * 2 ^ 29 * 2 ^ (n div 2 ^ 52 - 1))"
proof -
  define e f where "e = n div 2 ^ 52" and "f = n mod 2 ^ 52"
  have n: "n = e * 2 ^ 52 + f" "f < 2 ^ 52" unfolding e_def f_def by (rule div_mult_mod_eq [symmetric], simp)
  have e: "897 \<le> e" "e \<le> 1150" using assms(2,3) by (simp_all add: e_def)
  have x: "unat (w AND absMask) = e * 2 ^ 52 + f" using unat_abs_rep [of w] n(1) by (simp add: n_def)
  define q where "q = round_even (2 ^ 52 + f) 29"
  obtain r where r: "trunc_abs (w AND absMask) = Inr r" "unat r = (q - 2 ^ 23) + (e - 896) * 2 ^ 23"
    using trunc_abs_normal(1) [OF x n(2) e] unfolding q_def by blast
  have q: "2 ^ 23 \<le> q" "q \<le> 2 ^ 24" unfolding q_def by (rule trunc_abs_normal [OF x n(2) e])+
  have less: "unat r < 2 ^ (LENGTH(32) - 1)" unfolding r(2) using q e by simp
  have "units 23 r = int ((2 ^ 23 + (q - 2 ^ 23)) * 2 ^ (e - 896 - 1))" using r(2) q e less by (intro units_pack) simp_all
  then have "int (mag 23 (unat r)) = int (q * 2 ^ (e - 897))" using units_abs [OF less, of 23 False] q by simp
  then have "units 23 (r OR (if bit w 63 then signBit else 0)) * 2 ^ 925 = (if bit w 63 then - 1 else 1) * int (q * 2 ^ (e - 897)) * 2 ^ 925"
    using units_abs [OF less, of 23 "bit w 63"] by (simp only:)
  also have "\<dots> = (if bit w 63 then - 1 else 1) * int (q * (2 ^ (e - 897) * 2 ^ 925))" by (simp only: of_nat_mult of_nat_power of_nat_numeral mult.assoc)
  also have "(2 :: nat) ^ (e - 897) * 2 ^ 925 = 2 ^ 29 * 2 ^ (e - 1)" unfolding power_add [symmetric] using e(1) by simp
  finally have "units 23 (r OR (if bit w 63 then signBit else 0)) * 2 ^ 925 = (if bit w 63 then - 1 else 1) * int (q * 2 ^ 29 * 2 ^ (e - 1))"
    by (simp only: mult.assoc)
  moreover have "units 52 w = (if bit w 63 then - 1 else 1) * int ((2 ^ 52 + f) * 2 ^ (e - 1))"
    using mag_fields [OF n(2), of e] e n(1) by (simp add: units_def n_def)
  moreover have "truncdfsf2 w = Inr (r OR (if bit w 63 then signBit else 0))" by (simp only: trunc_code r(1) bnd_Inr)
  ultimately show ?thesis unfolding e_def f_def q_def by blast
qed


theorem float_truncate_rounds_witness:
  "\<exists>r. truncdfsf2 0x4008000010000000 = Inr r \<and> units 23 r * 2 ^ 925 = int (round_even 0x18000010000000 29 * 2 ^ 29 * 2 ^ 1023)"
proof -
  have n: "unat (0x4008000010000000 :: u64) mod 2 ^ 63 = 0x4008000010000000" "(0x4008000010000000 :: nat) div 2 ^ 52 = 1024"
    "(0x4008000010000000 :: nat) mod 2 ^ 52 = 0x8000010000000" "1024 - 1 = (1023 :: nat)" "2 ^ 52 + 0x8000010000000 = (0x18000010000000 :: nat)" by simp_all
  have "\<not> bit (0x4008000010000000 :: u64) 63" by (simp add: bit_iff_odd)
  then show ?thesis using float_truncate_rounds [of "0x4008000010000000", unfolded n] by auto
qed

section \<open>There and back\<close>

lemma trunc_abs_denormal:
  assumes "unat X = (n * 2 ^ (29 + s) - 2 ^ 52) + (897 - s) * 2 ^ 52" "0 < s" "s \<le> 23" "2 ^ 52 \<le> n * 2 ^ (29 + s)" "n * 2 ^ (29 + s) < 2 ^ 53"
  shows "\<exists>r. trunc_abs X = Inr r \<and> unat r = n"
proof -
  define S where "S = n * 2 ^ (29 + s)"
  have f: "S - 2 ^ 52 < 2 ^ 52" using assms(4,5) by (simp add: S_def)
  have X: "unat X = (S - 2 ^ 52) + (897 - s) * 2 ^ 52" by (simp only: assms(1) S_def)
  have lt: "unat X < (897 - s + 1) * 2 ^ 52" unfolding X using f by simp
  also have "\<dots> \<le> 0x3810000000000000" using assms(2,3) by simp
  finally have lt: "unat X < 0x3810000000000000" .
  have c: "\<not> X - 0x3810000000000000 < X - 0x47F0000000000000" "\<not> X > 0x7FF0000000000000" "\<not> X > 0x47F0000000000000"
    using lt trunc_range [of X] by (simp_all add: word_less_nat_alt)
  have "unat (drop_bit 52 X) = 897 - s" using f by (simp only: unat_drop X) simp
  then have shift: "896 - int (unat (drop_bit 52 X)) + 1 = int s" using assms(3) by simp
  define g where "g = (X AND mask 52) OR implicitBit 52"
  have g: "unat g = S"
  proof -
    have "unat X mod 2 ^ 52 = S - 2 ^ 52" unfolding X using f by simp
    then show ?thesis unfolding g_def using assms(4) by (subst unat_significand) (simp_all add: S_def)
  qed
  have ns: "n < 2 ^ 23"
  proof (rule ccontr)
    assume "\<not> n < 2 ^ 23"
    moreover have "(2 :: nat) ^ 30 \<le> 2 ^ (29 + s)" using assms(2) by (intro power_increasing) simp_all
    ultimately have "2 ^ 23 * 2 ^ 30 \<le> n * 2 ^ (29 + s)" by (intro mult_le_mono) simp_all
    then show False using assms(5) by simp
  qed
  have lost: "shl_word g (64 - int s) = Inr 0"
  proof -
    have "unat g mod 2 ^ s = 0" unfolding g S_def by (simp add: power_add)
    then have "push_bit (64 - s) g = 0" using unat_shifted [of s g] assms(3) by (simp add: word_unat_eq_iff)
    moreover have "nat (64 - int s) = 64 - s" by simp
    ultimately show ?thesis using assms(2,3) by (simp only: shl_word_def) simp
  qed
  have kept: "shr_word g (int s) = Inr (drop_bit s g)" using assms(3) by (simp add: shr_word_def)
  have k: "unat (drop_bit s g) = n * 2 ^ 29" unfolding unat_drop g S_def by (simp add: power_add)
  have "unat (drop_bit 29 (drop_bit s g)) = n" unfolding unat_drop [of 29] k by simp
  moreover have "unat (drop_bit s g AND 0x1FFFFFFF) = 0" using unat_and_mask [of "drop_bit s g" 29] k by (simp add: mask_eq_exp_minus_1)
  then have "drop_bit s g AND 0x1FFFFFFF = 0" by (simp add: word_unat_eq_iff)
  moreover have "trunc_abs X = Inr (trunc_round (ucast (drop_bit 29 (drop_bit s g))) (drop_bit s g AND 0x1FFFFFFF))"
  proof -
    have "\<not> int s > 52" "drop_bit s g OR (if (0 :: u64) \<noteq> 0 then 1 else 0) = drop_bit s g" using assms(3) by simp_all
    then show ?thesis using c by (simp only: trunc_abs_def if_False Let_def shift g_def [symmetric] lost kept bnd_Inr)
  qed
  moreover have "unat (ucast (drop_bit 29 (drop_bit s g)) :: u32) = n"
    using calculation(1) ns by (simp only: unsigned_ucast_eq) (simp add: take_bit_nat_eq_self)
  ultimately show ?thesis by simp
qed

context zero_count
begin

lemma trunc_extend_abs:
  assumes "unat x \<le> 255 * 2 ^ 23"
  shows "trunc_abs (extend_abs T x) = Inr x"
proof -
  consider "unat x = 0" | "0 < unat x" "unat x < 2 ^ 23" | "2 ^ 23 \<le> unat x" "unat x < 255 * 2 ^ 23" | "unat x = 255 * 2 ^ 23" using assms by linarith
  then have "\<exists>r. trunc_abs (extend_abs T x) = Inr r \<and> unat r = unat x"
  proof cases
    case 1
    then have "x = 0" by (simp add: word_unat_eq_iff)
    then show ?thesis by (simp add: extend_abs_def trunc_abs_def)
  next
    case 2
    from extend_abs_denormal [OF this] show ?thesis using trunc_abs_denormal by metis
  next
    case 3
    define e f where "e = unat x div 2 ^ 23" and "f = unat x mod 2 ^ 23"
    have n: "unat x = e * 2 ^ 23 + f" "f < 2 ^ 23" unfolding e_def f_def by (rule div_mult_mod_eq [symmetric], simp)
    have e: "1 \<le> e" "e \<le> 254" using 3 by (simp_all add: e_def less_eq_div_iff_mult_less_eq)
    have "unat (extend_abs T x) = (e + 896) * 2 ^ 52 + f * 2 ^ 29" using extend_abs_normal [OF 3, of T] by (simp add: n(1))
    moreover have "f * 2 ^ 29 < 2 ^ 52" "897 \<le> e + 896" "e + 896 \<le> 1150" using n(2) e by simp_all
    ultimately obtain r where r: "trunc_abs (extend_abs T x) = Inr r"
      "unat r = (round_even (2 ^ 52 + f * 2 ^ 29) 29 - 2 ^ 23) + (e + 896 - 896) * 2 ^ 23"
      using trunc_abs_normal(1) by blast
    moreover have "round_even (2 ^ 52 + f * 2 ^ 29) 29 = 2 ^ 23 + f"
    proof -
      have "2 ^ 52 + f * 2 ^ 29 = (2 ^ 23 + f) * 2 ^ 29" by simp
      then show ?thesis by (simp only: round_even_def Let_def) simp
    qed
    ultimately show ?thesis by (simp add: n(1))
  next
    case 4
    then have "x = 0x7F800000" by (simp add: word_unat_eq_iff)
    then have "extend_abs T x = 0x7FF0000000000000" by (simp add: extend_abs_def)
    then show ?thesis using 4 by (simp add: trunc_abs_def)
  qed
  then show ?thesis by (auto simp: word_unat_eq_iff)
qed

lemma extend_abs_less: "unat x \<le> 255 * 2 ^ 23 \<Longrightarrow> unat (extend_abs T x) < 2 ^ 63"
proof (cases "unat x = 255 * 2 ^ 23")
  case True
  then have "x = 0x7F800000" by (simp add: word_unat_eq_iff)
  then show ?thesis by (simp add: extend_abs_def)
next
  case False
  assume "unat x \<le> 255 * 2 ^ 23"
  with False show ?thesis by (intro extend_abs_mag) simp
qed

end

text \<open>
  C17: Widening to \<open>double\<close> and narrowing again gives back every \<open>float\<close> that is a number or infinite, bit
  for bit, denormalised numbers and zeros of either sign included.
\<close>

theorem float_extend_truncate:
  assumes "\<And>x. x \<noteq> 0 \<Longrightarrow> unat (builtin_clz T x) = leading_zeros x" "\<And>x. x \<noteq> 0 \<Longrightarrow> unat (builtin_ctz T x) = trailing_zeros x"
    and "\<not> is_nan 23 a"
  shows "truncdfsf2 (extendsfdf2 T a) = Inr a"
proof -
  have T: "zero_count T" using assms(1,2) by (rule zero_count.intro)
  define x where "x = a AND absMask"
  have x: "unat x = unat a mod 2 ^ 31" "unat x \<le> 255 * 2 ^ 23" using unat_abs_rep [of a] assms(3) by (simp_all add: x_def is_nan_def)
  define X where "X = extend_abs T x"
  have less: "unat X < 2 ^ 63" unfolding X_def by (rule zero_count.extend_abs_less [OF T x(2)])
  have nb: "\<not> bit X 63" using less bit_iff_odd [of "unat X" 63] by (simp add: bit_unsigned_iff)
  have "(X OR (if bit a 31 then signBit else 0)) AND absMask = X"
  proof (rule bit_word_eqI)
    fix n assume "n < LENGTH(64)"
    then have "n \<noteq> 63 \<longleftrightarrow> n < 63" by auto
    then show "bit ((X OR (if bit a 31 then signBit else 0)) AND absMask) n = bit X n"
      using nb unfolding absMask_eq by (auto simp: bit_and_iff bit_or_iff bit_mask_iff bit_signBit)
  qed
  moreover have "bit (X OR (if bit a 31 then signBit else 0)) 63 \<longleftrightarrow> bit a 31" using nb by (simp add: bit_or_iff bit_signBit)
  moreover have "extendsfdf2 T a = X OR (if bit a 31 then signBit else 0)" unfolding X_def x_def by (rule extend_code)
  moreover have "trunc_abs X = Inr x" unfolding X_def by (rule zero_count.trunc_extend_abs [OF T x(2)])
  ultimately have "truncdfsf2 (extendsfdf2 T a) = Inr (x OR (if bit a 31 then signBit else 0))" by (simp only: trunc_code bnd_Inr)
  also have "x OR (if bit a 31 then signBit else 0) = a" using rejoin [of "unat x" a x] x(1) by simp
  finally show ?thesis .
qed

theorem float_extend_truncate_witness: "truncdfsf2 (extendsfdf2 soft_target 0x80000001) = Inr 0x80000001"
proof -
  have "\<not> is_nan 23 (0x80000001 :: u32)" by (simp add: is_nan_def)
  then show ?thesis using float_extend_truncate [of soft_target "0x80000001"] soft.clz soft.ctz by simp
qed

end
