(* ===== verification/Spec2Isabelle.thy ===== *)
theory Spec2Isabelle
  imports Descriptor_Buffer Newlib_Lock Pthread_Runtime X86_Tasks Rtm_Sw_Dequeue Stencil_Sweep March_Workers FFT_Program Rigel_Memory Crt_Float
begin

text \<open>
  A verification of the run-time software of the Rigel target (repository rigel-targetcode): a
  chip of clusters of in-order cores without hardware coherence between the clusters, programmed
  with task queues, barriers and a small pthread library.

  \<^bold>\<open>The parts of the program.\<close> The atomic instructions of include/rigel.h and include/spinlock.h
  carry everything else. Above them are the locks of the C library (lib/newlib/libgloss/rigel), the
  pthread library (lib/libpthread), the barriers and the software task queue (lib/libpar), and a
  host emulation of the task model (lib/taskmodel-x86). The benchmarks (src/benchmarks) use them:
  a main thread sets up globals, sets a flag, and every thread then enqueues a parallel loop and
  dequeues tasks, or meets the others at a barrier between time steps. The shared code of the
  benchmarks buffers work descriptors and chooses when cache lines are written back.

  \<^bold>\<open>How the code is modelled.\<close> A struct or a group of globals is a record, a C function is a function
  on it, and everything C leaves undefined or that ends a program is a value of \<open>c_fault\<close>
  (\<open>Prelude\<close>): results have the type \<open>'a c_result\<close>. Integers keep their width as words of 32
  or 64 bits, so that additions and shifts wrap. Where threads run at the same time, a step relation has
  one step per access of shared memory (or per critical section of a lock), a thread's position in
  the code is part of the state, and the theorems hold in every reachable state, by the interface
  \<open>inductive_invariant\<close> of the prelude. Inline assembly is modelled by the instructions it contains.
  Code that is not in the repository (start routines, task bodies, the arithmetic of \<open>float\<close>) is an
  argument.

  \<^bold>\<open>The theories.\<close>

  \<^item> \<open>Prelude\<close>: faults, bounds-checked arrays, loops whose body may fail, masks and wrap-around of
    words, transition systems with their reachable states, rings.

  \<^item> \<open>Descriptor_Buffer\<close>: benchmarks/common/descriptor_buffer.c and descriptor_buffer_fancy.c. Both
    rings handle every added descriptor once and in order, however often they overflow.

  \<^item> \<open>Rigel_Atomics\<close>: the atomic operations, flags and spin locks of include/spinlock.h and
    libgloss/rigel/spinlock.c. Mutual exclusion in every interleaving.

  \<^item> \<open>Newlib_Lock\<close>: libgloss/rigel/lock.c. The recursive lock is exclusive and its count is the
    nesting depth; the plain lock branches the wrong way.

  \<^item> \<open>Pthread_Mutex\<close>, \<open>Pthread_Runtime\<close>: lib/libpthread. Mutexes of the three kinds, once-only
    initialisation, condition variables, thread-specific data, creation and joining. The normal
    mutex is exclusive, keys round trip, a joined thread delivers its result when creation found one of
    the chip's hardware threads; other lemmas state where the code departs from what it means to do.

  \<^item> \<open>Rigel_Barrier\<close>: lib/libpar/barrier.c and barrier-mt.c as one step relation over the single
    accesses. On chips whose numbers of clusters and threads are powers of two nobody leaves a round
    before everybody has entered it, with counters that wrap, and the barrier opens.

  \<^item> \<open>Task_Types\<close>, \<open>X86_Tasks\<close>: the task descriptors and lib/taskmodel-x86/lib/librtm-x86.c. The barrier
    lets nobody through early and can always be completed by all cores. Each task is delivered once
    until the implicit barrier of the queue; \<open>TaskQueue_Loop\<close> tiles the iterations; a schedule after
    that barrier delivers a task through a stale index.

  \<^item> \<open>Ticket_Lock\<close>, \<open>Rtm_Sw\<close>, \<open>Rtm_Sw_Queue\<close>, \<open>Rtm_Sw_Dequeue\<close>: the software task queue of lib/libpar
    (rtm-sw-common.c, rtm-sw-init.c, rtm-sw-enqueue.c, rtm-sw-dequeue.c). The ticket lock of a
    cluster's queue is exclusive and fair; the shares of the clusters tile a parallel loop, unless the
    number of tasks is so near the largest \<open>int\<close> that rounding it up overflows; the
    dequeues after an enqueue get every iteration of the share once; an empty local queue is
    refilled from the global one; the last thread to find everything empty opens the implied
    barrier and resets it.

  \<^item> \<open>Stencil_Blocks\<close>, \<open>Stencil_Sweep\<close>: benchmarks/stencil. The bounds computed by the setup tile the
    grid; whatever the interleaving inside a phase, the time steps are Jacobi steps of the initial
    grid; with cache maintenance on, the lines of the updated cells are written back and those of the
    cells and their neighbours invalidated before the barrier, and no thread stores to the line of
    the first element, the only other one read.

  \<^item> \<open>March_Tables\<close>, \<open>March\<close>, \<open>March_Workers\<close>: benchmarks/march/march.c. The tables are consistent
    with each other for all 256 states of a cube; a cube appends an oriented surface through exactly
    the cut edges, or stores out of bounds when the output is full, which the code does not check;
    the workers treat every cube once.

  \<^item> \<open>Task_Worker\<close>: what the workers of march and FFT share: the loop around the dequeue, the halving
    loop of the setups, and the interface \<open>order_free\<close> of tasks whose order does not matter.

  \<^item> \<open>FFT_Four1\<close>, \<open>FFT_Fourier\<close>, \<open>FFT_Program\<close>: benchmarks/fft/fft.c. \<open>four1\<close> computes on the floats
    of the array what its stages compute on pairs, and for exact arithmetic and sines that is the
    discrete Fourier transform; the row, transposition and column phases of the workers give the
    two-dimensional one, in whatever order the tasks are run. Rows of more than 512 numbers are read
    before their first element, as a lemma shows.

  \<^item> \<open>Rigel_Memory\<close>: the arena behind \<open>mmap\<close> (sys/rigel/mman.c), its bounds and the table of coherent
    lines from the start-up code (crt0.c), \<open>_sbrk\<close>. Blocks never overlap while no size wraps around;
    the table refines a set of lines. Two lemmas show where a wrap-around is not caught and that the
    table may start before its block.

  \<^item> \<open>Crt_Words\<close>, \<open>Crt_Arith\<close>, \<open>Crt_Divide\<close>, \<open>Crt_Float\<close>: lib/compiler-rt, the routines to which the
    compiler turns the arithmetic the 32-bit cores lack. 64-bit shifts, counts of bits and comparisons
    return what their names promise; the operations that trap on overflow return exactly when the
    result fits; the shift-and-subtract divisions return quotient and remainder in all their special
    cases, whatever shifts out of range yield (locale \<open>zero_count\<close>: what the compiler documents of its
    intrinsics, interpreted on the routines of \<open>Crt_Words\<close>); floating-point numbers compare as their
    values, integers convert exactly or to the nearest, values convert to their integer part, and
    widening followed by narrowing is the identity. A value is an integer, in units of the least
    positive number of the format. One lemma shows that 2 to the 128 is narrowed by undefined shifts.

  \<^item> This theory: the FFT on the software task queue's division of its loops. The shares that the
    clusters compute for the four loops hold exactly the tasks the phases of the transform need.

  \<^bold>\<open>Loops and fuel.\<close> Counting loops are primitive recursions over the number of rounds or over the
  list of the values. The search for a set bit (\<open>find_shift\<close>) does not end on zero and is a partial
  function into \<open>option\<close>, with theorems on when it returns. The halving loops of \<open>Task_Worker\<close>, the
  bit reversal, the stages and Duff's device of the FFT are total with a termination proof. Waiting loops take a number of polls, or are
  steps that repeat in the step relation; the theorems of kind liveness show that the number given
  is enough, or that a state that lets the thread through can be reached.

  \<^bold>\<open>Hypotheses.\<close> The theorems on the transform take exact real arithmetic and an exact table of sines,
  and rows and columns of at most 512 numbers. The barriers and the shifts of the software queue need powers of two, as the
  code's masks do; the march workers and the transform too. Theorems on counters assume fewer than \<open>2 ^ 32\<close> threads or
  tasks where the code's comparison of wrapped values does. Every hypothesis has a witness.

  \<^bold>\<open>Not modelled.\<close> The hardware task queue (lib/libpar/hw-tasks.c) is a list of single instructions
  whose effect is in the hardware. \<open>SW_TaskQueue_Enqueue\<close> and \<open>SW_TaskQueue_Loop_SEQUENTIAL\<close> of
  rtm-sw-enqueue.c are assembly whose operand order no document in the repository fixes. The system
  call wrappers and timers of libgloss pass their arguments to the simulator, and the rest of the
  start-up code calls them and the allocator. The allocators above \<open>mmap\<close>, the C library
  and nedmalloc are third-party code; of compiler-rt the addition, multiplication and division of
  floating-point numbers, the conversions from 64-bit integers, the powers, the complex numbers and the
  128-bit routines for other hosts are left out. \<open>RigelBarrier\<close> and \<open>LocalReduceFloat\<close> of util.c are marked as
  deprecated and never called. The arithmetic of \<open>float\<close> and the table of sines are arguments of the
  FFT, whose theorems take them to be exact; \<open>four1s\<close> of fft.c is never called. The tests and the
  host tools are not part of the run-time software. Line flushes change no value in the models,
  because the atomic operations and the accesses after a flush are taken to go to the shared memory;
  what the benchmarks flush is the subject of \<open>Stencil_Sweep\<close>.
\<close>

section \<open>The transform on the shares of the task queue\<close>

text \<open>
  The tasks that the clusters enqueue together for \<open>RIGEL_LOOP (QID, tot, 1)\<close> on the software task
  queue, in the order of the clusters: one task per iteration of every share. \<open>G\<close> is the size of the
  task groups and \<open>2 ^ k\<close> the number of clusters.
\<close>

definition loop_tasks :: "nat \<Rightarrow> nat \<Rightarrow> nat \<Rightarrow> u32 list" where
  "loop_tasks G k tot =
     map of_nat (concat (map (\<lambda>c. share_iters (cluster_share G (of_nat (2 ^ k)) k (of_nat c) (int tot) (int 1))) [0..<2 ^ k]))"

definition loop_small :: "nat \<Rightarrow> nat \<Rightarrow> nat \<Rightarrow> bool" where
  "loop_small G k tot \<longleftrightarrow> tot + 2 ^ k * G < 2 ^ 31"

lemma loop_tasks_all:
  assumes "k < 32" "0 < G" "loop_small G k tot"
  shows "loop_tasks G k tot = map of_nat [0..<tot]"
proof -
  have sum: "tot + G < 2 ^ 31" and small: "tot + 2 ^ k * G * 1 < 2 ^ 32"
    using assms(3) order.strict_trans1 [of "tot + G" "tot + 2 ^ k * G" "2 ^ 31"] by (simp_all add: loop_small_def)
  from sum have fits: "loop_fits G tot 1" by (simp add: loop_fits_def loop_ints_def INT_MAX_def)
  let ?w = "share_groups G (2 ^ k) tot 1 * 1 * G"
  have "map (\<lambda>c. share_iters (cluster_share G (of_nat (2 ^ k)) k (of_nat c) (int tot) (int 1))) [0..<2 ^ k] =
      map (\<lambda>c. [min (c * ?w) tot..<min (Suc c * ?w) tot]) [0..<2 ^ k]"
    using share_iters_nat [OF refl assms(1,2) zero_less_one small fits] by (intro map_cong) auto
  moreover have "tot \<le> 2 ^ k * ?w"
    using share_groups_enough [of "2 ^ k" G 1 tot] assms(2) by (simp add: ac_simps)
  ultimately show ?thesis unfolding loop_tasks_def by (simp only: tile_clipped min_absorb2)
qed

lemma loop_all_tasks:
  assumes "k < 32" "0 < G" "loop_small G k tot" "mset (map snd ts) = mset (loop_tasks G k tot)"
  shows "all_tasks tot ts"
proof -
  have "tot < 2 ^ 32" using assms(3) by (simp add: loop_small_def)
  then have "inj_on (of_nat :: nat \<Rightarrow> u32) {..<tot}"
    by (intro inj_on_inverseI [where g = unat] unat_of_nat_u32) simp
  then have "distinct (loop_tasks G k tot)" "set (loop_tasks G k tot) = of_nat ` {..<tot}"
    by (simp_all add: loop_tasks_all [OF assms(1-3)] distinct_map atLeast0LessThan)
  with assms(4) show ?thesis unfolding all_tasks_def by (metis mset_eq_imp_distinct_iff mset_eq_setD)
qed

text \<open>
  C5: The benchmark on the division of its loops. Take exact arithmetic and sines and a matrix of up
  to 512 by 512 numbers whose sizes and block sizes are powers of two. In each phase let the workers
  run, in any order and on any threads, the tasks of the shares into which the software task queue
  divides the phase's loop among the \<open>2 ^ k\<close> clusters. Then the benchmark returns without a fault and
  leaves the two-dimensional discrete Fourier transform of the input in \<open>data\<close>.
\<close>

theorem fft_on_task_shares:
  assumes "fft_sizes r c a b" "r \<le> 9" "c \<le> 9" "exact_lut (max r c) lut"
    and "st_data s = flat xs" "st_data2 s = flat ys" "length xs = 2 ^ (r + c)" "length ys = 2 ^ (r + c)"
    and "k < 32" "0 < G" "2 ^ 18 + 2 ^ k * G < 2 ^ 31"
    and "mset (map snd ts1) = mset (loop_tasks G k (2 ^ r))"
    and "mset (map snd ts2) = mset (loop_tasks G k (2 ^ (r - a) * 2 ^ (c - b)))"
    and "mset (map snd ts3) = mset (loop_tasks G k (2 ^ c))"
    and "mset (map snd ts4) = mset (loop_tasks G k (2 ^ (r - a) * 2 ^ (c - b)))"
    and "\<forall>(th, v) \<in> set (ts1 @ ts3). th < length (st_workspace s)"
  shows "\<exists>s' out. fft_run exact_fft lut (fft_setup (2 ^ r) (2 ^ c) (2 ^ a) (2 ^ b)) ts1 ts2 ts3 ts4 s = Inr s' \<and>
    st_data s' = flat out \<and>
    (\<forall>i < 2 ^ r. \<forall>j < 2 ^ c. cpx (out ! (i * 2 ^ c + j)) =
       dft (2 ^ r) (\<lambda>i'. dft (2 ^ c) (\<lambda>j'. cpx (xs ! (i' * 2 ^ c + j'))) j) i)"
proof -
  have lut: "r < length lut" "c < length lut" using assms(4) by (simp_all add: exact_lut_def)
  have p: "(2 :: nat) ^ n \<le> 2 ^ 9" if "n \<le> 9" for n using that by (intro power_increasing) simp_all
  have "(2 :: nat) ^ (r - a) * 2 ^ (c - b) \<le> 2 ^ 9 * 2 ^ 9" using assms(2,3) by (intro mult_le_mono p) simp_all
  then have small: "loop_small G k (2 ^ r)" "loop_small G k (2 ^ c)" "loop_small G k (2 ^ (r - a) * 2 ^ (c - b))"
    using p [OF assms(2)] p [OF assms(3)] assms(11) by (simp_all add: loop_small_def)
  note ts = loop_all_tasks [OF assms(9,10)]
  obtain s' where "fft_run exact_fft lut (exp_globals r c a b) ts1 ts2 ts3 ts4 s = Inr s'"
    "st_data s' = flat (fft_pairs exact_fft lut r c xs)"
    using fft_run_eq [OF assms(1-3) lut assms(5-8) ts [OF small(1) assms(12)] ts [OF small(3) assms(13)]
        ts [OF small(2) assms(14)] ts [OF small(3) assms(15)] assms(16)] by blast
  then show ?thesis
    using fft_pairs_dft [OF assms(4,7)] by (metis exp_globals_def)
qed

theorem fft_on_task_shares_witness:
  "loop_tasks 8 4 2 = [0, 1] \<and> loop_tasks 8 4 1 = [0] \<and>
   (\<exists>s' out. fft_run exact_fft [0, 1] (fft_setup 2 2 2 2) [(1, 1), (0, 0)] [(0, 0)] [(1, 0), (0, 1)] [(1, 0)]
      \<lparr>st_data = [1, 2, 3, 4, 5, 6, 7, 8], st_data2 = [0, 0, 0, 0, 0, 0, 0, 0], st_workspace = [[], []]\<rparr> = Inr s' \<and>
    st_data s' = flat out \<and>
    (\<forall>i < 2. \<forall>j < 2. cpx (out ! (i * 2 + j)) =
       dft 2 (\<lambda>i'. dft 2 (\<lambda>j'. cpx ([(1, 2), (3, 4), (5, 6), (7, 8)] ! (i' * 2 + j'))) j) i))"
proof -
  have t: "loop_tasks 8 4 2 = [0, 1]" "loop_tasks 8 4 1 = [0]"
    by (simp_all add: loop_tasks_all loop_small_def upt_rec)
  have lut: "exact_lut (max 1 1) [0, 1]" by (auto simp: exact_lut_def le_Suc_eq)
  have sz: "fft_sizes 1 1 1 1" by (simp add: fft_sizes_def)
  let ?s = "\<lparr>st_data = [1, 2, 3, 4, 5, 6, 7, 8], st_data2 = [0, 0, 0, 0, 0, 0, 0, 0], st_workspace = [[], []]\<rparr> :: real fft_state"
  have g: "(4 :: nat) < 32" "0 < (8 :: nat)" "2 ^ 18 + 2 ^ 4 * 8 < (2 :: nat) ^ 31" by simp_all
  have m: "mset (map snd [(1 :: nat, 1), (0, 0)]) = mset (loop_tasks 8 4 (2 ^ 1))"
    "mset (map snd [(0 :: nat, 0)]) = mset (loop_tasks 8 4 (2 ^ (1 - 1) * 2 ^ (1 - 1)))"
    "mset (map snd [(1 :: nat, 0), (0, 1)]) = mset (loop_tasks 8 4 (2 ^ 1))"
    "mset (map snd [(1 :: nat, 0)]) = mset (loop_tasks 8 4 (2 ^ (1 - 1) * 2 ^ (1 - 1)))"
    using t by (simp_all add: add_mset_commute)
  show ?thesis
    using fft_on_task_shares [OF sz _ _ lut _ _ _ _ g m, of ?s "[(1, 2), (3, 4), (5, 6), (7, 8)]"
        "[(0, 0), (0, 0), (0, 0), (0, 0)]"] t by simp
qed

end
